(* ===== verification/Prelude.thy ===== *)
theory Prelude
  imports Main "HOL-Library.Word" "HOL-Library.Multiset"
begin

text \<open>
  Shared vocabulary of the development: the machine types the sources use
  (\<open>uint8_t\<close>, \<open>DWORD\<close>, \<open>uint64_t\<close>/\<open>size_t\<close> on the x64 Windows target), the outcomes that end
  a C++ execution abnormally, the little-endian reading of a few bytes into a zeroed
  \<open>uint64_t\<close> (the \<open>memcpy(&v, p, n)\<close> idiom of the scanner), and generic lemmas.
\<close>

unbundle bit_operations_syntax

type_synonym u8 = "8 word"
type_synonym u32 = "32 word"
type_synonym u64 = "64 word"

text \<open>
  Abnormal outcomes. \<open>Null_deref\<close>: a null \<open>shared_ptr\<close> or pointer is dereferenced.
  \<open>Out_of_bounds\<close>: a read or a write leaves the object it points into (undefined
  behaviour in C++). \<open>Invalid_argument\<close>: the \<open>std::invalid_argument\<close> that the \<open>scan\<close>
  constructor throws. \<open>Broken_promise\<close>: \<open>future::get\<close> on a task that was dropped.
\<close>

datatype fault = Null_deref | Out_of_bounds | Invalid_argument | Broken_promise

type_synonym 'a res = "fault + 'a"

named_theorems word_nat \<open>moves between words and natural numbers\<close>

subsection \<open>Words and natural numbers\<close>

lemma u64_max [simp]: "unat (w :: u64) < 18446744073709551616"
  using unsigned_less [of w] by simp

lemma unat_add_no_wrap [word_nat]:
  fixes a b :: u64
  shows "unat a + unat b < 2 ^ 64 \<Longrightarrow> unat (a + b) = unat a + unat b"
  by (simp add: unat_word_ariths)

lemma unat_mult_no_wrap [word_nat]:
  fixes a b :: u64
  shows "unat a * unat b < 2 ^ 64 \<Longrightarrow> unat (a * b) = unat a * unat b"
  by (simp add: unat_word_ariths)

lemma unat_of_nat_u64 [word_nat]: "n < 2 ^ 64 \<Longrightarrow> unat (of_nat n :: u64) = n"
  by (simp add: unat_of_nat take_bit_nat_eq_self_iff)

lemma unat_add_of_nat [word_nat]:
  fixes a :: u64
  shows "unat a + n < 2 ^ 64 \<Longrightarrow> unat (a + of_nat n) = unat a + n"
  by (simp add: unat_word_ariths unat_of_nat take_bit_eq_mod mod_simps)

lemma word_offset_inj:
  fixes a :: u64
  assumes "i < 2 ^ 64" and "j < 2 ^ 64" and "a + of_nat i = a + of_nat j"
  shows "i = j"
proof -
  from assms(3) have "(of_nat i :: u64) = of_nat j" by simp
  then have "unat (of_nat i :: u64) = unat (of_nat j :: u64)" by simp
  with assms(1,2) show ?thesis by (simp only: unat_of_nat_u64)
qed

subsection \<open>Little-endian values\<close>

fun le_u64 :: "u8 list \<Rightarrow> u64" where
  "le_u64 [] = 0"
| "le_u64 (b # bs) = ucast b + 256 * le_u64 bs"

fun le_nat :: "u8 list \<Rightarrow> nat" where
  "le_nat [] = 0"
| "le_nat (b # bs) = unat b + 256 * le_nat bs"

lemma le_nat_bound: "le_nat bs < 256 ^ length bs"
proof (induction bs)
  case Nil
  then show ?case by simp
next
  case (Cons b bs)
  have "unat b < 256" using unsigned_less [of b] by simp
  with Cons show ?case by simp
qed

lemma le_u64_eq_of_nat: "le_u64 bs = of_nat (le_nat bs)"
  by (induction bs) simp_all

lemma unat_le_u64: "length bs \<le> 8 \<Longrightarrow> unat (le_u64 bs) = le_nat bs"
proof -
  assume "length bs \<le> 8"
  then have "(256 :: nat) ^ length bs \<le> 256 ^ 8" by (rule power_increasing) simp
  with le_nat_bound [of bs] have "le_nat bs < 2 ^ 64" by simp
  then show ?thesis by (simp only: le_u64_eq_of_nat unat_of_nat_u64)
qed

lemma le_nat_inj: "length as = length bs \<Longrightarrow> le_nat as = le_nat bs \<Longrightarrow> as = bs"
proof (induction as bs rule: list_induct2)
  case Nil
  then show ?case by simp
next
  case (Cons a as b bs)
  have ab: "unat a < 256" "unat b < 256"
    using unsigned_less [of a] unsigned_less [of b] by simp_all
  from Cons.prems have eq: "unat a + 256 * le_nat as = unat b + 256 * le_nat bs" by simp
  then have "(unat a + 256 * le_nat as) mod 256 = (unat b + 256 * le_nat bs) mod 256" by simp
  with ab have "unat a = unat b" by simp
  moreover from this eq have "le_nat as = le_nat bs" by simp
  ultimately show ?case using Cons.IH by (simp add: word_unat_eq_iff)
qed

lemma le_u64_inj:
  "length as = length bs \<Longrightarrow> length bs \<le> 8 \<Longrightarrow> le_u64 as = le_u64 bs \<Longrightarrow> as = bs"
  by (metis le_nat_inj unat_le_u64)

subsection \<open>Lists\<close>

lemma sorted_wrt_less_unique:
  fixes f :: "'a \<Rightarrow> 'b :: linorder"
  shows "distinct (map f xs) \<Longrightarrow> mset ys = mset xs \<Longrightarrow> sorted (map f ys) \<Longrightarrow> ys = sort_key f xs"
  by (metis distinct_map sort_key_inj_key_eq)

lemma sum_list_map_update:
  fixes f :: "'a \<Rightarrow> nat"
  assumes "k < length xs"
  shows "sum_list (map f (xs[k := x])) + f (xs ! k) = sum_list (map f xs) + f x"
proof -
  have "sum_list (map f xs) = sum_list (map f (take k xs)) + f (xs ! k) + sum_list (map f (drop (Suc k) xs))"
    by (subst id_take_nth_drop [OF assms]) simp
  moreover have "sum_list (map f (xs[k := x])) = sum_list (map f (take k xs)) + f x + sum_list (map f (drop (Suc k) xs))"
    by (simp add: upd_conv_take_nth_drop [OF assms])
  ultimately show ?thesis by simp
qed

end
