(* ===== verification/Win32.thy ===== *)
theory Win32
  imports Prelude
begin

text \<open>
  The platform the sources call. Windows is not part of the repository, so every API function
  is a component of the record \<open>win32\<close>, a parameter of the definitions that call it; \<open>'w\<close> is the
  state of the operating system and of this process's mapped memory. A call takes its arguments
  and the state, and returns its result and the next state. \<open>load_byte\<close> and \<open>store_byte\<close> are
  reads and writes of a byte of this process's memory: what they see in a mapped view is the
  operating system's business.

  \<open>view_of\<close> is an observer of the specification, called by no operation of the model: for an
  address inside a live view of the dump file it gives the base address of the view and the
  position in the file of the byte shown there.

  The predicates \<open>*_docs\<close> state the documented behaviour that the theorems rely on.
\<close>

datatype access_mode = read_access | write_access

datatype disposition = Open_always | Open_existing

type_synonym wstring = "16 word list"

definition invalid_handle_value :: u64 where
  "invalid_handle_value = - 1"

text \<open>The fields of \<open>MEMORY_BASIC_INFORMATION\<close> that the sources use.\<close>

record mbi =
  BaseAddress :: u64
  RegionSize :: u64
  State :: u32
  Protect :: u32
  MemType :: u32

definition MEM_COMMIT :: u32 where "MEM_COMMIT = 0x1000"

definition MEM_MAPPED :: u32 where "MEM_MAPPED = 0x40000"

record 'w win32 =
  delete_file :: "string \<Rightarrow> 'w \<Rightarrow> bool \<times> 'w"
  create_file_a :: "string \<Rightarrow> access_mode \<Rightarrow> disposition \<Rightarrow> 'w \<Rightarrow> u64 \<times> 'w"
  create_file_w :: "wstring \<Rightarrow> access_mode \<Rightarrow> disposition \<Rightarrow> 'w \<Rightarrow> u64 \<times> 'w"
  multi_byte_to_wide :: "string \<Rightarrow> wstring"
  get_file_size :: "u64 \<Rightarrow> 'w \<Rightarrow> u64 option \<times> 'w"
  set_file_pointer :: "u64 \<Rightarrow> u64 \<Rightarrow> 'w \<Rightarrow> bool \<times> 'w"
  set_end_of_file :: "u64 \<Rightarrow> 'w \<Rightarrow> bool \<times> 'w"
  close_handle :: "u64 \<Rightarrow> 'w \<Rightarrow> bool \<times> 'w"
  create_file_mapping :: "u64 \<Rightarrow> access_mode \<Rightarrow> u32 \<Rightarrow> u32 \<Rightarrow> 'w \<Rightarrow> u64 \<times> 'w"
  map_view_of_file :: "u64 \<Rightarrow> access_mode \<Rightarrow> u32 \<Rightarrow> u32 \<Rightarrow> u64 \<Rightarrow> 'w \<Rightarrow> u64 \<times> 'w"
  unmap_view_of_file :: "u64 \<Rightarrow> 'w \<Rightarrow> bool \<times> 'w"
  flush_view_of_file :: "u64 \<Rightarrow> u64 \<Rightarrow> 'w \<Rightarrow> bool \<times> 'w"
  flush_file_buffers :: "u64 \<Rightarrow> 'w \<Rightarrow> bool \<times> 'w"
  get_last_error :: "'w \<Rightarrow> u32"
  allocation_granularity :: u64
  virtual_query :: "u64 \<Rightarrow> u64 \<Rightarrow> 'w \<Rightarrow> mbi option"
  read_process_memory :: "u64 \<Rightarrow> u64 \<Rightarrow> u64 \<Rightarrow> 'w \<Rightarrow> (bool \<times> u8 list) \<times> 'w"
  load_byte :: "'w \<Rightarrow> u64 \<Rightarrow> u8"
  store_byte :: "u64 \<Rightarrow> u8 \<Rightarrow> 'w \<Rightarrow> 'w"
  view_of :: "'w \<Rightarrow> u64 \<Rightarrow> (u64 \<times> nat) option"

text \<open>\<open>LongToHandle\<close>: a 32-bit \<open>long\<close> is sign-extended to a handle.\<close>

definition long_to_handle :: "u32 \<Rightarrow> u64" where
  "long_to_handle h = scast h"

subsection \<open>Byte ranges\<close>

text \<open>\<open>memcpy\<close> into and out of this process's memory, byte by byte.\<close>

fun store_bytes :: "'w win32 \<Rightarrow> u64 \<Rightarrow> u8 list \<Rightarrow> 'w \<Rightarrow> 'w" where
  "store_bytes api a [] w = w"
| "store_bytes api a (b # bs) w = store_bytes api (a + 1) bs (store_byte api a b w)"

definition load_bytes :: "'w win32 \<Rightarrow> 'w \<Rightarrow> u64 \<Rightarrow> nat \<Rightarrow> u8 list" where
  "load_bytes api w a n = map (\<lambda>i. load_byte api w (a + of_nat i)) [0..<n]"

lemma length_load_bytes [simp]: "length (load_bytes api w a n) = n"
  by (simp add: load_bytes_def)

lemma nth_load_bytes: "i < n \<Longrightarrow> load_bytes api w a n ! i = load_byte api w (a + of_nat i)"
  by (simp add: load_bytes_def)

lemma load_bytes_slice:
  "i + k \<le> n \<Longrightarrow> take k (drop i (load_bytes api w a n)) = load_bytes api w (a + of_nat i) k"
  by (rule nth_equalityI) (simp_all add: nth_load_bytes add.assoc)

subsection \<open>Documented behaviour\<close>

text \<open>
  \<open>keeps api w w'\<close>: every byte shown in a live view in \<open>w\<close> is still there in \<open>w'\<close>, in the same
  view, at the same position of the file and with the same value.
\<close>

definition keeps :: "'w win32 \<Rightarrow> 'w \<Rightarrow> 'w \<Rightarrow> bool" where
  "keeps api w w' \<longleftrightarrow> (\<forall>a v. view_of api w a = Some v \<longrightarrow>
     view_of api w' a = Some v \<and> load_byte api w' a = load_byte api w a)"

lemma keeps_refl [simp]: "keeps api w w"
  by (simp add: keeps_def)

lemma keeps_trans: "keeps api w1 w2 \<Longrightarrow> keeps api w2 w3 \<Longrightarrow> keeps api w1 w3"
  by (simp add: keeps_def)

text \<open>Calls on files and handles leave the mapped memory alone.\<close>

definition quiet_docs :: "'w win32 \<Rightarrow> bool" where
  "quiet_docs api \<longleftrightarrow> (\<forall>w. (\<forall>n. keeps api w (snd (delete_file api n w)))
     \<and> (\<forall>n m d. keeps api w (snd (create_file_a api n m d w)))
     \<and> (\<forall>n m d. keeps api w (snd (create_file_w api n m d w)))
     \<and> (\<forall>h. keeps api w (snd (get_file_size api h w)))
     \<and> (\<forall>h x. keeps api w (snd (set_file_pointer api h x w)))
     \<and> (\<forall>h. keeps api w (snd (set_end_of_file api h w)))
     \<and> (\<forall>h. keeps api w (snd (close_handle api h w)))
     \<and> (\<forall>h m x y. keeps api w (snd (create_file_mapping api h m x y w)))
     \<and> (\<forall>a n. keeps api w (snd (flush_view_of_file api a n w)))
     \<and> (\<forall>h. keeps api w (snd (flush_file_buffers api h w)))
     \<and> (\<forall>h a n. keeps api w (snd (read_process_memory api h a n w))))"

text \<open>
  A store into a view changes the byte of the file it shows, hence that byte in every view of
  the file, and nothing else.
\<close>

definition store_docs :: "'w win32 \<Rightarrow> bool" where
  "store_docs api \<longleftrightarrow>
     (\<forall>w a v b. view_of api (store_byte api a v w) b = view_of api w b)
   \<and> (\<forall>w a v b x y p q. view_of api w a = Some (x, p) \<longrightarrow> view_of api w b = Some (y, q) \<longrightarrow>
        load_byte api (store_byte api a v w) b = (if p = q then v else load_byte api w b))"

text \<open>
  \<open>MapViewOfFile\<close>: the earlier views stay; on success the new view starts at a fresh base and
  shows the file from the given offset on.
\<close>

definition file_offset :: "u32 \<Rightarrow> u32 \<Rightarrow> nat" where
  "file_offset hi lo = unat hi * 2 ^ 32 + unat lo"

definition map_docs :: "'w win32 \<Rightarrow> bool" where
  "map_docs api \<longleftrightarrow> (\<forall>w h m hi lo n b w'. map_view_of_file api h m hi lo n w = (b, w') \<longrightarrow>
     keeps api w w' \<and> (b \<noteq> 0 \<longrightarrow> unat b + unat n < 2 ^ 64
       \<and> (\<forall>a p. view_of api w a \<noteq> Some (b, p))
       \<and> (\<forall>i < unat n. view_of api w' (b + of_nat i) = Some (b, file_offset hi lo + i))))"

text \<open>\<open>UnmapViewOfFile\<close> removes the view with the given base and no other.\<close>

definition unmap_docs :: "'w win32 \<Rightarrow> bool" where
  "unmap_docs api \<longleftrightarrow> (\<forall>w b a c p. c \<noteq> b \<longrightarrow> view_of api w a = Some (c, p) \<longrightarrow>
     view_of api (snd (unmap_view_of_file api b w)) a = Some (c, p)
     \<and> load_byte api (snd (unmap_view_of_file api b w)) a = load_byte api w a)"

definition memory_docs :: "'w win32 \<Rightarrow> bool" where
  "memory_docs api \<longleftrightarrow> quiet_docs api \<and> store_docs api \<and> map_docs api \<and> unmap_docs api
     \<and> allocation_granularity api \<noteq> 0"

text \<open>
  \<open>ReadProcessMemory\<close> delivers at most the requested number of bytes, and all of them when it
  reports success.
\<close>

definition rpm_docs :: "'w win32 \<Rightarrow> bool" where
  "rpm_docs api \<longleftrightarrow> (\<forall>w h a n ok bs w'. read_process_memory api h a n w = ((ok, bs), w') \<longrightarrow>
     length bs \<le> unat n \<and> (ok \<longrightarrow> length bs = unat n))"

text \<open>
  \<open>VirtualQueryEx\<close>: the region it describes contains the queried address, starts at the page of
  that address, is a whole number of pages long, and lies in the 47-bit user address space.
\<close>

definition query_docs :: "'w win32 \<Rightarrow> bool" where
  "query_docs api \<longleftrightarrow> (\<forall>w h a m. virtual_query api h a w = Some m \<longrightarrow>
     unat (BaseAddress m) = unat a div 4096 * 4096
   \<and> 4096 dvd unat (RegionSize m) \<and> 0 < unat (RegionSize m)
   \<and> unat (BaseAddress m) + unat (RegionSize m) \<le> 2 ^ 47)"

lemmas memory_docsD =
  memory_docs_def [THEN iffD1, THEN conjunct1]
  memory_docs_def [THEN iffD1, THEN conjunct2, THEN conjunct1]
  memory_docs_def [THEN iffD1, THEN conjunct2, THEN conjunct2, THEN conjunct1]
  memory_docs_def [THEN iffD1, THEN conjunct2, THEN conjunct2, THEN conjunct2, THEN conjunct1]
  memory_docs_def [THEN iffD1, THEN conjunct2, THEN conjunct2, THEN conjunct2, THEN conjunct2]

lemma quiet_keeps:
  assumes "memory_docs api"
  shows "keeps api w (snd (delete_file api n w))"
    "keeps api w (snd (create_file_a api n m d w))"
    "keeps api w (snd (create_file_w api nw m d w))"
    "keeps api w (snd (get_file_size api h w))"
    "keeps api w (snd (set_file_pointer api h x w))"
    "keeps api w (snd (set_end_of_file api h w))"
    "keeps api w (snd (close_handle api h w))"
    "keeps api w (snd (create_file_mapping api h m hi lo w))"
    "keeps api w (snd (flush_view_of_file api a k w))"
    "keeps api w (snd (flush_file_buffers api h w))"
    "keeps api w (snd (read_process_memory api h a k w))"
  using memory_docsD(1) [OF assms] by (simp_all add: quiet_docs_def)

text \<open>The same facts for a call whose result is known, as the components meet them.\<close>

lemma quiet_keepsD:
  assumes "memory_docs api"
  shows "delete_file api n w = (r1, w') \<Longrightarrow> keeps api w w'"
    "create_file_a api n m d w = (r2, w') \<Longrightarrow> keeps api w w'"
    "create_file_w api nw m d w = (r2, w') \<Longrightarrow> keeps api w w'"
    "get_file_size api h w = (r3, w') \<Longrightarrow> keeps api w w'"
    "set_file_pointer api h x w = (r1, w') \<Longrightarrow> keeps api w w'"
    "set_end_of_file api h w = (r1, w') \<Longrightarrow> keeps api w w'"
    "close_handle api h w = (r1, w') \<Longrightarrow> keeps api w w'"
    "create_file_mapping api h m hi lo w = (r2, w') \<Longrightarrow> keeps api w w'"
    "flush_view_of_file api a k w = (r1, w') \<Longrightarrow> keeps api w w'"
    "flush_file_buffers api h w = (r1, w') \<Longrightarrow> keeps api w w'"
    "read_process_memory api h a k w = (r4, w') \<Longrightarrow> keeps api w w'"
  using quiet_keeps [OF assms, of w] by (metis snd_conv)+

subsection \<open>Loads after stores\<close>

text \<open>A range of addresses that shows consecutive bytes of the file from position \<open>p\<close> on.\<close>

definition shows_file :: "'w win32 \<Rightarrow> 'w \<Rightarrow> u64 \<Rightarrow> nat \<Rightarrow> nat \<Rightarrow> bool" where
  "shows_file api w a n p \<longleftrightarrow> unat a + n < 2 ^ 64 \<and>
     (\<forall>i < n. \<exists>b. view_of api w (a + of_nat i) = Some (b, p + i))"

lemma shows_file_sub:
  assumes "shows_file api w a n p" and "i + k \<le> n"
  shows "shows_file api w (a + of_nat i) k (p + i)"
proof -
  have "unat (a + of_nat i) = unat a + i"
    using assms by (intro unat_add_of_nat) (simp add: shows_file_def)
  moreover have "\<exists>b. view_of api w (a + of_nat i + of_nat j) = Some (b, p + i + j)" if "j < k" for j
    using assms that by (auto simp: shows_file_def add.assoc dest: spec [of _ "i + j"])
  ultimately show ?thesis using assms by (simp add: shows_file_def)
qed

lemma shows_file_keeps: "shows_file api w a n p \<Longrightarrow> keeps api w w' \<Longrightarrow> shows_file api w' a n p"
  unfolding shows_file_def keeps_def by blast

lemma load_bytes_keeps: "shows_file api w a n p \<Longrightarrow> keeps api w w' \<Longrightarrow> load_bytes api w' a n = load_bytes api w a n"
  unfolding shows_file_def keeps_def load_bytes_def by (auto 0 4)

lemma view_store_bytes [simp]:
  "memory_docs api \<Longrightarrow> view_of api (store_bytes api a bs w) = view_of api w"
proof (induction bs arbitrary: a w)
  case (Cons b bs)
  then show ?case
    using memory_docsD(2) [OF Cons.prems] by (simp add: store_docs_def fun_eq_iff)
qed simp

lemma shows_file_store [simp]:
  "memory_docs api \<Longrightarrow> shows_file api (store_bytes api a bs w) = shows_file api w"
  by (simp add: shows_file_def fun_eq_iff)

text \<open>What a load sees after a range of stores, in terms of file positions.\<close>

lemma load_byte_store_bytes:
  assumes "memory_docs api" and "shows_file api w a (length bs) p"
    and "view_of api w c = Some (y, q)"
  shows "load_byte api (store_bytes api a bs w) c =
    (if p \<le> q \<and> q < p + length bs then bs ! (q - p) else load_byte api w c)"
  using assms(2,3)
proof (induction bs arbitrary: a w p)
  case Nil
  then show ?case by auto
next
  case (Cons b bs)
  have sd: "store_docs api" using memory_docsD(2) [OF assms(1)] .
  obtain x where x: "view_of api w a = Some (x, p)"
    using Cons.prems(1) by (auto simp: shows_file_def dest: spec [of _ 0])
  have tail: "shows_file api w (a + 1) (length bs) (Suc p)"
    using shows_file_sub [OF Cons.prems(1), of 1 "length bs"] by simp
  have v: "view_of api (store_byte api a b w) = view_of api w"
    using sd by (simp add: store_docs_def fun_eq_iff)
  have "shows_file api (store_byte api a b w) (a + 1) (length bs) (Suc p)"
    using tail by (simp add: shows_file_def v)
  from Cons.IH [OF this] Cons.prems(2)
  have IH: "load_byte api (store_bytes api (a + 1) bs (store_byte api a b w)) c =
    (if Suc p \<le> q \<and> q < Suc p + length bs then bs ! (q - Suc p) else load_byte api (store_byte api a b w) c)"
    by (simp add: v)
  have "load_byte api (store_byte api a b w) c = (if p = q then b else load_byte api w c)"
    using sd x Cons.prems(2) unfolding store_docs_def by blast
  moreover have "Suc p \<le> q \<Longrightarrow> (b # bs) ! (q - p) = bs ! (q - Suc p)" by (simp add: nth_Cons')
  ultimately show ?case using IH by auto
qed

lemma load_store_bytes_same:
  assumes "memory_docs api" and "shows_file api w a (length bs) p"
  shows "load_bytes api (store_bytes api a bs w) a (length bs) = bs"
proof (rule nth_equalityI)
  fix i
  assume "i < length (load_bytes api (store_bytes api a bs w) a (length bs))"
  then have i: "i < length bs" by simp
  then obtain b where "view_of api w (a + of_nat i) = Some (b, p + i)"
    using assms(2) by (auto simp: shows_file_def)
  from load_byte_store_bytes [OF assms this] i
  show "load_bytes api (store_bytes api a bs w) a (length bs) ! i = bs ! i"
    by (simp add: nth_load_bytes)
qed simp

lemma load_store_bytes_other:
  assumes "memory_docs api" and "shows_file api w a (length bs) p"
    and "shows_file api w c n q" and "p + length bs \<le> q \<or> q + n \<le> p"
  shows "load_bytes api (store_bytes api a bs w) c n = load_bytes api w c n"
proof (rule nth_equalityI)
  fix i
  assume "i < length (load_bytes api (store_bytes api a bs w) c n)"
  then have i: "i < n" by simp
  then obtain b where "view_of api w (c + of_nat i) = Some (b, q + i)"
    using assms(3) by (auto simp: shows_file_def)
  from load_byte_store_bytes [OF assms(1,2) this] i assms(4)
  show "load_bytes api (store_bytes api a bs w) c n ! i = load_bytes api w c n ! i"
    by (auto simp: nth_load_bytes)
qed simp

end
