(* ===== verification/Sample_Windows.thy ===== *)
theory Sample_Windows
  imports Win32
begin

text \<open>
  A concrete instance of the platform parameter, for the witnesses: one dump file whose calls
  succeed, views placed one above the other at multiples of the allocation granularity, and a
  target process given by a list of regions and a memory function. It satisfies every
  documented-behaviour predicate of \<open>Win32\<close>, so the theorems that assume them are not vacuous.
  It models no code of the repository.
\<close>

record sample =
  content :: "nat \<Rightarrow> u8"
  eof :: u64
  fptr :: u64
  views :: "(u64 \<times> u64 \<times> nat option) list"
  target :: "mbi list"
  tmem :: "u64 \<Rightarrow> u8"

text \<open>A view is its base, its length and the position in the file it shows, none once it is unmapped.\<close>

fun find_view :: "(u64 \<times> u64 \<times> nat option) list \<Rightarrow> u64 \<Rightarrow> (u64 \<times> nat) option" where
  "find_view [] a = None"
| "find_view ((b, n, off) # vs) a =
     (if unat b \<le> unat a \<and> unat a < unat b + unat n then map_option (\<lambda>pos. (b, pos + (unat a - unat b))) off
      else find_view vs a)"

fun views_top :: "(u64 \<times> u64 \<times> nat option) list \<Rightarrow> nat" where
  "views_top [] = 0"
| "views_top ((b, n, off) # vs) = max (unat b + unat n) (views_top vs)"

definition sample_load :: "sample \<Rightarrow> u64 \<Rightarrow> u8" where
  "sample_load w a = (case find_view (views w) a of Some (b, p) \<Rightarrow> content w p | None \<Rightarrow> 0)"

definition sample_store :: "u64 \<Rightarrow> u8 \<Rightarrow> sample \<Rightarrow> sample" where
  "sample_store a v w =
     (case find_view (views w) a of Some (b, p) \<Rightarrow> w\<lparr>content := (content w)(p := v)\<rparr> | None \<Rightarrow> w)"

definition sample_map :: "u64 \<Rightarrow> access_mode \<Rightarrow> u32 \<Rightarrow> u32 \<Rightarrow> u64 \<Rightarrow> sample \<Rightarrow> u64 \<times> sample" where
  "sample_map h m hi lo n w =
     (let base = (views_top (views w) div 65536 + 1) * 65536
      in if base + unat n < 2 ^ 48
         then (of_nat base, w\<lparr>views := (of_nat base, n, Some (file_offset hi lo)) # views w\<rparr>)
         else (0, w))"

definition sample_unmap :: "u64 \<Rightarrow> sample \<Rightarrow> bool \<times> sample" where
  "sample_unmap b w = (True, w\<lparr>views := map (\<lambda>(c, n, off). (c, n, if c = b then None else off)) (views w)\<rparr>)"

fun find_region :: "mbi list \<Rightarrow> u64 \<Rightarrow> mbi option" where
  "find_region [] a = None"
| "find_region (m # ms) a =
     (if 4096 dvd unat (BaseAddress m) \<and> 4096 dvd unat (RegionSize m)
         \<and> unat (BaseAddress m) + unat (RegionSize m) \<le> 2 ^ 47
         \<and> unat (BaseAddress m) \<le> unat a \<and> unat a < unat (BaseAddress m) + unat (RegionSize m)
      then Some m else find_region ms a)"

definition sample_query :: "u64 \<Rightarrow> u64 \<Rightarrow> sample \<Rightarrow> mbi option" where
  "sample_query h a w =
     (case find_region (target w) a of None \<Rightarrow> None
      | Some m \<Rightarrow>
          let base = unat a div 4096 * 4096
          in Some (m\<lparr>BaseAddress := of_nat base,
                     RegionSize := of_nat (unat (BaseAddress m) + unat (RegionSize m) - base)\<rparr>))"

definition sample_rpm :: "u64 \<Rightarrow> u64 \<Rightarrow> u64 \<Rightarrow> sample \<Rightarrow> (bool \<times> u8 list) \<times> sample" where
  "sample_rpm h a n w =
     (case find_region (target w) a of None \<Rightarrow> ((False, []), w)
      | Some m \<Rightarrow>
          if unat a + unat n \<le> unat (BaseAddress m) + unat (RegionSize m)
          then ((True, map (\<lambda>i. tmem w (a + of_nat i)) [0..<unat n]), w)
          else ((False, []), w))"

definition sample_api :: "sample win32" where
  "sample_api =
     \<lparr>delete_file = (\<lambda>n w. (True, w)),
      create_file_a = (\<lambda>n m d w. (5, w)),
      create_file_w = (\<lambda>n m d w. (6, w)),
      multi_byte_to_wide = map (\<lambda>c. of_nat (of_char c)),
      get_file_size = (\<lambda>h w. (Some (eof w), w)),
      set_file_pointer = (\<lambda>h x w. (True, w\<lparr>fptr := x\<rparr>)),
      set_end_of_file = (\<lambda>h w. (True, w\<lparr>eof := fptr w\<rparr>)),
      close_handle = (\<lambda>h w. (True, w)),
      create_file_mapping = (\<lambda>h m x y w. (7, w)),
      map_view_of_file = sample_map,
      unmap_view_of_file = sample_unmap,
      flush_view_of_file = (\<lambda>a n w. (True, w)),
      flush_file_buffers = (\<lambda>h w. (True, w)),
      get_last_error = (\<lambda>w. 0),
      allocation_granularity = 65536,
      virtual_query = sample_query,
      read_process_memory = sample_rpm,
      load_byte = sample_load,
      store_byte = sample_store,
      view_of = (\<lambda>w a. find_view (views w) a)\<rparr>"

definition sample_world :: "mbi list \<Rightarrow> (u64 \<Rightarrow> u8) \<Rightarrow> sample" where
  "sample_world regions mem =
     \<lparr>content = (\<lambda>_. 0), eof = 0, fptr = 0, views = [], target = regions, tmem = mem\<rparr>"

lemma sample_api_fields:
  "delete_file sample_api n w = (True, w)"
  "create_file_a sample_api n m d w = (5, w)"
  "create_file_w sample_api wn m d w = (6, w)"
  "get_file_size sample_api h w = (Some (eof w), w)"
  "set_file_pointer sample_api h x w = (True, w\<lparr>fptr := x\<rparr>)"
  "set_end_of_file sample_api h w = (True, w\<lparr>eof := fptr w\<rparr>)"
  "close_handle sample_api h w = (True, w)"
  "create_file_mapping sample_api h m hi lo w = (7, w)"
  "map_view_of_file sample_api = sample_map"
  "unmap_view_of_file sample_api = sample_unmap"
  "flush_view_of_file sample_api a k w = (True, w)"
  "flush_file_buffers sample_api h w = (True, w)"
  "get_last_error sample_api w = 0"
  "allocation_granularity sample_api = 65536"
  "virtual_query sample_api = sample_query"
  "read_process_memory sample_api = sample_rpm"
  "load_byte sample_api = sample_load"
  "store_byte sample_api = sample_store"
  by (simp_all add: sample_api_def)

lemma store_bytes_target [simp]:
  "target (store_bytes sample_api a bs w) = target w" "tmem (store_bytes sample_api a bs w) = tmem w"
  by (induction bs arbitrary: a w) (simp_all add: sample_api_fields sample_store_def split: option.splits)

lemma find_view_below_top:
  "find_view vs a = Some (b, p) \<Longrightarrow> unat b \<le> unat a \<and> unat a < views_top vs"
  by (induction vs a rule: find_view.induct) (auto split: if_splits)

lemma find_view_fresh:
  assumes "views_top vs \<le> unat c"
  shows "find_view vs a = Some (b, p) \<Longrightarrow> find_view ((c, n, off) # vs) a = Some (b, p) \<and> b \<noteq> c"
  using find_view_below_top [of vs a b p] assms by auto

lemma find_view_unmap:
  "find_view (map (\<lambda>(c, n, off). (c, n, if c = b then None else off)) vs) a = Some (c, p) \<longleftrightarrow>
   find_view vs a = Some (c, p) \<and> c \<noteq> b"
  by (induction vs a rule: find_view.induct) auto

lemma sample_map_docs: "map_docs sample_api"
proof -
  have "keeps sample_api w w' \<and> (b \<noteq> 0 \<longrightarrow> unat b + unat n < 2 ^ 64
       \<and> (\<forall>a p. view_of sample_api w a \<noteq> Some (b, p))
       \<and> (\<forall>i < unat n. view_of sample_api w' (b + of_nat i) = Some (b, file_offset hi lo + i)))"
    if m: "sample_map h m hi lo n w = (b, w')" for w h m hi lo n b w'
  proof -
    define base where "base = (views_top (views w) div 65536 + 1) * 65536"
    show ?thesis
    proof (cases "base + unat n < 2 ^ 48")
      case False
      with m have "b = 0" "w' = w" by (auto simp: sample_map_def base_def Let_def)
      then show ?thesis by simp
    next
      case True
      with m have b: "b = of_nat base" and w': "w' = w\<lparr>views := (b, n, Some (file_offset hi lo)) # views w\<rparr>"
        by (auto simp: sample_map_def base_def Let_def)
      have ub: "unat b = base" using True unfolding b by (intro unat_of_nat_u64) simp
      have top: "views_top (views w) \<le> unat b" unfolding ub base_def by simp
      have old: "find_view (views w) a = Some v \<Longrightarrow>
          find_view (views w') a = Some v \<and> fst v \<noteq> b" for a v
        using find_view_fresh [OF top, of a "fst v" "snd v" n "Some (file_offset hi lo)"] by (simp add: w')
      have "keeps sample_api w w'"
        unfolding keeps_def using old by (auto simp: sample_api_def sample_load_def w')
      moreover have "\<forall>a p. view_of sample_api w a \<noteq> Some (b, p)"
        using old by (fastforce simp: sample_api_def)
      moreover have "view_of sample_api w' (b + of_nat i) = Some (b, file_offset hi lo + i)" if "i < unat n" for i
      proof -
        have "unat (b + of_nat i) = base + i" using that True ub by (intro trans [OF unat_add_of_nat]) simp_all
        with that show ?thesis by (simp add: sample_api_def w' ub)
      qed
      ultimately show ?thesis using True ub by simp
    qed
  qed
  then show ?thesis unfolding map_docs_def by (simp add: sample_api_def)
qed

lemma sample_memory_docs: "memory_docs sample_api"
proof -
  have "quiet_docs sample_api"
    by (auto simp: quiet_docs_def sample_api_def keeps_def sample_load_def sample_rpm_def
        split: option.splits)
  moreover have "store_docs sample_api"
    by (auto simp: store_docs_def sample_api_def sample_load_def sample_store_def split: option.splits)
  moreover have "unmap_docs sample_api"
    by (auto simp: unmap_docs_def sample_api_def sample_load_def sample_unmap_def
        find_view_unmap find_view_unmap [THEN iffD2, OF conjI])
  ultimately show ?thesis using sample_map_docs by (simp add: memory_docs_def sample_api_def)
qed

lemma sample_rpm_docs: "rpm_docs sample_api"
  by (auto simp: rpm_docs_def sample_api_def sample_rpm_def split: option.splits if_splits)

lemma find_region_Some:
  "find_region ms a = Some m \<Longrightarrow> 4096 dvd unat (BaseAddress m) \<and> 4096 dvd unat (RegionSize m)
     \<and> unat (BaseAddress m) + unat (RegionSize m) \<le> 2 ^ 47
     \<and> unat (BaseAddress m) \<le> unat a \<and> unat a < unat (BaseAddress m) + unat (RegionSize m)"
  by (induction ms a rule: find_region.induct) (auto split: if_splits)

lemma sample_query_docs: "query_docs sample_api"
proof -
  have "unat (BaseAddress q) = unat a div 4096 * 4096 \<and> 4096 dvd unat (RegionSize q)
      \<and> 0 < unat (RegionSize q) \<and> unat (BaseAddress q) + unat (RegionSize q) \<le> 2 ^ 47"
    if "sample_query h a w = Some q" for h a w q
  proof -
    from that obtain m where m: "find_region (target w) a = Some m"
      and q: "q = m\<lparr>BaseAddress := of_nat (unat a div 4096 * 4096),
          RegionSize := of_nat (unat (BaseAddress m) + unat (RegionSize m) - unat a div 4096 * 4096)\<rparr>"
      by (auto simp: sample_query_def Let_def split: option.splits)
    define e where "e = unat (BaseAddress m) + unat (RegionSize m)"
    define p where "p = unat a div 4096 * 4096"
    from find_region_Some [OF m] have e: "4096 dvd e" "e \<le> 2 ^ 47" "unat a < e"
      by (auto simp: e_def)
    have p: "p \<le> unat a" "4096 dvd p" by (simp_all add: p_def)
    have "unat (of_nat p :: u64) = p" "unat (of_nat (e - p) :: u64) = e - p"
      using e p by (intro unat_of_nat_u64; simp)+
    with e p show ?thesis by (simp add: q e_def [symmetric] p_def [symmetric] dvd_diff_nat)
  qed
  moreover have "virtual_query sample_api = sample_query" by (simp add: sample_api_def)
  ultimately show ?thesis unfolding query_docs_def by metis
qed

end
