(* ===== verification/Mio_Map.thy ===== *)
theory Mio_Map
  imports Sample_Windows
begin

text \<open>
  The memory mapping of \<open>mio.hpp\<close> (its Windows branches, the ones the program compiles): page
  alignment, the halves of a 64-bit offset, opening a file and asking for its size,
  \<open>detail::memory_map\<close>, and the class \<open>basic_mmap\<close> with its constructors, \<open>map\<close>, \<open>sync\<close>,
  \<open>unmap\<close>, moves, swap, destructor and comparison operators.

  An \<open>std::error_code\<close> is its value, a 32-bit number, with 0 for no error; the access mode, a
  template parameter of the class, is an argument. A function that fills an \<open>error_code&\<close>
  returns it.
\<close>

type_synonym error_code = u32

definition errc_invalid_argument :: error_code where "errc_invalid_argument = 22"

definition errc_bad_file_descriptor :: error_code where "errc_bad_file_descriptor = 9"

subsection \<open>Pages and 64-bit halves\<close>

definition make_offset_page_aligned :: "'w win32 \<Rightarrow> u64 \<Rightarrow> u64" where
  "make_offset_page_aligned api offset =
     (let page_size = allocation_granularity api in offset div page_size * page_size)"

definition int64_high :: "u64 \<Rightarrow> u32" where
  "int64_high n = ucast (signed_drop_bit 32 n)"

definition int64_low :: "u64 \<Rightarrow> u32" where
  "int64_low n = ucast (n AND 0xffffffff)"

subsection \<open>Files\<close>

definition s_2_ws :: "'w win32 \<Rightarrow> string \<Rightarrow> wstring" where
  "s_2_ws api s = (if s = [] then [] else multi_byte_to_wide api s)"

text \<open>\<open>CreateFileW\<close> takes a pointer to characters and reads the name up to the first null.\<close>

definition wide_name :: "wstring \<Rightarrow> wstring" where
  "wide_name s = takeWhile (\<lambda>c. c \<noteq> 0) s"

definition open_file_helper :: "'w win32 \<Rightarrow> string \<Rightarrow> access_mode \<Rightarrow> 'w \<Rightarrow> u64 \<times> 'w" where
  "open_file_helper api path mode w =
     create_file_w api (wide_name (s_2_ws api path)) mode Open_existing w"

definition open_file :: "'w win32 \<Rightarrow> string \<Rightarrow> access_mode \<Rightarrow> 'w \<Rightarrow> u64 \<times> error_code \<times> 'w" where
  "open_file api path mode w =
     (if path = [] then (invalid_handle_value, errc_invalid_argument, w)
      else let (handle, w1) = open_file_helper api path mode w
           in (handle, if handle = invalid_handle_value then get_last_error api w1 else 0, w1))"

definition query_file_size :: "'w win32 \<Rightarrow> u64 \<Rightarrow> 'w \<Rightarrow> u64 \<times> error_code \<times> 'w" where
  "query_file_size api handle w =
     (case get_file_size api handle w of
        (None, w1) \<Rightarrow> (0, get_last_error api w1, w1)
      | (Some n, w1) \<Rightarrow> (n, 0, w1))"

subsection \<open>Establishing a mapping\<close>

record mmap_context =
  ctx_data :: u64
  ctx_length :: u64
  ctx_mapped_length :: u64
  ctx_mapping_handle :: u64

definition null_context :: mmap_context where
  "null_context = \<lparr>ctx_data = 0, ctx_length = 0, ctx_mapped_length = 0, ctx_mapping_handle = 0\<rparr>"

definition memory_map ::
  "'w win32 \<Rightarrow> u64 \<Rightarrow> u64 \<Rightarrow> u64 \<Rightarrow> access_mode \<Rightarrow> 'w \<Rightarrow> mmap_context \<times> error_code \<times> 'w" where
  "memory_map api fh offset len mode w =
     (let aligned_offset = make_offset_page_aligned api offset;
          length_to_map = offset - aligned_offset + len;
          max_file_size = offset + len;
          (mh, w1) = create_file_mapping api fh mode (int64_high max_file_size) (int64_low max_file_size) w
      in if mh = invalid_handle_value then (null_context, get_last_error api w1, w1)
         else
           let (mapping_start, w2) = map_view_of_file api mh mode
                 (int64_high aligned_offset) (int64_low aligned_offset) length_to_map w1
           in if mapping_start = 0
              then let (_, w3) = close_handle api mh w2 in (null_context, get_last_error api w3, w3)
              else (\<lparr>ctx_data = mapping_start + offset - aligned_offset, ctx_length = len,
                     ctx_mapped_length = length_to_map, ctx_mapping_handle = mh\<rparr>, 0, w2))"

subsection \<open>The class \<open>basic_mmap\<close>\<close>

text \<open>
  The fields carry the prefix \<open>mm_\<close> instead of the trailing underscore of the sources:
  \<open>data_\<close>, \<open>length_\<close>, \<open>mapped_length_\<close>, \<open>file_handle_\<close>, \<open>file_mapping_handle_\<close> and
  \<open>is_handle_internal_\<close>.
\<close>

record basic_mmap =
  mm_data :: u64
  mm_length :: u64
  mm_mapped_length :: u64
  mm_file_handle :: u64
  mm_mapping_handle :: u64
  mm_internal :: bool

text \<open>
  The default constructor. \<open>mm_internal\<close> has no initialiser; it is only read once \<open>map\<close>
  has set it, and the model starts it as false.
\<close>

definition default_mmap :: basic_mmap where
  "default_mmap = \<lparr>mm_data = 0, mm_length = 0, mm_mapped_length = 0, mm_file_handle = invalid_handle_value,
     mm_mapping_handle = invalid_handle_value, mm_internal = False\<rparr>"

definition is_open :: "basic_mmap \<Rightarrow> bool" where
  "is_open m \<longleftrightarrow> mm_file_handle m \<noteq> invalid_handle_value"

definition is_mapped :: "basic_mmap \<Rightarrow> bool" where
  "is_mapped m \<longleftrightarrow> mm_mapping_handle m \<noteq> invalid_handle_value"

definition mmap_empty :: "basic_mmap \<Rightarrow> bool" where
  "mmap_empty m \<longleftrightarrow> mm_length m = 0"

definition mapping_offset :: "basic_mmap \<Rightarrow> u64" where
  "mapping_offset m = mm_mapped_length m - mm_length m"

definition get_mapping_start :: "basic_mmap \<Rightarrow> u64" where
  "get_mapping_start m = (if mm_data m = 0 then 0 else mm_data m - mapping_offset m)"

definition unmap :: "'w win32 \<Rightarrow> basic_mmap \<Rightarrow> 'w \<Rightarrow> basic_mmap \<times> 'w" where
  "unmap api m w =
     (if \<not> is_open m then (m, w)
      else let w1 = (if is_mapped m
                     then snd (close_handle api (mm_mapping_handle m)
                            (snd (unmap_view_of_file api (get_mapping_start m) w)))
                     else w);
               w2 = (if mm_internal m then snd (close_handle api (mm_file_handle m) w1) else w1)
           in (m\<lparr>mm_data := 0, mm_length := 0, mm_mapped_length := 0, mm_file_handle := invalid_handle_value,
                 mm_mapping_handle := invalid_handle_value\<rparr>, w2))"

definition map_handle ::
  "'w win32 \<Rightarrow> basic_mmap \<Rightarrow> u64 \<Rightarrow> u64 \<Rightarrow> u64 \<Rightarrow> access_mode \<Rightarrow> 'w \<Rightarrow> basic_mmap \<times> error_code \<times> 'w" where
  "map_handle api m handle offset len mode w =
     (if handle = invalid_handle_value then (m, errc_bad_file_descriptor, w)
      else let (file_size, error, w1) = query_file_size api handle w
           in if error \<noteq> 0 then (m, error, w1)
              else if file_size < offset + len then (m, errc_invalid_argument, w1)
              else let (ctx, error, w2) =
                     memory_map api handle offset (if len = 0 then file_size - offset else len) mode w1
                   in if error \<noteq> 0 then (m, error, w2)
                      else let (m1, w3) = unmap api m w2
                           in (m1\<lparr>mm_file_handle := handle, mm_internal := False,
                                  mm_data := ctx_data ctx, mm_length := ctx_length ctx,
                                  mm_mapped_length := ctx_mapped_length ctx,
                                  mm_mapping_handle := ctx_mapping_handle ctx\<rparr>, 0, w3))"

definition map_path ::
  "'w win32 \<Rightarrow> basic_mmap \<Rightarrow> string \<Rightarrow> u64 \<Rightarrow> u64 \<Rightarrow> access_mode \<Rightarrow> 'w \<Rightarrow> basic_mmap \<times> error_code \<times> 'w" where
  "map_path api m path offset len mode w =
     (if path = [] then (m, errc_invalid_argument, w)
      else let (handle, error, w1) = open_file api path mode w
           in if error \<noteq> 0 then (m, error, w1)
              else let (m1, error, w2) = map_handle api m handle offset len mode w1
                   in (if error = 0 then m1\<lparr>mm_internal := True\<rparr> else m1, error, w2))"

definition make_mmap ::
  "'w win32 \<Rightarrow> string \<Rightarrow> u64 \<Rightarrow> u64 \<Rightarrow> access_mode \<Rightarrow> 'w \<Rightarrow> basic_mmap \<times> error_code \<times> 'w" where
  "make_mmap api token offset len mode w = map_path api default_mmap token offset len mode w"

definition make_mmap_sink ::
  "'w win32 \<Rightarrow> string \<Rightarrow> u64 \<Rightarrow> u64 \<Rightarrow> 'w \<Rightarrow> basic_mmap \<times> error_code \<times> 'w" where
  "make_mmap_sink api token offset len w = make_mmap api token offset len write_access w"

text \<open>
  \<open>sync\<close>: \<open>FlushFileBuffers\<close> runs after a successful flush of the view, and once more at the end.
\<close>

definition mmap_sync :: "'w win32 \<Rightarrow> basic_mmap \<Rightarrow> 'w \<Rightarrow> error_code \<times> 'w" where
  "mmap_sync api m w =
     (if \<not> is_open m then (errc_bad_file_descriptor, w)
      else let (failed, w1) =
             (if mm_data m = 0 then (False, w)
              else let (ok, w1) = flush_view_of_file api (get_mapping_start m) (mm_mapped_length m) w
                   in if \<not> ok then (True, w1)
                      else let (ok, w2) = flush_file_buffers api (mm_file_handle m) w1 in (\<not> ok, w2))
           in if failed then (get_last_error api w1, w1)
              else let (ok, w2) = flush_file_buffers api (mm_file_handle m) w1
                   in (if ok then 0 else get_last_error api w2, w2))"

definition conditional_sync :: "'w win32 \<Rightarrow> access_mode \<Rightarrow> basic_mmap \<Rightarrow> 'w \<Rightarrow> 'w" where
  "conditional_sync api mode m w = (case mode of write_access \<Rightarrow> snd (mmap_sync api m w) | read_access \<Rightarrow> w)"

definition mmap_destroy :: "'w win32 \<Rightarrow> access_mode \<Rightarrow> basic_mmap \<Rightarrow> 'w \<Rightarrow> basic_mmap \<times> 'w" where
  "mmap_destroy api mode m w = unmap api m (conditional_sync api mode m w)"

text \<open>Moves return the object moved into and the object moved from.\<close>

definition mmap_move :: "basic_mmap \<Rightarrow> basic_mmap \<times> basic_mmap" where
  "mmap_move other =
     (other, other\<lparr>mm_data := 0, mm_length := 0, mm_mapped_length := 0, mm_file_handle := invalid_handle_value,
        mm_mapping_handle := invalid_handle_value\<rparr>)"

definition mmap_move_assign ::
  "'w win32 \<Rightarrow> basic_mmap \<Rightarrow> basic_mmap \<Rightarrow> 'w \<Rightarrow> basic_mmap \<times> basic_mmap \<times> 'w" where
  "mmap_move_assign api this other w =
     (let (_, w1) = unmap api this w
      in (other, other\<lparr>mm_data := 0, mm_length := 0, mm_mapped_length := 0, mm_file_handle := invalid_handle_value,
            mm_mapping_handle := invalid_handle_value, mm_internal := False\<rparr>, w1))"

definition mmap_swap :: "basic_mmap \<Rightarrow> basic_mmap \<Rightarrow> basic_mmap \<times> basic_mmap" where
  "mmap_swap a b =
     (a\<lparr>mm_data := mm_data b, mm_file_handle := mm_file_handle b, mm_mapping_handle := mm_mapping_handle b,
        mm_length := mm_length b, mm_mapped_length := mm_mapped_length b, mm_internal := mm_internal b\<rparr>,
      b\<lparr>mm_data := mm_data a, mm_file_handle := mm_file_handle a, mm_mapping_handle := mm_mapping_handle a,
        mm_length := mm_length a, mm_mapped_length := mm_mapped_length a, mm_internal := mm_internal a\<rparr>)"

definition mmap_eq :: "basic_mmap \<Rightarrow> basic_mmap \<Rightarrow> bool" where
  "mmap_eq a b \<longleftrightarrow> mm_data a = mm_data b \<and> mm_length a = mm_length b"

definition mmap_less :: "basic_mmap \<Rightarrow> basic_mmap \<Rightarrow> bool" where
  "mmap_less a b = (if mm_data a = mm_data b then mm_length a < mm_length b else mm_data a < mm_data b)"

definition mmap_greater :: "basic_mmap \<Rightarrow> basic_mmap \<Rightarrow> bool" where
  "mmap_greater a b = (if mm_data a = mm_data b then mm_length a > mm_length b else mm_data a > mm_data b)"

definition mmap_less_eq :: "basic_mmap \<Rightarrow> basic_mmap \<Rightarrow> bool" where
  "mmap_less_eq a b \<longleftrightarrow> \<not> mmap_greater a b"

definition mmap_greater_eq :: "basic_mmap \<Rightarrow> basic_mmap \<Rightarrow> bool" where
  "mmap_greater_eq a b \<longleftrightarrow> \<not> mmap_less a b"

subsection \<open>The order of mappings\<close>

text \<open>
  The comparison operators are a total order on the requested ranges, first by their start and
  then by their length; \<open>operator==\<close> is the equivalence that belongs to it.
\<close>

lemmas mmap_order_defs = mmap_eq_def mmap_less_def mmap_greater_def mmap_less_eq_def mmap_greater_eq_def

lemma mmap_less_eq_iff: "mmap_less_eq a b \<longleftrightarrow> mmap_less a b \<or> mmap_eq a b"
  by (auto simp: mmap_order_defs)

lemma mmap_greater_iff: "mmap_greater a b = mmap_less b a" and mmap_greater_eq_iff: "mmap_greater_eq a b = mmap_less_eq b a"
  by (auto simp: mmap_order_defs)

interpretation mmap_order: preorder mmap_less_eq mmap_less
  by unfold_locales (auto simp: mmap_order_defs split: if_splits)

lemma mmap_trichotomy: "mmap_less a b \<or> mmap_eq a b \<or> mmap_less b a"
  by (auto simp: mmap_order_defs)

lemma mmap_eq_equivalence: "mmap_eq a b \<longleftrightarrow> mmap_less_eq a b \<and> mmap_less_eq b a"
  by (auto simp: mmap_order_defs)

subsection \<open>Offsets\<close>

text \<open>The two halves passed to the API put the offset together again.\<close>

lemma unat_int64_high: "unat (int64_high n) = unat n div 2 ^ 32"
proof -
  have "int64_high n = ucast (drop_bit 32 n)"
    unfolding int64_high_def
    by (rule bit_word_eqI) (auto simp: bit_simps)
  then have "unat (int64_high n) = unat (drop_bit 32 n) mod 2 ^ 32"
    by (simp add: unsigned_ucast_eq take_bit_eq_mod)
  also have "unat (drop_bit 32 n) = unat n div 2 ^ 32"
    by (simp add: drop_bit_eq_div unat_div)
  also have "unat n div 2 ^ 32 mod 2 ^ 32 = unat n div 2 ^ 32"
    by (rule mod_less, rule less_mult_imp_div_less) simp
  finally show ?thesis .
qed

lemma unat_int64_low: "unat (int64_low n) = unat n mod 2 ^ 32"
proof -
  have "(0xffffffff :: u64) = mask 32" by (simp add: mask_eq_exp_minus_1)
  then have "int64_low n = ucast (take_bit 32 n)"
    by (simp only: int64_low_def take_bit_eq_mask)
  then show ?thesis by (simp add: unsigned_ucast_eq take_bit_eq_mod unat_mod)
qed

lemma file_offset_halves [simp]: "file_offset (int64_high n) (int64_low n) = unat n"
  unfolding file_offset_def unat_int64_high unat_int64_low by (rule div_mult_mod_eq)

lemma unat_page_aligned:
  "unat (make_offset_page_aligned api off)
     = unat off div unat (allocation_granularity api) * unat (allocation_granularity api)"
proof -
  let ?g = "allocation_granularity api"
  have "unat (off div ?g) * unat ?g \<le> unat off" by (simp add: unat_div)
  also have "unat off < 2 ^ 64" by simp
  finally have "unat (off div ?g) * unat ?g < 2 ^ 64" .
  then show ?thesis unfolding make_offset_page_aligned_def Let_def
    by (simp only: unat_mult_no_wrap unat_div)
qed

lemma page_aligned_le: "unat (make_offset_page_aligned api off) \<le> unat off"
  by (simp add: unat_page_aligned)

subsection \<open>What a mapping shows\<close>

text \<open>\<open>n\<close> addresses from \<open>a\<close> on show the file from position \<open>p\<close> on, in the view based at \<open>base\<close>.\<close>

definition view_shows :: "'w win32 \<Rightarrow> 'w \<Rightarrow> u64 \<Rightarrow> u64 \<Rightarrow> nat \<Rightarrow> nat \<Rightarrow> bool" where
  "view_shows api w base a n p \<longleftrightarrow> unat a + n < 2 ^ 64 \<and>
     (\<forall>i < n. view_of api w (a + of_nat i) = Some (base, p + i))"

lemma view_shows_file: "view_shows api w base a n p \<Longrightarrow> shows_file api w a n p"
  by (simp add: view_shows_def shows_file_def)

lemma view_shows_keeps: "view_shows api w base a n p \<Longrightarrow> keeps api w w' \<Longrightarrow> view_shows api w' base a n p"
  unfolding view_shows_def keeps_def by blast

lemma map_view_docs:
  assumes "memory_docs api" and "map_view_of_file api h m hi lo n w = (b, w')"
  shows "keeps api w w'"
    and "b \<noteq> 0 \<Longrightarrow> view_shows api w' b b (unat n) (file_offset hi lo)"
    and "b \<noteq> 0 \<Longrightarrow> view_of api w a \<noteq> Some (b, p)"
proof -
  have "keeps api w w' \<and> (b \<noteq> 0 \<longrightarrow> unat b + unat n < 2 ^ 64
       \<and> (\<forall>a p. view_of api w a \<noteq> Some (b, p))
       \<and> (\<forall>i < unat n. view_of api w' (b + of_nat i) = Some (b, file_offset hi lo + i)))"
    using memory_docsD(3) [OF assms(1)] assms(2) unfolding map_docs_def by blast
  then show "keeps api w w'"
    and "b \<noteq> 0 \<Longrightarrow> view_shows api w' b b (unat n) (file_offset hi lo)"
    and "b \<noteq> 0 \<Longrightarrow> view_of api w a \<noteq> Some (b, p)"
    by (auto simp: view_shows_def)
qed

lemma view_shows_sub:
  assumes "view_shows api w base a n p" and "i + k \<le> n"
  shows "view_shows api w base (a + of_nat i) k (p + i)"
proof -
  have "unat (a + of_nat i) = unat a + i"
    using assms by (intro unat_add_of_nat) (simp add: view_shows_def)
  moreover have "view_of api w (a + of_nat i + of_nat j) = Some (base, p + i + j)" if "j < k" for j
    using assms that by (auto simp: view_shows_def add.assoc dest: spec [of _ "i + j"])
  ultimately show ?thesis using assms by (simp add: view_shows_def)
qed

lemma word_sub_of_nat: "unat b \<le> unat a \<Longrightarrow> (a :: u64) - b = of_nat (unat a - unat b)"
  by (simp add: of_nat_diff)

lemma memory_map_spec:
  assumes "memory_docs api" and "memory_map api fh off len mode w = (ctx, err, w')"
  shows "keeps api w w'"
    and "unat off + unat len < 2 ^ 64 \<Longrightarrow> ctx_data ctx \<noteq> 0 \<Longrightarrow>
      \<exists>base. base \<noteq> 0 \<and> ctx_data ctx = base + off - make_offset_page_aligned api off
        \<and> ctx_length ctx = len \<and> ctx_mapped_length ctx = off - make_offset_page_aligned api off + len
        \<and> view_shows api w' base (ctx_data ctx) (unat len) (unat off)
        \<and> (\<forall>a p. view_of api w a \<noteq> Some (base, p))"
proof -
  define al where "al = make_offset_page_aligned api off"
  obtain mh w1 where mh: "create_file_mapping api fh mode (int64_high (off + len)) (int64_low (off + len)) w = (mh, w1)"
    by force
  obtain b w2 where b: "map_view_of_file api mh mode (int64_high al) (int64_low al) (off - al + len) w1 = (b, w2)"
    by force
  obtain c w3 where c: "close_handle api mh w2 = (c, w3)" by force
  note defs = assms(2) [unfolded memory_map_def Let_def al_def [symmetric] mh b c prod.case]
  have k: "keeps api w w1" "keeps api w1 w2" "keeps api w2 w3"
    by (rule quiet_keepsD(8) [OF assms(1) mh], rule map_view_docs(1) [OF assms(1) b],
        rule quiet_keepsD(7) [OF assms(1) c])
  then show "keeps api w w'" using defs by (auto split: if_splits intro: keeps_trans)
  show "\<exists>base. base \<noteq> 0 \<and> ctx_data ctx = base + off - make_offset_page_aligned api off
        \<and> ctx_length ctx = len \<and> ctx_mapped_length ctx = off - make_offset_page_aligned api off + len
        \<and> view_shows api w' base (ctx_data ctx) (unat len) (unat off)
        \<and> (\<forall>a p. view_of api w a \<noteq> Some (base, p))"
    if small: "unat off + unat len < 2 ^ 64" and nz: "ctx_data ctx \<noteq> 0"
  proof -
    from defs nz have b0: "b \<noteq> 0" and ctx: "ctx_data ctx = b + off - al" "ctx_length ctx = len"
      "ctx_mapped_length ctx = off - al + len" and w': "w' = w2"
      by (auto simp: null_context_def split: if_splits)
    have al_le: "unat al \<le> unat off" unfolding al_def by (rule page_aligned_le)
    then have diff: "off - al = of_nat (unat off - unat al)" by (rule word_sub_of_nat)
    have ud: "unat (off - al) = unat off - unat al"
      using al_le by (simp add: unat_sub word_le_nat_alt)
    have "unat (off - al) + unat len < 2 ^ 64" using ud small by simp
    then have ul: "unat (off - al + len) = unat off - unat al + unat len"
      by (simp only: unat_add_no_wrap ud)
    have "view_shows api w2 b b (unat off - unat al + unat len) (unat al)"
      using map_view_docs(2) [OF assms(1) b b0] by (simp add: ul)
    from view_shows_sub [OF this, of "unat off - unat al" "unat len"]
    have "view_shows api w2 b (b + off - al) (unat len) (unat off)"
      using al_le by (simp only: diff [symmetric] add_diff_eq le_add_diff_inverse)
    moreover have "\<forall>a p. view_of api w a \<noteq> Some (b, p)"
      using map_view_docs(3) [OF assms(1) b b0] k(1) unfolding keeps_def by blast
    ultimately show ?thesis
      unfolding al_def [symmetric] ctx w' by (intro exI [of _ b] conjI refl) (simp_all add: b0)
  qed
qed

subsection \<open>The class\<close>

text \<open>Everything in views other than the one based at \<open>base\<close> is as before.\<close>

definition keeps_except :: "'w win32 \<Rightarrow> u64 \<Rightarrow> 'w \<Rightarrow> 'w \<Rightarrow> bool" where
  "keeps_except api base w w' \<longleftrightarrow> (\<forall>a c p. c \<noteq> base \<longrightarrow> view_of api w a = Some (c, p) \<longrightarrow>
     view_of api w' a = Some (c, p) \<and> load_byte api w' a = load_byte api w a)"

lemma keeps_keeps_except: "keeps api w w' \<Longrightarrow> keeps_except api base w w'"
  by (simp add: keeps_def keeps_except_def)

lemma keeps_except_trans:
  "keeps_except api base w1 w2 \<Longrightarrow> keeps_except api base w2 w3 \<Longrightarrow> keeps_except api base w1 w3"
  by (simp add: keeps_except_def)

lemma unmap_view_keeps_except:
  "memory_docs api \<Longrightarrow> keeps_except api base w (snd (unmap_view_of_file api base w))"
  using memory_docsD(4) [of api] unfolding keeps_except_def unmap_docs_def by blast

lemma view_shows_keeps_except:
  "view_shows api w c a n p \<Longrightarrow> c \<noteq> base \<Longrightarrow> keeps_except api base w w' \<Longrightarrow> view_shows api w' c a n p"
  unfolding view_shows_def keeps_except_def by blast

lemma load_bytes_keeps_except:
  "view_shows api w c a n p \<Longrightarrow> c \<noteq> base \<Longrightarrow> keeps_except api base w w' \<Longrightarrow>
   load_bytes api w' a n = load_bytes api w a n"
  unfolding view_shows_def keeps_except_def load_bytes_def by (auto 0 4)

lemma unmap_closed: "\<not> is_open m \<Longrightarrow> unmap api m w = (m, w)"
  by (simp add: unmap_def)

lemma unmap_result_closed [simp]: "\<not> is_open (fst (unmap api m w))"
  by (simp add: unmap_def is_open_def Let_def)

lemma mmap_destroy_closed: "\<not> is_open m \<Longrightarrow> mmap_destroy api mode m w = (m, w)"
  by (cases mode) (simp_all add: mmap_destroy_def conditional_sync_def mmap_sync_def unmap_closed)

lemma default_mmap_closed [simp]: "\<not> is_open default_mmap" "mm_data default_mmap = 0"
  by (simp_all add: is_open_def default_mmap_def)

lemma mmap_sync_keeps:
  assumes "memory_docs api"
  shows "keeps api w (snd (mmap_sync api m w))"
proof -
  note kf = quiet_keepsD(9) [OF assms] quiet_keepsD(10) [OF assms]
  show ?thesis
    by (auto simp: mmap_sync_def Let_def split: prod.splits if_splits
        intro: kf keeps_trans [OF kf(1) kf(2)] keeps_trans [OF keeps_trans [OF kf(1) kf(2)] kf(2)])
qed

lemma conditional_sync_keeps: "memory_docs api \<Longrightarrow> keeps api w (conditional_sync api mode m w)"
  by (cases mode) (simp_all add: conditional_sync_def mmap_sync_keeps)

lemma unmap_keeps_except:
  assumes "memory_docs api"
  shows "keeps_except api (get_mapping_start m) w (snd (unmap api m w))"
proof -
  have close: "keeps_except api b u (snd (close_handle api h u))" for b u h
    by (rule keeps_keeps_except [OF quiet_keeps(7) [OF assms]])
  have "keeps_except api b w (snd (close_handle api h1 (snd (unmap_view_of_file api b w))))" for b h1
    by (rule keeps_except_trans [OF unmap_view_keeps_except [OF assms] close])
  note k = this keeps_except_trans [OF this close] close
  show ?thesis
    by (simp add: unmap_def Let_def keeps_keeps_except k)
qed

lemma mmap_destroy_keeps_except:
  assumes "memory_docs api"
  shows "keeps_except api (get_mapping_start m) w (snd (mmap_destroy api mode m w))"
  unfolding mmap_destroy_def
  by (rule keeps_except_trans [OF keeps_keeps_except [OF conditional_sync_keeps [OF assms]]
        unmap_keeps_except [OF assms]])

lemma query_file_size_keeps: "memory_docs api \<Longrightarrow> query_file_size api h w = (n, e, w') \<Longrightarrow> keeps api w w'"
  by (auto simp: query_file_size_def split: prod.splits option.splits intro: quiet_keepsD(4))

lemma open_file_keeps: "memory_docs api \<Longrightarrow> open_file api path mode w = (h, e, w') \<Longrightarrow> keeps api w w'"
  by (auto simp: open_file_def open_file_helper_def split: prod.splits if_splits intro: quiet_keepsD(3))

lemma mm_internal_frame [simp]:
  "get_mapping_start (m\<lparr>mm_internal := b\<rparr>) = get_mapping_start m"
  "is_open (m\<lparr>mm_internal := b\<rparr>) = is_open m"
  "is_mapped (m\<lparr>mm_internal := b\<rparr>) = is_mapped m"
  by (simp_all add: get_mapping_start_def mapping_offset_def is_open_def is_mapped_def)

text \<open>A new mapping object: what \<open>make_mmap\<close> leaves in it when it reports no error.\<close>

definition maps_file :: "'w win32 \<Rightarrow> 'w \<Rightarrow> basic_mmap \<Rightarrow> nat \<Rightarrow> bool" where
  "maps_file api w m off \<longleftrightarrow> get_mapping_start m \<noteq> 0 \<and> is_open m \<and> is_mapped m \<and> mm_internal m
     \<and> view_shows api w (get_mapping_start m) (mm_data m) (unat (mm_length m)) off"

lemma map_handle_default:
  assumes "memory_docs api" and "map_handle api default_mmap h off len mode w = (m, err, w')"
  shows "keeps api w w'" and "err \<noteq> 0 \<Longrightarrow> m = default_mmap"
    and "err = 0 \<Longrightarrow> mm_data m \<noteq> 0 \<Longrightarrow> len \<noteq> 0 \<Longrightarrow> unat off + unat len < 2 ^ 64 \<Longrightarrow>
      mm_length m = len \<and> maps_file api w' (m\<lparr>mm_internal := True\<rparr>) (unat off)
      \<and> (\<forall>a p. view_of api w a \<noteq> Some (get_mapping_start m, p))"
proof -
  obtain n e w1 where q: "query_file_size api h w = (n, e, w1)" by (metis prod_cases3)
  define l where "l = (if len = 0 then n - off else len)"
  obtain ctx e2 w2 where mm: "memory_map api h off l mode w1 = (ctx, e2, w2)" by (metis prod_cases3)
  note defs = assms(2) [unfolded map_handle_def q Let_def prod.case l_def [symmetric] mm]
  have k: "keeps api w w1" "keeps api w1 w2"
    by (rule query_file_size_keeps [OF assms(1) q]) (rule memory_map_spec(1) [OF assms(1) mm])
  then have k2: "keeps api w w2" by (rule keeps_trans)
  show "keeps api w w'" using defs k k2 by (auto simp: unmap_closed split: if_splits)
  show "err \<noteq> 0 \<Longrightarrow> m = default_mmap" using defs by (auto split: if_splits prod.splits)
  assume ok: "err = 0" "mm_data m \<noteq> 0" "len \<noteq> 0" "unat off + unat len < 2 ^ 64"
  from defs ok have h: "h \<noteq> invalid_handle_value" and w': "w' = w2"
    and m: "m = default_mmap\<lparr>mm_file_handle := h, mm_internal := False, mm_data := ctx_data ctx,
        mm_length := ctx_length ctx, mm_mapped_length := ctx_mapped_length ctx,
        mm_mapping_handle := ctx_mapping_handle ctx\<rparr>"
    by (auto simp: unmap_closed split: if_splits)
  from ok(3) have l: "l = len" by (simp add: l_def)
  from m ok(2) have nz: "ctx_data ctx \<noteq> 0" by simp
  obtain base where b0: "base \<noteq> 0" and base: "ctx_data ctx = base + off - make_offset_page_aligned api off"
    "ctx_length ctx = len" "ctx_mapped_length ctx = off - make_offset_page_aligned api off + len"
    "view_shows api w2 base (ctx_data ctx) (unat len) (unat off)"
    and fresh: "\<And>a p. view_of api w1 a \<noteq> Some (base, p)"
    using memory_map_spec(2) [OF assms(1) mm] ok(4) nz unfolding l by blast
  have start: "get_mapping_start m = base"
    using nz base by (simp add: get_mapping_start_def mapping_offset_def m)
  have "ctx_mapping_handle ctx \<noteq> invalid_handle_value"
    using mm nz by (auto simp: memory_map_def Let_def null_context_def split: if_splits prod.splits)
  then have m_fields: "mm_data m = ctx_data ctx" "mm_length m = len" "is_open m" "is_mapped m"
    using base(2) h by (simp_all add: m is_open_def is_mapped_def)
  have "view_of api w a \<noteq> Some (base, p)" for a p
    using fresh [of a p] k(1) unfolding keeps_def by blast
  with base(4) show "mm_length m = len \<and> maps_file api w' (m\<lparr>mm_internal := True\<rparr>) (unat off)
      \<and> (\<forall>a p. view_of api w a \<noteq> Some (get_mapping_start m, p))"
    by (simp add: maps_file_def start m_fields w' b0)
qed

lemma make_mmap_sink_spec:
  assumes "memory_docs api" and "make_mmap_sink api name off len w = (m, err, w')"
  shows "keeps api w w'" and "err \<noteq> 0 \<Longrightarrow> m = default_mmap"
    and "err = 0 \<Longrightarrow> mm_data m \<noteq> 0 \<Longrightarrow> len \<noteq> 0 \<Longrightarrow> unat off + unat len < 2 ^ 64 \<Longrightarrow>
      mm_length m = len \<and> maps_file api w' m (unat off)
      \<and> (\<forall>a p. view_of api w a \<noteq> Some (get_mapping_start m, p))"
proof -
  obtain h e w1 where o: "open_file api name write_access w = (h, e, w1)" by (metis prod_cases3)
  obtain m1 e1 w2 where mh: "map_handle api default_mmap h off len write_access w1 = (m1, e1, w2)"
    by (metis prod_cases3)
  note defs = assms(2) [unfolded make_mmap_sink_def make_mmap_def map_path_def o mh Let_def prod.case]
  note spec = map_handle_default [OF assms(1) mh]
  have k: "keeps api w w1" by (rule open_file_keeps [OF assms(1) o])
  then have k2: "keeps api w w2" using spec(1) by (rule keeps_trans)
  show "keeps api w w'" using defs k k2 by (auto split: if_splits)
  show "err \<noteq> 0 \<Longrightarrow> m = default_mmap" using defs spec(2) by (auto split: if_splits)
  assume ok: "err = 0" "mm_data m \<noteq> 0" "len \<noteq> 0" "unat off + unat len < 2 ^ 64"
  with defs have m: "m = m1\<lparr>mm_internal := True\<rparr>" "e1 = 0" "w' = w2"
    by (auto simp: errc_invalid_argument_def split: if_splits)
  from ok(2) m have "mm_data m1 \<noteq> 0" by simp
  from spec(3) [OF m(2) this ok(3,4)]
  have s: "mm_length m1 = len" "maps_file api w2 m (unat off)"
    and f: "\<And>a p. view_of api w1 a \<noteq> Some (get_mapping_start m1, p)"
    by (auto simp: m)
  have "get_mapping_start m = get_mapping_start m1"
    by (simp add: m get_mapping_start_def mapping_offset_def)
  with f k have "view_of api w a \<noteq> Some (get_mapping_start m, p)" for a p
    unfolding keeps_def by metis
  with s show "mm_length m = len \<and> maps_file api w' m (unat off)
      \<and> (\<forall>a p. view_of api w a \<noteq> Some (get_mapping_start m, p))"
    by (simp add: m)
qed

subsection \<open>Properties\<close>

text \<open>
  The two 32-bit halves that \<open>memory_map\<close> passes to \<open>CreateFileMapping\<close> and
  \<open>MapViewOfFile\<close> put the 64-bit offset together again.
\<close>

lemma int64_halves_roundtrip:
  "unat (int64_high n) * 2 ^ 32 + unat (int64_low n) = unat n"
  using file_offset_halves [of n] by (simp only: file_offset_def)

text \<open>
  C29: a mapping shows the requested part of the file. When \<open>make_mmap_sink\<close> reports no error
  and leaves a pointer, the bytes at \<open>data()\<close> are the \<open>length\<close> bytes of the file from \<open>offset\<close>
  on, whatever the page alignment had to cut off; the view is new, and every byte mapped before
  is still in place.
\<close>

theorem mmap_sink_shows_file:
  assumes "memory_docs api" and "make_mmap_sink api name off len w = (m, 0, w')"
    and "mm_data m \<noteq> 0" and "len \<noteq> 0" and "unat off + unat len < 2 ^ 64"
  shows "mm_length m = len
       \<and> (\<forall>i < unat len. view_of api w' (mm_data m + of_nat i) = Some (get_mapping_start m, unat off + i))
       \<and> (\<forall>a p. view_of api w a \<noteq> Some (get_mapping_start m, p))
       \<and> keeps api w w'"
  using make_mmap_sink_spec(1) [OF assms(1,2)] make_mmap_sink_spec(3) [OF assms(1,2) refl assms(3-5)]
  by (auto simp: maps_file_def view_shows_def)

theorem mmap_sink_shows_file_witness:
  "let (m, err, w') = make_mmap_sink sample_api ''dump.bin'' 0x1003 8 (sample_world [] (\<lambda>_. 0)\<lparr>eof := 0x2000\<rparr>)
   in mm_length m = 8 \<and> (\<forall>i < 8. view_of sample_api w' (mm_data m + of_nat i) = Some (get_mapping_start m, 0x1003 + i))"
proof -
  define w where "w = sample_world [] (\<lambda>_. 0)\<lparr>eof := 0x2000\<rparr>"
  obtain m err w' where r: "make_mmap_sink sample_api ''dump.bin'' 0x1003 8 w = (m, err, w')"
    by (metis prod_cases3)
  have "(case make_mmap_sink sample_api ''dump.bin'' 0x1003 8 w of (m, err, w') \<Rightarrow> err = 0 \<and> mm_data m \<noteq> 0)"
    by (simp add: w_def make_mmap_sink_def make_mmap_def map_path_def open_file_def open_file_helper_def
        map_handle_def query_file_size_def memory_map_def make_offset_page_aligned_def unmap_closed
        sample_api_def sample_map_def sample_world_def invalid_handle_value_def Let_def)
  then have m: "make_mmap_sink sample_api ''dump.bin'' 0x1003 8 w = (m, 0, w')" "mm_data m \<noteq> 0"
    using r by simp_all
  from mmap_sink_shows_file [OF sample_memory_docs m] m(1) show ?thesis
    by (simp add: w_def [symmetric])
qed

text \<open>
  The strong guarantee that the comments of \<open>mio.hpp\<close> give for \<open>map\<close>: when it reports an
  error the object is as if \<open>map\<close> had not been called.
\<close>

lemma map_error_leaves_object:
  assumes "map_path api m path off len mode w = (m', err, w')" and "err \<noteq> 0"
  shows "m' = m"
  using assms
  by (auto simp: map_path_def map_handle_def Let_def split: prod.splits if_splits)

lemma map_error_leaves_object_witness:
  "fst (map_path sample_api default_mmap ''f'' 0 16 write_access (sample_world [] (\<lambda>_. 0))) = default_mmap"
  by (rule map_error_leaves_object [where api = sample_api and path = "''f''" and off = 0 and len = 16
        and mode = write_access and w = "sample_world [] (\<lambda>_. 0)" and err = 22
        and w' = "sample_world [] (\<lambda>_. 0)"])
    (simp_all add: map_path_def open_file_def open_file_helper_def map_handle_def query_file_size_def
      sample_api_def sample_world_def invalid_handle_value_def errc_invalid_argument_def Let_def)

text \<open>
  Destroying a mapping object flushes and removes its own view and no other: the object is
  closed afterwards, a second destruction does not reach the operating system, and every byte of
  another view keeps its place and its value.
\<close>

lemma destroy_only_own_view:
  assumes "memory_docs api" and "mmap_destroy api mode m w = (m', w')"
  shows "\<not> is_open m' \<and> mmap_destroy api mode' m' w' = (m', w')
       \<and> (\<forall>a c p. c \<noteq> get_mapping_start m \<longrightarrow> view_of api w a = Some (c, p) \<longrightarrow>
            view_of api w' a = Some (c, p) \<and> load_byte api w' a = load_byte api w a)"
proof -
  have closed: "\<not> is_open m'"
    using unmap_result_closed [of api m "conditional_sync api mode m w"] assms(2)
    unfolding mmap_destroy_def by (metis fst_conv)
  with mmap_destroy_keeps_except [OF assms(1), of m w mode] show ?thesis
    by (simp add: assms(2) keeps_except_def mmap_destroy_closed)
qed

lemma destroy_only_own_view_witness:
  "\<not> is_open (fst (mmap_destroy sample_api write_access default_mmap (sample_world [] (\<lambda>_. 0))))"
  using destroy_only_own_view [OF sample_memory_docs surjective_pairing] by blast

text \<open>
  A move hands the mapping over. The target holds what the source held, and destroying the
  source afterwards does nothing, so a view is unmapped once.
\<close>

lemma move_hands_over:
  assumes "mmap_move_assign api this other w = (this', other', w')"
  shows "this' = other \<and> mmap_destroy api mode other' w' = (other', w')
       \<and> (\<not> is_open this \<longrightarrow> w' = w)"
proof -
  from assms have o: "this' = other" "\<not> is_open other'" "w' = snd (unmap api this w)"
    by (auto simp: mmap_move_assign_def is_open_def Let_def split: prod.splits)
  then show ?thesis by (simp add: mmap_destroy_closed unmap_closed)
qed

lemma move_hands_over_witness:
  "mmap_destroy sample_api write_access default_mmap (sample_world [] (\<lambda>_. 0))
     = (default_mmap, sample_world [] (\<lambda>_. 0))"
proof -
  have "mmap_move_assign sample_api default_mmap default_mmap (sample_world [] (\<lambda>_. 0))
      = (default_mmap, default_mmap, sample_world [] (\<lambda>_. 0))"
    by (simp add: mmap_move_assign_def unmap_closed) (simp add: default_mmap_def)
  from move_hands_over [OF this] show ?thesis by blast
qed

end
