(* ===== verification/Shared_Count.thy ===== *)
theory Shared_Count
  imports Prelude
begin

text \<open>
  The interface of reference counting. Two parts of the program keep objects alive by
  \<open>shared_ptr\<close>s: the maps of the dump file and the shared mappings of \<open>mio.hpp\<close>. Both have a heap
  of control blocks with a use count, an operation that copies a pointer to a block and one that
  drops it. The locale states what they share and proves what a client relies on: if the counts
  are those of the pointers it holds, they stay so, and a count reaches 0 with the last pointer.
\<close>

locale shared_count =
  fixes blocks :: "'s \<Rightarrow> nat"
    and uses :: "'s \<Rightarrow> nat \<Rightarrow> nat"
    and inc :: "nat \<Rightarrow> 's \<Rightarrow> 's"
    and dec :: "nat \<Rightarrow> 's \<Rightarrow> 's"
  assumes blocks_inc: "i < blocks s \<Longrightarrow> blocks (inc i s) = blocks s"
    and uses_inc: "i < blocks s \<Longrightarrow> uses (inc i s) j = (if j = i then Suc (uses s i) else uses s j)"
    and blocks_dec: "i < blocks s \<Longrightarrow> blocks (dec i s) = blocks s"
    and uses_dec: "i < blocks s \<Longrightarrow> uses (dec i s) j = (if j = i then uses s i - 1 else uses s j)"
begin

text \<open>The use counts are those of the pointers \<open>r\<close>, and there is no pointer to nothing.\<close>

definition counts :: "(nat \<Rightarrow> nat) \<Rightarrow> 's \<Rightarrow> bool" where
  "counts r s \<longleftrightarrow> (\<forall>i. r i = (if i < blocks s then uses s i else 0))"

lemma counts_uses: "counts r s \<Longrightarrow> i < blocks s \<Longrightarrow> uses s i = r i"
  by (simp add: counts_def)

lemma counts_bound: "counts r s \<Longrightarrow> 0 < r i \<Longrightarrow> i < blocks s \<and> 0 < uses s i"
  by (auto simp: counts_def split: if_splits)

lemma counts_cong: "blocks s' = blocks s \<Longrightarrow> uses s' = uses s \<Longrightarrow> counts r s' = counts r s"
  by (simp add: counts_def)

lemma counts_inc: "counts r s \<Longrightarrow> i < blocks s \<Longrightarrow> counts (r(i := Suc (r i))) (inc i s)"
  by (simp add: counts_def blocks_inc uses_inc)

lemma counts_dec:
  assumes "counts r s" and "0 < r i"
  shows "counts (r(i := r i - 1)) (dec i s)"
proof -
  have i: "i < blocks s" using counts_bound [OF assms] by simp
  show ?thesis
    unfolding counts_def
  proof
    fix j
    from assms(1) have "r j = (if j < blocks s then uses s j else 0)" by (simp add: counts_def)
    then show "(r(i := r i - 1)) j = (if j < blocks (dec i s) then uses (dec i s) j else 0)"
      using i counts_uses [OF assms(1) i] by (simp add: blocks_dec uses_dec)
  qed
qed

lemma counts_last: "counts r s \<Longrightarrow> r i = 1 \<Longrightarrow> uses (dec i s) i = 0"
  using counts_bound [of r s i] counts_uses [of r s i] by (simp add: uses_dec)

text \<open>Copying a pointer over another one: the new one is counted before the old one is dropped.\<close>

lemma counts_assign:
  assumes "counts r s" and "0 < r old" and "0 < r new"
  shows "counts ((r(new := Suc (r new)))(old := (r(new := Suc (r new))) old - 1)) (dec old (inc new s))"
  using counts_bound [OF assms(1,3)] by (intro counts_dec counts_inc assms) (use assms(2) in auto)

end

end
