(* ===== verification/Dump_File.thy ===== *)
theory Dump_File
  imports Mio_Map Shared_Count
begin

text \<open>
  The dump file (\<open>dumpable/dumpable.hpp\<close>, \<open>dumpable/src/dumpable.cpp\<close>): \<open>active_map\<close>, the owner
  of one mapping, and \<open>m_file\<close>, the growing file that hands out mapped memory.

  A \<open>shared_ptr<active_map>\<close> is an index into the heap of control blocks of the state; a block is
  the mapping object and its use count. Copying a pointer is \<open>retain\<close>, dropping one is \<open>release\<close>,
  and the release of the last one runs the destructor. The state also holds the one \<open>m_file\<close> of
  the program (the scanner makes it and every region shares it). The mutex of \<open>m_file\<close> makes each
  of its operations atomic.
\<close>

definition PAGE_SIZE :: u64 where "PAGE_SIZE = 0x1000"

record m_file =
  file_handle :: u64
  filename :: string
  fsize :: u64
  foffset :: u64
  fvalid :: bool
  current_map :: "nat option"
  map_offset :: u64

record 'w sys =
  world :: 'w
  heap :: "(basic_mmap \<times> nat) list"
  dump_file :: m_file

subsection \<open>\<open>active_map\<close>\<close>

text \<open>The constructor move-assigns the new mapping into \<open>_map\<close>; the error code is dropped.\<close>

definition active_map_new :: "'w win32 \<Rightarrow> string \<Rightarrow> u64 \<Rightarrow> u64 \<Rightarrow> 'w \<Rightarrow> basic_mmap \<times> 'w" where
  "active_map_new api file_name offset sz w =
     (let (tmp, error, w1) = make_mmap_sink api file_name offset sz w;
          (m, tmp1, w2) = mmap_move_assign api default_mmap tmp w1;
          (_, w3) = mmap_destroy api write_access tmp1 w2
      in (m, w3))"

text \<open>The constructor from a mapping and the move constructor move it into \<open>_map\<close>.\<close>

definition active_map_of :: "basic_mmap \<Rightarrow> basic_mmap \<times> basic_mmap" where
  "active_map_of m = mmap_move m"

definition active_map_move :: "basic_mmap \<Rightarrow> basic_mmap \<times> basic_mmap" where
  "active_map_move other = mmap_move other"

definition active_map_move_assign ::
  "'w win32 \<Rightarrow> basic_mmap \<Rightarrow> basic_mmap \<Rightarrow> 'w \<Rightarrow> basic_mmap \<times> basic_mmap \<times> 'w" where
  "active_map_move_assign api this other w =
     (let (this1, w1) = (if mm_data this \<noteq> 0 then unmap api this w else (this, w))
      in mmap_move_assign api this1 other w1)"

definition active_map_destroy :: "'w win32 \<Rightarrow> basic_mmap \<Rightarrow> 'w \<Rightarrow> basic_mmap \<times> 'w" where
  "active_map_destroy api m w =
     (let (m1, w1) = (if mm_data m \<noteq> 0 then unmap api m w else (m, w))
      in mmap_destroy api write_access m1 w1)"

text \<open>
  Moving a map, by a constructor or an assignment, leaves a source without a mapping, whose
  destructor does not reach the operating system: a view is unmapped once.
\<close>

lemma active_map_move_hands_over:
  "active_map_of other = (this, rest) \<Longrightarrow> this = other \<and> active_map_destroy api rest w = (rest, w)"
  "active_map_move other = (this, rest) \<Longrightarrow> this = other \<and> active_map_destroy api rest w = (rest, w)"
  "active_map_move_assign api m other w0 = (this, rest, w) \<Longrightarrow>
     this = other \<and> active_map_destroy api rest w = (rest, w)"
proof -
  have d: "active_map_destroy api m w = (m, w)" if "mm_data m = 0" "\<not> is_open m" for m w
    using that by (simp add: active_map_destroy_def mmap_destroy_closed)
  show "active_map_of other = (this, rest) \<Longrightarrow> this = other \<and> active_map_destroy api rest w = (rest, w)"
    "active_map_move other = (this, rest) \<Longrightarrow> this = other \<and> active_map_destroy api rest w = (rest, w)"
    by (auto simp: active_map_of_def active_map_move_def mmap_move_def is_open_def intro!: d)
  show "active_map_move_assign api m other w0 = (this, rest, w) \<Longrightarrow>
     this = other \<and> active_map_destroy api rest w = (rest, w)"
    by (auto simp: active_map_move_assign_def mmap_move_assign_def is_open_def Let_def
        split: prod.splits intro!: d)
qed

subsection \<open>Shared pointers to maps\<close>

definition map_at :: "'w sys \<Rightarrow> nat \<Rightarrow> basic_mmap" where
  "map_at s i = fst (heap s ! i)"

definition use_count :: "'w sys \<Rightarrow> nat \<Rightarrow> nat" where
  "use_count s i = snd (heap s ! i)"

definition retain :: "nat \<Rightarrow> 'w sys \<Rightarrow> 'w sys" where
  "retain i s = s\<lparr>heap := (heap s)[i := (map_at s i, Suc (use_count s i))]\<rparr>"

definition release :: "'w win32 \<Rightarrow> nat \<Rightarrow> 'w sys \<Rightarrow> 'w sys" where
  "release api i s =
     (if use_count s i = 1
      then let (m, w) = active_map_destroy api (map_at s i) (world s)
           in s\<lparr>world := w, heap := (heap s)[i := (m, 0)]\<rparr>
      else s\<lparr>heap := (heap s)[i := (map_at s i, use_count s i - 1)]\<rparr>)"

fun release_opt :: "'w win32 \<Rightarrow> nat option \<Rightarrow> 'w sys \<Rightarrow> 'w sys" where
  "release_opt api None s = s"
| "release_opt api (Some i) s = release api i s"

fun release_all :: "'w win32 \<Rightarrow> nat list \<Rightarrow> 'w sys \<Rightarrow> 'w sys" where
  "release_all api [] s = s"
| "release_all api (i # is) s = release_all api is (release api i s)"

subsection \<open>\<open>m_file\<close>\<close>

definition m_file_new :: "'w win32 \<Rightarrow> string \<Rightarrow> 'w \<Rightarrow> m_file \<times> 'w" where
  "m_file_new api name w =
     (let (_, w1) = delete_file api name w;
          (h, w2) = create_file_a api name write_access Open_always w1;
          f = \<lparr>file_handle = h, filename = name, fsize = 0, foffset = 0, fvalid = False,
               current_map = None, map_offset = 0\<rparr>
      in if h = invalid_handle_value then (f, w2)
         else (case get_file_size api h w2 of
                 (Some n, w3) \<Rightarrow> (f\<lparr>fsize := n, fvalid := True\<rparr>, w3)
               | (None, w3) \<Rightarrow> (f, w3)))"

definition page_align :: "u64 \<Rightarrow> u64" where
  "page_align sz = (sz + PAGE_SIZE - 1) div PAGE_SIZE * PAGE_SIZE"

text \<open>\<open>SetFilePointerEx(...) && SetEndOfFile(...)\<close>\<close>

definition set_file_size :: "'w win32 \<Rightarrow> u64 \<Rightarrow> u64 \<Rightarrow> 'w \<Rightarrow> bool \<times> 'w" where
  "set_file_size api h sz w =
     (let (ok, w1) = set_file_pointer api h sz w
      in if ok then set_end_of_file api h w1 else (False, w1))"

definition m_file_new_sized :: "'w win32 \<Rightarrow> string \<Rightarrow> u64 \<Rightarrow> 'w \<Rightarrow> m_file \<times> 'w" where
  "m_file_new_sized api name sz w =
     (let (f, w1) = m_file_new api name w
      in if \<not> fvalid f then (f, w1)
         else let (ok, w2) = set_file_size api (file_handle f) (page_align sz) w1
              in if ok then (f\<lparr>fsize := page_align sz\<rparr>, w2) else (f\<lparr>fvalid := False\<rparr>, w2))"

definition m_file_destroy :: "'w win32 \<Rightarrow> 'w sys \<Rightarrow> 'w sys" where
  "m_file_destroy api s =
     (let f = dump_file s;
          s1 = release_opt api (current_map f) (s\<lparr>dump_file := f\<lparr>fvalid := False, current_map := None\<rparr>\<rparr>);
          w1 = (if file_handle f \<noteq> invalid_handle_value
                then snd (close_handle api (file_handle f) (world s1)) else world s1);
          w2 = (if filename f \<noteq> [] then snd (delete_file api (filename f) w1) else w1)
      in s1\<lparr>world := w2, dump_file := (dump_file s1)\<lparr>file_handle := invalid_handle_value\<rparr>\<rparr>)"

definition m_valid :: "'w sys \<Rightarrow> bool" where
  "m_valid s = fvalid (dump_file s)"

definition m_size :: "'w sys \<Rightarrow> u64" where
  "m_size s = fsize (dump_file s)"

definition m_file_name :: "'w sys \<Rightarrow> string" where
  "m_file_name s = filename (dump_file s)"

definition expand_size :: "'w win32 \<Rightarrow> u64 \<Rightarrow> 'w sys \<Rightarrow> bool \<times> 'w sys" where
  "expand_size api sz s =
     (let f = dump_file s
      in if \<not> fvalid f \<or> file_handle f = invalid_handle_value then (False, s)
         else let new_size = (fsize f + sz) * 2;
                  aligned_size = page_align new_size;
                  (ok, w) = set_file_size api (file_handle f) aligned_size (world s)
              in if \<not> ok then (False, s\<lparr>world := w\<rparr>)
                 else (True, s\<lparr>world := w, dump_file := f\<lparr>fsize := aligned_size\<rparr>\<rparr>))"

text \<open>The new map is held by one pointer, the one that is returned.\<close>

definition do_map :: "'w win32 \<Rightarrow> u64 \<Rightarrow> 'w sys \<Rightarrow> nat \<times> 'w sys" where
  "do_map api offset s =
     (let f = dump_file s;
          (m, w) = active_map_new api (filename f) offset (fsize f - offset) (world s)
      in (length (heap s), s\<lparr>world := w, heap := heap s @ [(m, 1)]\<rparr>))"

text \<open>
  The second half of \<open>write\<close>, from \<open>active = _current_map\<close> on. A null \<open>_current_map\<close> is
  dereferenced; a copy of \<open>size\<close> bytes that does not fit in what the map holds behind
  \<open>_map_offset\<close>, or in the source buffer, leaves the object it works on.
\<close>

definition write_current :: "'w win32 \<Rightarrow> u8 list option \<Rightarrow> u64 \<Rightarrow> 'w sys \<Rightarrow> (u64 \<times> nat option \<times> 'w sys) res" where
  "write_current api buffer sz s =
     (let f = dump_file s
      in case current_map f of None \<Rightarrow> Inl Null_deref
         | Some i \<Rightarrow>
             let s1 = retain i s;
                 m = map_at s1 i;
                 dst = mm_data m + map_offset f
             in if dst = 0 then Inr (0, Some i, s1)
                else if unat (mm_length m) < unat (map_offset f) + unat sz then Inl Out_of_bounds
                else case buffer of
                       Some bs \<Rightarrow>
                         if length bs < unat sz then Inl Out_of_bounds
                         else Inr (dst, Some i, s1\<lparr>world := store_bytes api dst (take (unat sz) bs) (world s1),
                                dump_file := f\<lparr>map_offset := map_offset f + sz, foffset := foffset f + sz\<rparr>\<rparr>)
                     | None \<Rightarrow>
                         Inr (dst, Some i, s1\<lparr>world := store_bytes api dst (replicate (unat sz) 0) (world s1),
                                dump_file := f\<lparr>map_offset := map_offset f + sz, foffset := foffset f + sz\<rparr>\<rparr>))"

text \<open>\<open>_current_map = new_map; _map_offset = 0\<close>, and the local \<open>new_map\<close> going out of scope.\<close>

definition set_current_map :: "'w win32 \<Rightarrow> nat \<Rightarrow> 'w sys \<Rightarrow> 'w sys" where
  "set_current_map api i s =
     (let old = current_map (dump_file s);
          s1 = retain i s;
          s2 = release_opt api old (s1\<lparr>dump_file := (dump_file s1)\<lparr>current_map := Some i, map_offset := 0\<rparr>\<rparr>)
      in release api i s2)"

text \<open>
  \<open>write\<close> returns the pointer (0 for \<open>nullptr\<close>) and the caller's \<open>active\<close>; the result of
  \<open>expand_size\<close> is not looked at.
\<close>

definition m_write :: "'w win32 \<Rightarrow> u8 list option \<Rightarrow> u64 \<Rightarrow> 'w sys \<Rightarrow> (u64 \<times> nat option \<times> 'w sys) res" where
  "m_write api buffer sz s =
     (let f = dump_file s
      in if fsize f < foffset f + sz
         then let s1 = snd (expand_size api sz s);
                  (i, s2) = do_map api (foffset f) s1
              in if mm_data (map_at s2 i) \<noteq> 0
                 then write_current api buffer sz (set_current_map api i s2)
                 else Inr (0, None, release api i s2)
         else write_current api buffer sz s)"

subsection \<open>The heap of maps\<close>

text \<open>
  A live map owns a view that shows the file. The invariant of the heap: every block with a
  positive use count holds a live map, and no two of them own the same view.
\<close>

definition live_map :: "'w win32 \<Rightarrow> 'w \<Rightarrow> basic_mmap \<Rightarrow> bool" where
  "live_map api w m \<longleftrightarrow> mm_data m \<noteq> 0 \<and> mm_length m \<noteq> 0 \<and> (\<exists>off. maps_file api w m off)"

definition alive :: "'w sys \<Rightarrow> nat \<Rightarrow> bool" where
  "alive s i \<longleftrightarrow> i < length (heap s) \<and> 0 < use_count s i"

definition heap_ok :: "'w win32 \<Rightarrow> 'w sys \<Rightarrow> bool" where
  "heap_ok api s \<longleftrightarrow> (\<forall>i. alive s i \<longrightarrow> live_map api (world s) (map_at s i))
     \<and> (\<forall>i j. alive s i \<longrightarrow> alive s j \<longrightarrow> get_mapping_start (map_at s i) = get_mapping_start (map_at s j) \<longrightarrow> i = j)"

text \<open>\<open>n\<close> addresses from \<open>p\<close> on lie in the view of the live map \<open>i\<close> and show the file from \<open>pos\<close> on.\<close>

definition held :: "'w win32 \<Rightarrow> 'w sys \<Rightarrow> nat \<Rightarrow> u64 \<Rightarrow> nat \<Rightarrow> nat \<Rightarrow> bool" where
  "held api s i p n pos \<longleftrightarrow> alive s i \<and> view_shows api (world s) (get_mapping_start (map_at s i)) p n pos"

text \<open>
  \<open>frame api D s s'\<close>: no map comes back to life, a map that stays alive is the same object, and
  whatever it held at a range of the file selected by \<open>D\<close> is still there with the same bytes.
\<close>

definition frame :: "'w win32 \<Rightarrow> (nat \<Rightarrow> nat \<Rightarrow> bool) \<Rightarrow> 'w sys \<Rightarrow> 'w sys \<Rightarrow> bool" where
  "frame api D s s' \<longleftrightarrow> length (heap s) \<le> length (heap s')
     \<and> (\<forall>i < length (heap s). alive s' i \<longrightarrow> alive s i \<and> map_at s' i = map_at s i)
     \<and> (\<forall>i p n pos. held api s i p n pos \<longrightarrow> alive s' i \<longrightarrow> D pos n \<longrightarrow>
          held api s' i p n pos \<and> load_bytes api (world s') p n = load_bytes api (world s) p n)"

lemma frame_refl [simp]: "frame api D s s"
  by (simp add: frame_def)

lemma held_alive: "held api s i p n pos \<Longrightarrow> alive s i"
  by (simp add: held_def)

lemma alive_bound: "alive s i \<Longrightarrow> i < length (heap s)"
  by (simp add: alive_def)

lemma frame_trans:
  assumes f1: "frame api D s1 s2" and f2: "frame api D s2 s3"
  shows "frame api D s1 s3"
proof -
  have len: "length (heap s1) \<le> length (heap s2)" "length (heap s2) \<le> length (heap s3)"
    using assms by (simp_all add: frame_def)
  have a: "alive s2 i \<and> map_at s3 i = map_at s2 i" if "i < length (heap s1)" "alive s3 i" for i
    using f2 that len unfolding frame_def by (meson less_le_trans)
  have "held api s3 i p n pos \<and> load_bytes api (world s3) p n = load_bytes api (world s1) p n"
    if h: "held api s1 i p n pos" and "alive s3 i" "D pos n" for i p n pos
  proof -
    have "alive s2 i" using a that alive_bound [OF held_alive [OF h]] by blast
    then have "held api s2 i p n pos \<and> load_bytes api (world s2) p n = load_bytes api (world s1) p n"
      using f1 h that(3) unfolding frame_def by blast
    with f2 that(2,3) show ?thesis unfolding frame_def by metis
  qed
  moreover have "alive s1 i \<and> map_at s3 i = map_at s1 i" if "i < length (heap s1)" "alive s3 i" for i
    using a [OF that] f1 that(1) unfolding frame_def by metis
  ultimately show ?thesis using len unfolding frame_def by (meson le_trans)
qed

lemma frame_world:
  assumes "keeps api (world s) w" and "heap s' = heap s" and "world s' = w"
  shows "frame api D s s'"
proof -
  have eq: "map_at s' = map_at s" "use_count s' = use_count s" "alive s' = alive s"
    using assms(2) by (simp_all add: map_at_def use_count_def alive_def fun_eq_iff)
  have "held api s' i p n pos \<and> load_bytes api (world s') p n = load_bytes api (world s) p n"
    if "held api s i p n pos" for i p n pos
    using that assms eq
    by (auto simp: held_def intro: view_shows_keeps load_bytes_keeps [OF view_shows_file])
  then show ?thesis using assms(2) eq by (simp add: frame_def)
qed

lemma maps_file_keeps: "maps_file api w m off \<Longrightarrow> keeps api w w' \<Longrightarrow> maps_file api w' m off"
  by (auto simp: maps_file_def intro: view_shows_keeps)

lemma live_map_keeps: "live_map api w m \<Longrightarrow> keeps api w w' \<Longrightarrow> live_map api w' m"
  by (metis live_map_def maps_file_keeps)

lemma heap_ok_world:
  assumes "heap_ok api s" and "keeps api (world s) w" and "heap s' = heap s" and "world s' = w"
  shows "heap_ok api s'"
proof -
  have eq: "map_at s' = map_at s" "alive s' = alive s"
    using assms(3) by (simp_all add: map_at_def use_count_def alive_def fun_eq_iff)
  show ?thesis using assms by (auto simp: heap_ok_def eq intro: live_map_keeps)
qed

text \<open>The fields of the state after a change of one block.\<close>

lemma heap_update_simps [simp]:
  "i < length (heap s) \<Longrightarrow> map_at (s\<lparr>heap := (heap s)[i := b]\<rparr>) j = (if j = i then fst b else map_at s j)"
  "i < length (heap s) \<Longrightarrow> use_count (s\<lparr>heap := (heap s)[i := b]\<rparr>) j = (if j = i then snd b else use_count s j)"
  by (simp_all add: map_at_def use_count_def)

lemma retain_simps [simp]:
  "world (retain i s) = world s" "dump_file (retain i s) = dump_file s"
  "length (heap (retain i s)) = length (heap s)"
  by (simp_all add: retain_def)

lemma map_at_retain [simp]: "map_at (retain i s) j = map_at s j"
  by (cases "i < length (heap s)"; cases "i = j") (simp_all add: retain_def map_at_def list_update_beyond)

lemma use_count_retain [simp]:
  "i < length (heap s) \<Longrightarrow> use_count (retain i s) j = (if j = i then Suc (use_count s i) else use_count s j)"
  by (simp add: retain_def)

lemma alive_retain [simp]: "alive s i \<Longrightarrow> alive (retain i s) j = alive s j"
  by (auto simp: alive_def)

lemma heap_ok_retain: "heap_ok api s \<Longrightarrow> alive s i \<Longrightarrow> heap_ok api (retain i s)"
  by (simp add: heap_ok_def)

lemma frame_retain: "alive s i \<Longrightarrow> frame api D s (retain i s)"
  by (simp add: frame_def held_def)

lemma active_map_destroy_keeps_except:
  assumes "memory_docs api"
  shows "keeps_except api (get_mapping_start m) w (snd (active_map_destroy api m w))"
proof (cases "mm_data m = 0")
  case True
  then show ?thesis by (simp add: active_map_destroy_def mmap_destroy_keeps_except [OF assms])
next
  case False
  obtain m1 w1 where u: "unmap api m w = (m1, w1)" by force
  have "\<not> is_open m1" using unmap_result_closed [of api m w] by (simp add: u)
  then have "mmap_destroy api write_access m1 w1 = (m1, w1)" by (rule mmap_destroy_closed)
  with False unmap_keeps_except [OF assms, of m w] show ?thesis
    by (simp add: active_map_destroy_def u)
qed

lemma release_simps [simp]:
  "dump_file (release api i s) = dump_file s"
  "length (heap (release api i s)) = length (heap s)"
  "i < length (heap s) \<Longrightarrow> use_count (release api i s) j = (if j = i then use_count s i - 1 else use_count s j)"
  "j \<noteq> i \<Longrightarrow> map_at (release api i s) j = map_at s j"
  by (auto simp: release_def map_at_def use_count_def Let_def split: prod.splits)

interpretation map_count: shared_count "\<lambda>s. length (heap s)" use_count retain "release api" for api :: "'w win32"
  by unfold_locales simp_all

lemma map_at_release_alive [simp]: "alive (release api i s) j \<Longrightarrow> map_at (release api i s) j = map_at s j"
  by (cases "j = i") (auto simp: release_def alive_def map_at_def use_count_def Let_def split: prod.splits if_splits)

lemma alive_release: "alive s i \<Longrightarrow> alive (release api i s) j \<longleftrightarrow> alive s j \<and> (j = i \<longrightarrow> 1 < use_count s i)"
  by (auto simp: alive_def)

lemma world_release:
  assumes "memory_docs api" and "alive s i"
  shows "if use_count s i = 1 then keeps_except api (get_mapping_start (map_at s i)) (world s) (world (release api i s))
         else world (release api i s) = world s"
  using active_map_destroy_keeps_except [OF assms(1), of "map_at s i" "world s"]
  by (auto simp: release_def Let_def split: prod.splits)

lemma release_view_shows:
  assumes "memory_docs api" and "heap_ok api s" and "alive s i" and "alive (release api i s) j"
    and "view_shows api (world s) (get_mapping_start (map_at s j)) p n pos"
  shows "view_shows api (world (release api i s)) (get_mapping_start (map_at s j)) p n pos
       \<and> load_bytes api (world (release api i s)) p n = load_bytes api (world s) p n"
proof (cases "use_count s i = 1")
  case True
  with assms(3,4) have j: "alive s j" "j \<noteq> i" by (auto simp: alive_release)
  with assms(2,3) have "get_mapping_start (map_at s j) \<noteq> get_mapping_start (map_at s i)"
    unfolding heap_ok_def by blast
  with world_release [OF assms(1,3)] True assms(5) show ?thesis
    by (auto intro: view_shows_keeps_except load_bytes_keeps_except)
next
  case False
  with world_release [OF assms(1,3)] assms(5) show ?thesis by simp
qed

lemma frame_release:
  assumes "memory_docs api" and "heap_ok api s" and "alive s i"
  shows "frame api D s (release api i s)"
  unfolding frame_def held_def
  using release_view_shows [OF assms] assms(3) by (auto simp: alive_release)

lemma heap_ok_release:
  assumes "memory_docs api" and "heap_ok api s" and "alive s i"
  shows "heap_ok api (release api i s)"
proof -
  have "live_map api (world (release api i s)) (map_at s j)" if j: "alive (release api i s) j" for j
  proof -
    have "live_map api (world s) (map_at s j)"
      using assms j by (simp add: heap_ok_def alive_release)
    then show ?thesis
      using release_view_shows [OF assms j] by (auto simp: live_map_def maps_file_def)
  qed
  with assms show ?thesis by (auto simp: heap_ok_def alive_release)
qed

end
