(* ===== verification/Dump_Write.thy ===== *)
theory Dump_Write
  imports Dump_File
begin

text \<open>
  What \<open>m_file::write\<close> promises: the invariant of the file, its current map and the reference
  counts, preserved by growing, remapping and writing; a written range reads back, and ranges
  handed out earlier stay put while their map is referenced. The last theorems show where the
  code leaves that contract: a file that could not grow, and a first write that needs no growth.
\<close>

subsection \<open>Growing the file\<close>

lemma unat_page_align:
  assumes "unat x + 4096 < 2 ^ 64"
  shows "unat (page_align x) = (unat x + 4095) div 4096 * 4096"
proof -
  have "x + PAGE_SIZE - 1 = x + of_nat 4095" by (simp add: PAGE_SIZE_def)
  then have u: "unat (x + PAGE_SIZE - 1) = unat x + 4095"
    using assms by (simp only: unat_add_of_nat)
  have p: "unat PAGE_SIZE = 4096" by (simp add: PAGE_SIZE_def)
  have "(unat x + 4095) div 4096 * 4096 < 2 ^ 64" using assms by simp
  then show ?thesis
    unfolding page_align_def by (simp only: unat_mult_no_wrap unat_div u p)
qed

text \<open>Environment: the dump file can be resized (the disk is not full).\<close>

definition disk_ok :: "'w win32 \<Rightarrow> bool" where
  "disk_ok api \<longleftrightarrow> (\<forall>h x w. fst (set_file_pointer api h x w)) \<and> (\<forall>h w. fst (set_end_of_file api h w))"

lemma set_file_size_ok:
  assumes "memory_docs api" and "disk_ok api"
  shows "\<exists>w'. set_file_size api h n w = (True, w') \<and> keeps api w w'"
proof -
  obtain a w1 where p: "set_file_pointer api h n w = (a, w1)" by force
  obtain b w2 where e: "set_end_of_file api h w1 = (b, w2)" by force
  have "a" "b" using assms(2) p e unfolding disk_ok_def by (metis fst_conv)+
  moreover have "keeps api w w2"
    by (rule keeps_trans [OF quiet_keepsD(5) [OF assms(1) p] quiet_keepsD(6) [OF assms(1) e]])
  ultimately show ?thesis by (simp add: set_file_size_def p e)
qed

lemma set_file_size_keeps:
  assumes "memory_docs api" and "set_file_size api h n w = (ok, w')"
  shows "keeps api w w'"
  using assms(2)
  by (auto simp: set_file_size_def Let_def split: prod.splits if_splits
      intro: keeps_trans quiet_keepsD(5) [OF assms(1)] quiet_keepsD(6) [OF assms(1)])

text \<open>
  The invariant of \<open>m_file\<close>: the file is open, and the current map reaches exactly to its end,
  with the write position inside it; the file is no larger than a fixed multiple of what has
  been written.
\<close>

definition map_ok :: "'w win32 \<Rightarrow> 'w sys \<Rightarrow> bool" where
  "map_ok api s \<longleftrightarrow> (let f = dump_file s in
     fvalid f \<and> file_handle f \<noteq> invalid_handle_value
   \<and> (case current_map f of None \<Rightarrow> fsize f = 0 \<and> foffset f = 0
      | Some i \<Rightarrow> alive s i \<and> unat (map_offset f) \<le> unat (mm_length (map_at s i))
          \<and> (\<exists>start. maps_file api (world s) (map_at s i) start
               \<and> start + unat (map_offset f) = unat (foffset f)
               \<and> start + unat (mm_length (map_at s i)) = unat (fsize f))))"

definition file_ok :: "'w win32 \<Rightarrow> 'w sys \<Rightarrow> bool" where
  "file_ok api s \<longleftrightarrow> map_ok api s
     \<and> unat (fsize (dump_file s)) \<le> 4 * unat (foffset (dump_file s)) + 4095"

lemma file_ok_le: "file_ok api s \<Longrightarrow> unat (foffset (dump_file s)) \<le> unat (fsize (dump_file s))"
  by (auto simp: file_ok_def map_ok_def Let_def split: option.splits)

text \<open>Reference counting: \<open>refs i\<close> pointers to map \<open>i\<close> are held outside \<open>m_file\<close>.\<close>

definition refs_ok :: "(nat \<Rightarrow> nat) \<Rightarrow> 'w sys \<Rightarrow> bool" where
  "refs_ok refs s \<longleftrightarrow> (\<forall>i < length (heap s).
       use_count s i = refs i + (if current_map (dump_file s) = Some i then 1 else 0))
     \<and> (\<forall>i. length (heap s) \<le> i \<longrightarrow> refs i = 0 \<and> current_map (dump_file s) \<noteq> Some i)"

text \<open>The pointers are those handed out and the one of the dump file itself.\<close>

lemma refs_ok_counts:
  "refs_ok refs s \<longleftrightarrow> map_count.counts (\<lambda>i. refs i + (if current_map (dump_file s) = Some i then 1 else 0)) s"
proof -
  have "refs_ok refs s \<longleftrightarrow> (\<forall>i. if i < length (heap s)
      then use_count s i = refs i + (if current_map (dump_file s) = Some i then 1 else 0)
      else refs i = 0 \<and> current_map (dump_file s) \<noteq> Some i)"
    unfolding refs_ok_def by (simp only: all_conj_distrib [symmetric] not_less [symmetric] if_bool_eq_conj)
  also have "\<dots> \<longleftrightarrow> map_count.counts (\<lambda>i. refs i + (if current_map (dump_file s) = Some i then 1 else 0)) s"
    unfolding map_count.counts_def by (intro all_cong1) auto
  finally show ?thesis .
qed

lemma refs_ok_release:
  assumes "refs_ok refs s" and "0 < refs i"
  shows "refs_ok (refs(i := refs i - 1)) (release api i s)"
proof -
  let ?r = "\<lambda>j. refs j + (if current_map (dump_file s) = Some j then 1 else 0)"
  have "map_count.counts (?r(i := ?r i - 1)) (release api i s)"
    by (rule map_count.counts_dec) (use assms in \<open>simp_all add: refs_ok_counts\<close>)
  moreover have "?r(i := ?r i - 1) = (\<lambda>j. (refs(i := refs i - 1)) j + (if current_map (dump_file s) = Some j then 1 else 0))"
    using assms(2) by auto
  ultimately show ?thesis by (simp add: refs_ok_counts)
qed

definition store_inv :: "'w win32 \<Rightarrow> (nat \<Rightarrow> nat) \<Rightarrow> 'w sys \<Rightarrow> bool" where
  "store_inv api refs s \<longleftrightarrow> heap_ok api s \<and> file_ok api s \<and> refs_ok refs s"

lemma refs_ok_alive: "refs_ok refs s \<Longrightarrow> 0 < refs i \<Longrightarrow> alive s i"
  unfolding refs_ok_def alive_def by (metis not_le not_less0 trans_less_add1)

lemma refs_ok_current: "refs_ok refs s \<Longrightarrow> current_map (dump_file s) = Some i \<Longrightarrow> alive s i"
  unfolding refs_ok_def alive_def by (metis add_gr_0 not_le zero_less_one)

lemma expand_size_ok:
  assumes "memory_docs api" and "disk_ok api" and "file_ok api s"
    and small: "unat (foffset (dump_file s)) + unat sz \<le> 2 ^ 60"
    and grow: "unat (fsize (dump_file s)) < unat (foffset (dump_file s)) + unat sz"
  shows "\<exists>w n. expand_size api sz s = (True, s\<lparr>world := w, dump_file := (dump_file s)\<lparr>fsize := n\<rparr>\<rparr>)
    \<and> keeps api (world s) w \<and> unat (foffset (dump_file s)) + unat sz \<le> unat n
    \<and> unat n \<le> 4 * (unat (foffset (dump_file s)) + unat sz) + 4095"
proof -
  let ?f = "dump_file s"
  define n where "n = page_align ((fsize ?f + sz) * 2)"
  obtain w where w: "set_file_size api (file_handle ?f) n (world s) = (True, w)" "keeps api (world s) w"
    using set_file_size_ok [OF assms(1,2)] by blast
  have ok: "fvalid ?f" "file_handle ?f \<noteq> invalid_handle_value"
    using assms(3) by (simp_all add: file_ok_def map_ok_def Let_def)
  have "unat (fsize ?f + sz) = unat (fsize ?f) + unat sz"
    using small grow by (intro unat_add_no_wrap) simp
  moreover from this have "unat ((fsize ?f + sz) * 2) = (unat (fsize ?f) + unat sz) * 2"
    using small grow by (subst unat_mult_no_wrap) simp_all
  ultimately have eq: "unat n = ((unat (fsize ?f) + unat sz) * 2 + 4095) div 4096 * 4096"
    unfolding n_def using small grow by (subst unat_page_align) simp_all
  have "x div 4096 * 4096 \<le> x \<and> x \<le> x div 4096 * 4096 + 4095" for x :: nat by simp
  from this [of "(unat (fsize ?f) + unat sz) * 2 + 4095"]
  have "unat n \<le> (unat (fsize ?f) + unat sz) * 2 + 4095" "(unat (fsize ?f) + unat sz) * 2 \<le> unat n"
    unfolding eq by (simp_all only: add_le_cancel_right)
  then have "unat (foffset ?f) + unat sz \<le> unat n" "unat n \<le> 4 * (unat (foffset ?f) + unat sz) + 4095"
    using grow file_ok_le [OF assms(3)] by simp_all
  moreover have "expand_size api sz s = (True, s\<lparr>world := w, dump_file := ?f\<lparr>fsize := n\<rparr>\<rparr>)"
    using w(1) ok unfolding expand_size_def Let_def n_def [symmetric] by simp
  ultimately show ?thesis using w(2) by blast
qed

subsection \<open>A new map\<close>

lemma active_map_new_eq:
  "active_map_new api name off len w = (case make_mmap_sink api name off len w of (m, err, w') \<Rightarrow> (m, w'))"
proof -
  obtain m err w' where mk: "make_mmap_sink api name off len w = (m, err, w')" by (metis prod_cases3)
  have "mmap_destroy api write_access (m\<lparr>mm_data := 0, mm_length := 0, mm_mapped_length := 0,
      mm_file_handle := invalid_handle_value, mm_mapping_handle := invalid_handle_value,
      mm_internal := False\<rparr>) w'
    = (m\<lparr>mm_data := 0, mm_length := 0, mm_mapped_length := 0, mm_file_handle := invalid_handle_value,
      mm_mapping_handle := invalid_handle_value, mm_internal := False\<rparr>, w')"
    by (rule mmap_destroy_closed) (simp add: is_open_def)
  then show ?thesis
    by (simp only: active_map_new_def mk mmap_move_assign_def unmap_closed [OF default_mmap_closed(1)]
        Let_def prod.case)
qed

lemma active_map_new_spec:
  assumes "memory_docs api" and "active_map_new api name off len w = (m, w')"
  shows "keeps api w w'"
    and "mm_data m \<noteq> 0 \<Longrightarrow> len \<noteq> 0 \<Longrightarrow> unat off + unat len < 2 ^ 64 \<Longrightarrow>
      mm_length m = len \<and> maps_file api w' m (unat off)
      \<and> (\<forall>a p. view_of api w a \<noteq> Some (get_mapping_start m, p))"
proof -
  obtain err where mk: "make_mmap_sink api name off len w = (m, err, w')"
    using assms(2) by (auto simp: active_map_new_eq split: prod.splits)
  show "keeps api w w'" by (rule make_mmap_sink_spec(1) [OF assms(1) mk])
  assume nz: "mm_data m \<noteq> 0" and "len \<noteq> 0" "unat off + unat len < 2 ^ 64"
  moreover have "err = 0"
    using nz make_mmap_sink_spec(2) [OF assms(1) mk] by (metis default_mmap_closed(2))
  ultimately show "mm_length m = len \<and> maps_file api w' m (unat off)
      \<and> (\<forall>a p. view_of api w a \<noteq> Some (get_mapping_start m, p))"
    using make_mmap_sink_spec(3) [OF assms(1) mk] by blast
qed

lemma append_block_simps [simp]:
  "i < length (heap s) \<Longrightarrow> map_at (s\<lparr>world := w, heap := heap s @ [b]\<rparr>) i = map_at s i"
  "i < length (heap s) \<Longrightarrow> use_count (s\<lparr>world := w, heap := heap s @ [b]\<rparr>) i = use_count s i"
  "map_at (s\<lparr>world := w, heap := heap s @ [b]\<rparr>) (length (heap s)) = fst b"
  "use_count (s\<lparr>world := w, heap := heap s @ [b]\<rparr>) (length (heap s)) = snd b"
  by (simp_all add: map_at_def use_count_def nth_append)

lemma alive_append:
  "alive (s\<lparr>world := w, heap := heap s @ [b]\<rparr>) i \<longleftrightarrow> alive s i \<or> (i = length (heap s) \<and> 0 < snd b)"
  by (auto simp: alive_def less_Suc_eq use_count_def nth_append)

lemma frame_append:
  assumes "keeps api (world s) w"
  shows "frame api D s (s\<lparr>world := w, heap := heap s @ [b]\<rparr>)"
proof -
  have "held api (s\<lparr>world := w, heap := heap s @ [b]\<rparr>) i p n pos
      \<and> load_bytes api w p n = load_bytes api (world s) p n" if h: "held api s i p n pos" for i p n pos
    using h assms alive_bound [of s i]
    by (auto simp: held_def alive_append intro: view_shows_keeps load_bytes_keeps [OF view_shows_file])
  then show ?thesis by (auto simp: frame_def alive_append)
qed

lemma do_map_spec:
  assumes "memory_docs api" and "heap_ok api s" and "do_map api off s = (i, s')"
  shows "i = length (heap s)" and "dump_file s' = dump_file s" and "frame api D s s'"
    and "alive s' j \<longleftrightarrow> alive s j \<or> j = i" and "use_count s' i = 1"
    and "j < i \<Longrightarrow> use_count s' j = use_count s j" and "length (heap s') = Suc i"
    and "mm_data (map_at s' i) \<noteq> 0 \<Longrightarrow> unat off < unat (fsize (dump_file s)) \<Longrightarrow>
      heap_ok api s' \<and> maps_file api (world s') (map_at s' i) (unat off)
      \<and> unat (mm_length (map_at s' i)) = unat (fsize (dump_file s)) - unat off"
proof -
  let ?f = "dump_file s"
  obtain m w where n: "active_map_new api (filename ?f) off (fsize ?f - off) (world s) = (m, w)" by force
  have i: "i = length (heap s)" and s': "s' = s\<lparr>world := w, heap := heap s @ [(m, 1)]\<rparr>"
    using assms(3) by (auto simp: do_map_def n Let_def)
  show "i = length (heap s)" "dump_file s' = dump_file s" "use_count s' i = 1" "length (heap s') = Suc i"
    by (simp_all add: i s')
  show "j < i \<Longrightarrow> use_count s' j = use_count s j" by (simp add: i s')
  show al: "alive s' j \<longleftrightarrow> alive s j \<or> j = i" for j by (simp add: i s' alive_append)
  have k: "keeps api (world s) w" by (rule active_map_new_spec(1) [OF assms(1) n])
  show "frame api D s s'" unfolding s' by (rule frame_append [OF k])
  assume "mm_data (map_at s' i) \<noteq> 0" and lt: "unat off < unat (fsize ?f)"
  then have nz: "mm_data m \<noteq> 0" by (simp add: i s')
  have len: "unat (fsize ?f - off) = unat (fsize ?f) - unat off"
    using lt by (simp add: unat_sub word_le_nat_alt)
  with lt have l0: "fsize ?f - off \<noteq> 0" by auto
  have "unat off + unat (fsize ?f - off) < 2 ^ 64" using lt len by simp
  from active_map_new_spec(2) [OF assms(1) n nz l0 this]
  have m: "mm_length m = fsize ?f - off" "maps_file api w m (unat off)"
    and fresh: "\<And>a p. view_of api (world s) a \<noteq> Some (get_mapping_start m, p)" by blast+
  have new: "live_map api w m" using nz m l0 by (auto simp: live_map_def)
  have old: "live_map api w (map_at s j)" "get_mapping_start (map_at s j) \<noteq> get_mapping_start m"
    if "alive s j" for j
  proof -
    have lv: "live_map api (world s) (map_at s j)" using assms(2) that by (simp add: heap_ok_def)
    then show "live_map api w (map_at s j)" using k by (rule live_map_keeps)
    from lv have "0 < unat (mm_length (map_at s j))" by (simp add: live_map_def unat_gt_0)
    moreover from lv obtain off where "view_shows api (world s) (get_mapping_start (map_at s j))
        (mm_data (map_at s j)) (unat (mm_length (map_at s j))) off"
      by (auto simp: live_map_def maps_file_def)
    ultimately have "view_of api (world s) (mm_data (map_at s j)) = Some (get_mapping_start (map_at s j), off)"
      unfolding view_shows_def by (auto dest: spec [of _ 0])
    with fresh show "get_mapping_start (map_at s j) \<noteq> get_mapping_start m" by metis
  qed
  have at: "map_at s' j = (if j = i then m else map_at s j)" if "alive s' j" for j
    using that alive_bound [of s j] by (cases "j = i") (simp_all add: al, simp_all add: i s')
  have "world s' = w" by (simp add: s')
  with assms(2) new old have "heap_ok api s'"
    unfolding heap_ok_def by (metis al at)
  then show "heap_ok api s' \<and> maps_file api (world s') (map_at s' i) (unat off)
      \<and> unat (mm_length (map_at s' i)) = unat (fsize ?f) - unat off"
    using m len by (simp add: i s')
qed


subsection \<open>Writing\<close>

lemma dump_file_update_simps [simp]:
  "map_at (s\<lparr>dump_file := f\<rparr>) = map_at s" "use_count (s\<lparr>dump_file := f\<rparr>) = use_count s"
  "alive (s\<lparr>dump_file := f\<rparr>) = alive s" "heap_ok api (s\<lparr>dump_file := f\<rparr>) = heap_ok api s"
  "held api (s\<lparr>dump_file := f\<rparr>) = held api s"
  by (simp_all add: map_at_def use_count_def alive_def heap_ok_def held_def fun_eq_iff)

lemma frame_dump_file [simp]:
  "frame api D s (s'\<lparr>dump_file := f\<rparr>) = frame api D s s'"
  "frame api D (s\<lparr>dump_file := f\<rparr>) s' = frame api D s s'"
  by (simp_all add: frame_def)

lemma release_opt_spec:
  assumes "memory_docs api" and "heap_ok api s" and "\<And>i. io = Some i \<Longrightarrow> alive s i"
  shows "heap_ok api (release_opt api io s)" and "frame api D s (release_opt api io s)"
    and "dump_file (release_opt api io s) = dump_file s"
    and "length (heap (release_opt api io s)) = length (heap s)"
    and "use_count (release_opt api io s) j = use_count s j - (if io = Some j then 1 else 0)"
  using assms by (cases io; simp add: heap_ok_release frame_release alive_bound)+

lemma set_current_map_spec:
  assumes "memory_docs api" and "heap_ok api s" and "alive s i"
    and old: "\<And>j. current_map (dump_file s) = Some j \<Longrightarrow> alive s j \<and> j \<noteq> i"
  shows "heap_ok api (set_current_map api i s)" and "frame api D s (set_current_map api i s)"
    and "dump_file (set_current_map api i s) = (dump_file s)\<lparr>current_map := Some i, map_offset := 0\<rparr>"
    and "length (heap (set_current_map api i s)) = length (heap s)"
    and "j < length (heap s) \<Longrightarrow> use_count (set_current_map api i s) j
      = use_count s j - (if current_map (dump_file s) = Some j then 1 else 0)"
proof -
  define s1 where "s1 = (retain i s)\<lparr>dump_file := (dump_file s)\<lparr>current_map := Some i, map_offset := 0\<rparr>\<rparr>"
  define s2 where "s2 = release_opt api (current_map (dump_file s)) s1"
  have eq: "set_current_map api i s = release api i s2"
    by (simp add: set_current_map_def s1_def s2_def Let_def)
  have il: "i < length (heap s)" using assms(3) by (rule alive_bound)
  have o: "alive s1 j" if "current_map (dump_file s) = Some j" for j
    using old [OF that] assms(3) by (simp add: s1_def)
  have h1: "heap_ok api s1" using heap_ok_retain [OF assms(2,3)] by (simp add: s1_def)
  note r = release_opt_spec [OF assms(1) h1 o, of "current_map (dump_file s)", folded s2_def, simplified]
  have c2: "use_count s2 j = (if j = i then Suc (use_count s i) else use_count s j)
      - (if current_map (dump_file s) = Some j then 1 else 0)" for j
    using r(5) [of j] il by (simp add: s1_def)
  have "length (heap s2) = length (heap s)" using r(4) by (simp add: s1_def)
  moreover have "use_count s2 i = Suc (use_count s i)"
    using c2 [of i] old by auto
  ultimately have a2: "alive s2 i" using il by (simp add: alive_def)
  show "heap_ok api (set_current_map api i s)"
    unfolding eq using assms(1) r(1) a2 by (rule heap_ok_release)
  have "frame api D s s1" using frame_retain [OF assms(3)] by (simp add: s1_def)
  then show "frame api D s (set_current_map api i s)"
    unfolding eq using r(2) frame_release [OF assms(1) r(1) a2] by (blast intro: frame_trans)
  show "dump_file (set_current_map api i s) = (dump_file s)\<lparr>current_map := Some i, map_offset := 0\<rparr>"
    "length (heap (set_current_map api i s)) = length (heap s)"
    using r(3,4) by (simp_all add: eq s1_def)
  show "j < length (heap s) \<Longrightarrow> use_count (set_current_map api i s) j
      = use_count s j - (if current_map (dump_file s) = Some j then 1 else 0)"
    using old c2 alive_bound [OF a2] by (auto simp: eq)
qed

text \<open>The bytes a write of \<open>size\<close> bytes leaves: the start of the buffer, or zeros for a null one.\<close>

definition written :: "u8 list option \<Rightarrow> nat \<Rightarrow> u8 list" where
  "written buffer n = (case buffer of Some bs \<Rightarrow> take n bs | None \<Rightarrow> replicate n 0)"

lemma length_written [simp]: "(\<And>bs. buffer = Some bs \<Longrightarrow> n \<le> length bs) \<Longrightarrow> length (written buffer n) = n"
  by (auto simp: written_def split: option.splits)

text \<open>Ranges of the file that end at or before position \<open>k\<close>.\<close>

definition upto_pos :: "nat \<Rightarrow> nat \<Rightarrow> nat \<Rightarrow> bool" where
  "upto_pos k pos n \<longleftrightarrow> pos + n \<le> k"

lemma store_frame:
  assumes "memory_docs api" and "view_shows api (world s) b p (length bs) pos"
  shows "frame api (upto_pos pos) s (s\<lparr>world := store_bytes api p bs (world s)\<rparr>)"
    and "heap_ok api s \<Longrightarrow> heap_ok api (s\<lparr>world := store_bytes api p bs (world s)\<rparr>)"
proof -
  have eq: "map_at (s\<lparr>world := w\<rparr>) = map_at s" "alive (s\<lparr>world := w\<rparr>) = alive s" for w
    by (simp_all add: map_at_def use_count_def alive_def fun_eq_iff)
  have v: "view_shows api (store_bytes api p bs (world s)) = view_shows api (world s)"
    using assms(1) by (simp add: view_shows_def fun_eq_iff)
  show "heap_ok api s \<Longrightarrow> heap_ok api (s\<lparr>world := store_bytes api p bs (world s)\<rparr>)"
    by (simp add: heap_ok_def eq live_map_def maps_file_def v)
  have "load_bytes api (store_bytes api p bs (world s)) q n = load_bytes api (world s) q n"
    if "held api s i q n pos'" "upto_pos pos pos' n" for i q n pos'
    using that
    by (intro load_store_bytes_other [OF assms(1) view_shows_file [OF assms(2)] view_shows_file])
      (auto simp: held_def upto_pos_def)
  then show "frame api (upto_pos pos) s (s\<lparr>world := store_bytes api p bs (world s)\<rparr>)"
    by (simp add: frame_def eq held_def v)
qed


lemma maps_file_dst:
  assumes "maps_file api w m start" and "mm_data m \<noteq> 0" and "unat k + n \<le> unat (mm_length m)"
  shows "mm_data m + k \<noteq> 0" and "view_shows api w (get_mapping_start m) (mm_data m + k) n (start + unat k)"
proof -
  have v: "view_shows api w (get_mapping_start m) (mm_data m) (unat (mm_length m)) start"
    using assms(1) by (simp add: maps_file_def)
  from view_shows_sub [OF v assms(3)]
  show "view_shows api w (get_mapping_start m) (mm_data m + k) n (start + unat k)" by simp
  have "unat (mm_data m) + unat k < 2 ^ 64" using v assms(3) by (simp add: view_shows_def)
  then have "unat (mm_data m + k) = unat (mm_data m) + unat k" by (rule unat_add_no_wrap)
  moreover have "0 < unat (mm_data m)" using assms(2) by (simp add: unat_gt_0)
  ultimately show "mm_data m + k \<noteq> 0" by (metis add_gr_0 less_irrefl unsigned_0)
qed

lemma refs_ok_retain:
  assumes "refs_ok refs s" and "current_map (dump_file s) = Some i"
    and "length (heap s') = length (heap s)" and "use_count s' = use_count (retain i s)"
    and "current_map (dump_file s') = current_map (dump_file s)"
  shows "refs_ok (refs(i := Suc (refs i))) s'"
proof -
  have "i < length (heap s)" using refs_ok_current [OF assms(1,2)] by (rule alive_bound)
  with assms show ?thesis by (auto simp: refs_ok_def)
qed

lemma write_current_spec:
  assumes "memory_docs api" and inv: "heap_ok api s" "map_ok api s" "refs_ok refs s"
    and size: "unat (fsize (dump_file s)) \<le> 4 * (unat (foffset (dump_file s)) + unat sz) + 4095"
    and room: "unat (foffset (dump_file s)) + unat sz \<le> unat (fsize (dump_file s))"
    and cm: "current_map (dump_file s) \<noteq> None"
    and buf: "\<And>bs. buffer = Some bs \<Longrightarrow> unat sz \<le> length bs"
  shows "\<exists>p i s'. write_current api buffer sz s = Inr (p, Some i, s') \<and> p \<noteq> 0
    \<and> store_inv api (refs(i := Suc (refs i))) s'
    \<and> frame api (upto_pos (unat (foffset (dump_file s)))) s s'
    \<and> held api s' i p (unat sz) (unat (foffset (dump_file s)))
    \<and> load_bytes api (world s') p (unat sz) = written buffer (unat sz)
    \<and> unat (foffset (dump_file s')) = unat (foffset (dump_file s)) + unat sz"
proof -
  let ?f = "dump_file s"
  obtain i where i: "current_map ?f = Some i" using cm by blast
  define m where "m = map_at s i"
  from inv(2) i obtain start where al: "alive s i" and mf: "maps_file api (world s) m start"
    and pos: "start + unat (map_offset ?f) = unat (foffset ?f)" "start + unat (mm_length m) = unat (fsize ?f)"
    and fv: "fvalid ?f" "file_handle ?f \<noteq> invalid_handle_value"
    by (auto simp: map_ok_def Let_def m_def)
  from inv(1) al have "mm_data m \<noteq> 0" by (simp add: heap_ok_def live_map_def m_def)
  have fits: "unat (map_offset ?f) + unat sz \<le> unat (mm_length m)" using pos room by simp
  define p where "p = mm_data m + map_offset ?f"
  note dst = maps_file_dst [OF mf \<open>mm_data m \<noteq> 0\<close> fits, folded p_def, unfolded pos(1)]
  define bs where "bs = written buffer (unat sz)"
  have lbs: "length bs = unat sz" using buf by (simp add: bs_def)
  define s1 where "s1 = retain i s"
  have al1: "alive s1 j = alive s j" for j using al by (simp add: s1_def)
  define s2 where "s2 = s1\<lparr>world := store_bytes api p bs (world s1)\<rparr>"
  define s' where "s' = s2\<lparr>dump_file := ?f\<lparr>map_offset := map_offset ?f + sz, foffset := foffset ?f + sz\<rparr>\<rparr>"
  have run: "write_current api buffer sz s = Inr (p, Some i, s')"
    using i fits buf dst(1)
    by (auto simp: write_current_def Let_def s'_def s2_def s1_def m_def [symmetric] p_def [symmetric] bs_def
        written_def split: option.splits)
  have v1: "view_shows api (world s1) (get_mapping_start m) p (length bs) (unat (foffset ?f))"
    using dst(2) by (simp add: s1_def lbs)
  note sf = store_frame [OF assms(1) v1, folded s2_def]
  have h1: "heap_ok api s1" unfolding s1_def using inv(1) al by (rule heap_ok_retain)
  have frame: "frame api (upto_pos (unat (foffset ?f))) s s'"
    using frame_trans [OF frame_retain [OF al, folded s1_def] sf(1)] by (simp add: s'_def)
  have hs: "alive s' i" "map_at s' i = m" "length (heap s') = length (heap s)" "use_count s' = use_count s1"
    using al by (simp_all add: s'_def s2_def s1_def m_def map_at_def use_count_def alive_def fun_eq_iff retain_def)
  have views: "view_of api (world s') = view_of api (world s)"
    using assms(1) by (simp add: s'_def s2_def s1_def)
  have held: "held api s' i p (unat sz) (unat (foffset ?f))"
    using dst(2) hs(1,2) by (simp add: held_def view_shows_def views)
  have data: "load_bytes api (world s') p (unat sz) = bs"
    using load_store_bytes_same [OF assms(1) view_shows_file [OF v1]] by (simp add: s'_def s2_def lbs)
  have off: "unat (foffset ?f + sz) = unat (foffset ?f) + unat sz"
    using room by (intro unat_add_no_wrap) (rule le_less_trans, assumption, simp)
  have moff: "unat (map_offset ?f + sz) = unat (map_offset ?f) + unat sz"
    using fits by (intro unat_add_no_wrap) (rule le_less_trans, assumption, simp)
  have "maps_file api (world s') m start" using mf by (simp add: maps_file_def view_shows_def views)
  moreover have df: "dump_file s' = ?f\<lparr>map_offset := map_offset ?f + sz, foffset := foffset ?f + sz\<rparr>"
    by (simp add: s'_def)
  ultimately have "file_ok api s'"
    unfolding file_ok_def map_ok_def Let_def df using size fv pos fits hs(1,2) i off moff
    by (auto intro!: exI [of _ start])
  moreover have "heap_ok api s'" using sf(2) [OF h1] by (simp add: s'_def)
  moreover have "refs_ok (refs(i := Suc (refs i))) s'"
    by (rule refs_ok_retain [OF inv(3) i]) (simp_all add: df hs(3,4) s1_def)
  ultimately show ?thesis
    using run dst(1) frame held data off df by (auto simp: store_inv_def bs_def)
qed

lemma m_write_current_branch:
  assumes "\<not> fsize (dump_file s) < foffset (dump_file s) + sz"
  shows "m_write api buffer sz s = write_current api buffer sz s"
  using assms by (simp add: m_write_def Let_def)

lemma refs_ok_new_map:
  assumes "refs_ok refs s" and "i = length (heap s)" and "length (heap s') = Suc i"
    and "current_map (dump_file s') = Some i" and "use_count s' i = 1"
    and "\<And>j. j < i \<Longrightarrow> use_count s' j = use_count s j - (if current_map (dump_file s) = Some j then 1 else 0)"
  shows "refs_ok refs s'"
proof -
  have "refs i = 0" using assms(1,2) by (simp add: refs_ok_def)
  then have "use_count s' j = refs j + (if current_map (dump_file s') = Some j then 1 else 0)" if "j \<le> i" for j
    using assms that by (cases "j = i") (auto simp: refs_ok_def)
  moreover have "refs j = 0 \<and> Some i \<noteq> Some j" if "Suc i \<le> j" for j
    using assms(1,2) that by (simp add: refs_ok_def)
  ultimately show ?thesis using assms(3,4) by (simp add: refs_ok_def less_Suc_eq_le)
qed


text \<open>Giving up a map that could not be made reaches no view of the other maps.\<close>

lemma frame_release_null:
  assumes "memory_docs api" and "alive s i" and "use_count s i = 1" and "mm_data (map_at s i) = 0"
    and starts: "\<And>j. alive s j \<Longrightarrow> j \<noteq> i \<Longrightarrow> get_mapping_start (map_at s j) \<noteq> 0"
  shows "frame api D s (release api i s)"
proof -
  have "get_mapping_start (map_at s i) = 0" using assms(4) by (simp add: get_mapping_start_def)
  then have k: "keeps_except api 0 (world s) (world (release api i s))"
    using world_release [OF assms(1,2)] assms(3) by simp
  have al: "alive (release api i s) j \<longleftrightarrow> alive s j \<and> j \<noteq> i" for j
    using assms(3) by (auto simp: alive_release [OF assms(2)])
  have "view_shows api (world (release api i s)) (get_mapping_start (map_at s j)) p n pos
      \<and> load_bytes api (world (release api i s)) p n = load_bytes api (world s) p n"
    if "alive s j" "j \<noteq> i" "view_shows api (world s) (get_mapping_start (map_at s j)) p n pos" for j p n pos
    using that starts k by (blast intro: view_shows_keeps_except load_bytes_keeps_except)
  then show ?thesis by (auto simp: frame_def held_def al)
qed

lemma heap_ok_frame:
  assumes "heap_ok api s" and "frame api (\<lambda>_ _. True) s s'" and "\<And>j. alive s' j \<Longrightarrow> j < length (heap s)"
  shows "heap_ok api s'"
proof -
  have a: "alive s j \<and> map_at s' j = map_at s j" if "alive s' j" for j
    using assms(2) assms(3) [OF that] that unfolding frame_def by blast
  have "live_map api (world s') (map_at s' j)" if "alive s' j" for j
  proof -
    have l: "live_map api (world s) (map_at s j)" using assms(1) a [OF that] by (simp add: heap_ok_def)
    then obtain off where "maps_file api (world s) (map_at s j) off" by (auto simp: live_map_def)
    moreover from this have "held api s j (mm_data (map_at s j)) (unat (mm_length (map_at s j))) off"
      using a [OF that] by (simp add: held_def maps_file_def)
    then have "held api s' j (mm_data (map_at s j)) (unat (mm_length (map_at s j))) off"
      using assms(2) that unfolding frame_def by blast
    ultimately show ?thesis using l a [OF that] unfolding live_map_def maps_file_def held_def by metis
  qed
  then show ?thesis using assms(1) a unfolding heap_ok_def by metis
qed

text \<open>What \<open>write\<close> does when the file has to grow: a new map behind all that was written.\<close>

lemma grow_spec:
  assumes "memory_docs api" and "disk_ok api" and inv: "store_inv api refs s"
    and small: "unat (foffset (dump_file s)) + unat sz \<le> 2 ^ 60"
    and grow: "unat (fsize (dump_file s)) < unat (foffset (dump_file s)) + unat sz"
    and dm: "do_map api (foffset (dump_file s)) (snd (expand_size api sz s)) = (i, s2)"
  shows "mm_data (map_at s2 i) = 0 \<Longrightarrow> s4 = release api i s2 \<Longrightarrow>
      frame api D s s4 \<and> heap_ok api s4 \<and> refs_ok refs s4"
    and "mm_data (map_at s2 i) \<noteq> 0 \<Longrightarrow> 0 < unat sz \<Longrightarrow> s3 = set_current_map api i s2 \<Longrightarrow>
      heap_ok api s3 \<and> map_ok api s3 \<and> refs_ok refs s3 \<and> frame api D s s3
      \<and> foffset (dump_file s3) = foffset (dump_file s) \<and> current_map (dump_file s3) = Some i
      \<and> unat (foffset (dump_file s)) + unat sz \<le> unat (fsize (dump_file s3))
      \<and> unat (fsize (dump_file s3)) \<le> 4 * (unat (foffset (dump_file s)) + unat sz) + 4095"
proof -
  let ?f = "dump_file s"
  have ok: "heap_ok api s" "file_ok api s" "refs_ok refs s" using inv by (simp_all add: store_inv_def)
  obtain w n where e: "expand_size api sz s = (True, s\<lparr>world := w, dump_file := ?f\<lparr>fsize := n\<rparr>\<rparr>)"
    and kw: "keeps api (world s) w"
    and n: "unat (foffset ?f) + unat sz \<le> unat n" "unat n \<le> 4 * (unat (foffset ?f) + unat sz) + 4095"
    using expand_size_ok [OF assms(1,2) ok(2) small grow] by blast
  define s1 where "s1 = s\<lparr>world := w, dump_file := ?f\<lparr>fsize := n\<rparr>\<rparr>"
  have fr0: "frame api D' s s1" for D' using frame_world [of api s w s1 D'] kw by (simp add: s1_def)
  have s1: "heap_ok api s1" "frame api D s s1" "alive s1 = alive s" "use_count s1 = use_count s"
    "heap s1 = heap s" "dump_file s1 = ?f\<lparr>fsize := n\<rparr>"
    using heap_ok_world [OF ok(1) kw, of s1] fr0 kw
    by (simp_all add: s1_def alive_def use_count_def fun_eq_iff)
  from dm e have dm1: "do_map api (foffset ?f) s1 = (i, s2)" by (simp add: s1_def)
  note d = do_map_spec [OF assms(1) s1(1) dm1]
  have al: "alive s2 i" by (simp add: d(4))
  have new: "heap_ok api s2 \<and> maps_file api (world s2) (map_at s2 i) (unat (foffset ?f))
      \<and> unat (mm_length (map_at s2 i)) = unat n - unat (foffset ?f)"
    if "mm_data (map_at s2 i) \<noteq> 0" "0 < unat sz"
    using d(8) [OF that(1)] that(2) n(1) by (simp add: s1(6))
  show "frame api D s s4 \<and> heap_ok api s4 \<and> refs_ok refs s4"
    if z: "mm_data (map_at s2 i) = 0" and s4: "s4 = release api i s2"
  proof -
    have st: "get_mapping_start (map_at s2 j) \<noteq> 0" if j: "alive s2 j" "j \<noteq> i" for j
    proof -
      from j have a: "alive s1 j" by (simp add: d(4))
      then have "map_at s2 j = map_at s1 j"
        using d(3) [of "\<lambda>_ _. True"] alive_bound [of s1 j] j(1) unfolding frame_def by blast
      with s1(1) a show ?thesis by (auto simp: heap_ok_def live_map_def maps_file_def)
    qed
    note fr = frame_release_null [OF assms(1) al d(5) z st, folded s4]
    have f: "frame api D' s s4" for D'
      by (rule frame_trans [OF frame_trans [OF fr0 d(3)] fr])
    have al4: "alive s4 j \<longleftrightarrow> alive s j" for j
      using alive_release [OF al, of api j] d(5) alive_bound [of s j] by (auto simp: s4 d(1,4) s1)
    then have "heap_ok api s4" using heap_ok_frame [OF ok(1) f] alive_bound by blast
    moreover have "refs_ok refs s4"
      using ok(3) d(5,6,7) by (auto simp: refs_ok_def s4 d(1,2) s1 less_Suc_eq)
    ultimately show ?thesis using f by blast
  qed
  assume nz: "mm_data (map_at s2 i) \<noteq> 0" and sz: "0 < unat sz" and s3: "s3 = set_current_map api i s2"
  have old: "alive s2 j \<and> j \<noteq> i" if "current_map (dump_file s2) = Some j" for j
    using that refs_ok_current [OF ok(3), of j] alive_bound [of s j] by (auto simp: d(1,2,4) s1)
  have h2: "heap_ok api s2" using new nz sz by blast
  note sc = set_current_map_spec [OF assms(1) h2 al old, folded s3]
  have c3: "use_count s3 i = 1" using sc(5) [of i] old d(5,7) by auto
  then have al3: "alive s3 i" using sc(4) d(7) by (simp add: alive_def)
  have m3: "map_at s3 i = map_at s2 i"
    using sc(2) [of "\<lambda>_ _. True"] al3 alive_bound [OF al] unfolding frame_def by blast
  have h: "held api s2 i (mm_data (map_at s2 i)) (unat (mm_length (map_at s2 i))) (unat (foffset ?f))"
    using new [OF nz sz] al unfolding held_def maps_file_def by blast
  have "held api s3 i (mm_data (map_at s2 i)) (unat (mm_length (map_at s2 i))) (unat (foffset ?f))"
    using sc(2) [of "\<lambda>_ _. True"] h al3 unfolding frame_def by blast
  then have mf: "maps_file api (world s3) (map_at s2 i) (unat (foffset ?f))"
    using new [OF nz sz] unfolding held_def maps_file_def m3 by blast
  have df: "dump_file s3 = ?f\<lparr>fsize := n, current_map := Some i, map_offset := 0\<rparr>"
    using sc(3) by (simp add: d(2) s1)
  have "fvalid ?f" "file_handle ?f \<noteq> invalid_handle_value"
    using ok(2) by (simp_all add: file_ok_def map_ok_def Let_def)
  then have "map_ok api s3"
    unfolding map_ok_def Let_def df using al3 mf new nz sz n(1)
    by (auto simp: m3 intro!: exI [of _ "unat (foffset ?f)"])
  moreover have "refs_ok refs s3"
  proof (rule refs_ok_new_map [OF ok(3)])
    show "i = length (heap s)" using d(1) by (simp add: s1)
    show "length (heap s3) = Suc i" using sc(4) d(7) by simp
    show "current_map (dump_file s3) = Some i" "use_count s3 i = 1" using c3 by (simp_all add: df)
    show "use_count s3 j = use_count s j - (if current_map ?f = Some j then 1 else 0)" if "j < i" for j
      using sc(5) [of j] d(6) [OF that] d(7) that by (simp add: d(2) s1)
  qed
  moreover have "frame api D s s3"
    using frame_trans [OF frame_trans [OF s1(2) d(3)] sc(2)] .
  ultimately show "heap_ok api s3 \<and> map_ok api s3 \<and> refs_ok refs s3 \<and> frame api D s s3
      \<and> foffset (dump_file s3) = foffset (dump_file s) \<and> current_map (dump_file s3) = Some i
      \<and> unat (foffset (dump_file s)) + unat sz \<le> unat (fsize (dump_file s3))
      \<and> unat (fsize (dump_file s3)) \<le> 4 * (unat (foffset (dump_file s)) + unat sz) + 4095"
    using sc(1) n by (simp add: df)
qed

text \<open>
  The contract of \<open>write\<close>. Either no mapping could be made, and everything written before is
  still held by its maps; or it returns a range that holds the bytes, at the old end of the
  written part of the file, together with one more pointer to the map of the range.
\<close>

definition wrote :: "'w win32 \<Rightarrow> (nat \<Rightarrow> nat) \<Rightarrow> u8 list \<Rightarrow> 'w sys \<Rightarrow> u64 \<Rightarrow> nat \<Rightarrow> 'w sys \<Rightarrow> bool" where
  "wrote api refs bs s p i s' \<longleftrightarrow> p \<noteq> 0 \<and> store_inv api (refs(i := Suc (refs i))) s'
     \<and> frame api (upto_pos (unat (foffset (dump_file s)))) s s'
     \<and> held api s' i p (length bs) (unat (foffset (dump_file s)))
     \<and> load_bytes api (world s') p (length bs) = bs
     \<and> unat (foffset (dump_file s')) = unat (foffset (dump_file s)) + length bs"

lemma m_write_spec:
  assumes docs: "memory_docs api" and "disk_ok api" and inv: "store_inv api refs s" and "0 < unat sz"
    and small: "unat (foffset (dump_file s)) + unat sz \<le> 2 ^ 60"
    and buf: "\<And>bs. buffer = Some bs \<Longrightarrow> unat sz \<le> length bs"
  shows "(\<exists>s'. m_write api buffer sz s = Inr (0, None, s') \<and> frame api (\<lambda>_ _. True) s s'
      \<and> heap_ok api s' \<and> refs_ok refs s')
    \<or> (\<exists>p i s'. m_write api buffer sz s = Inr (p, Some i, s') \<and> wrote api refs (written buffer (unat sz)) s p i s')"
proof -
  let ?f = "dump_file s"
  have ok: "heap_ok api s" "file_ok api s" "refs_ok refs s" using inv by (simp_all add: store_inv_def)
  have sum: "unat (foffset ?f + sz) = unat (foffset ?f) + unat sz"
    using small by (intro unat_add_no_wrap) simp
  have lw: "length (written buffer (unat sz)) = unat sz" using buf by simp
  show ?thesis
  proof (cases "fsize ?f < foffset ?f + sz")
    case False
    then have room: "unat (foffset ?f) + unat sz \<le> unat (fsize ?f)" by (simp add: word_less_nat_alt sum)
    with \<open>0 < unat sz\<close> have cm: "current_map ?f \<noteq> None"
      using ok(2) by (auto simp: file_ok_def map_ok_def Let_def split: option.splits)
    have "unat (fsize ?f) \<le> 4 * (unat (foffset ?f) + unat sz) + 4095"
      using ok(2) by (simp add: file_ok_def)
    with ok have "map_ok api s" by (simp add: file_ok_def)
    from write_current_spec [OF docs ok(1) this ok(3) \<open>unat (fsize ?f) \<le> _\<close> room cm buf]
    show ?thesis unfolding wrote_def lw m_write_current_branch [OF False] by blast
  next
    case True
    then have grow: "unat (fsize ?f) < unat (foffset ?f) + unat sz" by (simp add: word_less_nat_alt sum)
    obtain i s2 where dm: "do_map api (foffset ?f) (snd (expand_size api sz s)) = (i, s2)" by force
    note g = grow_spec [OF docs assms(2) inv small grow dm]
    have run: "m_write api buffer sz s = (if mm_data (map_at s2 i) \<noteq> 0
        then write_current api buffer sz (set_current_map api i s2) else Inr (0, None, release api i s2))"
      using True by (simp add: m_write_def Let_def dm)
    show ?thesis
    proof (cases "mm_data (map_at s2 i) = 0")
      case True
      with run have "m_write api buffer sz s = Inr (0, None, release api i s2)" by simp
      with g(1) [OF True refl] show ?thesis by blast
    next
      case False
      define s3 where "s3 = set_current_map api i s2"
      from g(2) [OF False \<open>0 < unat sz\<close> s3_def]
      have r: "heap_ok api s3" "map_ok api s3" "refs_ok refs s3"
        "unat (fsize (dump_file s3)) \<le> 4 * (unat (foffset (dump_file s3)) + unat sz) + 4095"
        "unat (foffset (dump_file s3)) + unat sz \<le> unat (fsize (dump_file s3))"
        "current_map (dump_file s3) \<noteq> None"
        and fo: "foffset (dump_file s3) = foffset ?f"
        and fr: "frame api (upto_pos (unat (foffset ?f))) s s3"
        by auto
      from run False have "m_write api buffer sz s = write_current api buffer sz s3" by (simp add: s3_def)
      moreover obtain p j s' where w: "write_current api buffer sz s3 = Inr (p, Some j, s')"
        "p \<noteq> 0" "store_inv api (refs(j := Suc (refs j))) s'"
        "frame api (upto_pos (unat (foffset ?f))) s3 s'" "held api s' j p (unat sz) (unat (foffset ?f))"
        "load_bytes api (world s') p (unat sz) = written buffer (unat sz)"
        "unat (foffset (dump_file s')) = unat (foffset ?f) + unat sz"
        using write_current_spec [OF docs r buf] unfolding fo by blast
      moreover have "wrote api refs (written buffer (unat sz)) s p j s'"
        unfolding wrote_def lw using w(2-7) frame_trans [OF fr w(4)] by blast
      ultimately show ?thesis by metis
    qed
  qed
qed


subsection \<open>A new dump file\<close>

definition no_refs :: "nat \<Rightarrow> nat" where
  "no_refs i = 0"

lemma m_file_new_fields:
  assumes "m_file_new api name w = (f, w')"
  shows "foffset f = 0" "current_map f = None" "map_offset f = 0" "filename f = name"
    "fvalid f \<Longrightarrow> file_handle f \<noteq> invalid_handle_value"
  using assms by (auto simp: m_file_new_def Let_def split: prod.splits option.splits if_splits)

lemma new_store_inv:
  assumes "m_file_new api name w = (f, w')" and "fvalid f" and "fsize f = 0"
  shows "store_inv api no_refs \<lparr>world = w', heap = [], dump_file = f\<rparr>"
  using m_file_new_fields [OF assms(1)] assms(2,3)
  by (simp add: store_inv_def heap_ok_def alive_def file_ok_def map_ok_def refs_ok_def no_refs_def)

lemma sample_disk_ok: "disk_ok sample_api"
  by (simp add: disk_ok_def sample_api_def)

text \<open>The state of the sample platform after \<open>m_file(''dump.bin'')\<close>.\<close>

definition sample_sys :: "mbi list \<Rightarrow> (u64 \<Rightarrow> u8) \<Rightarrow> sample sys" where
  "sample_sys regions mem =
     (let (f, w) = m_file_new sample_api ''dump.bin'' (sample_world regions mem)
      in \<lparr>world = w, heap = [], dump_file = f\<rparr>)"

lemma sample_sys_inv:
  "store_inv sample_api no_refs (sample_sys regions mem)" "foffset (dump_file (sample_sys regions mem)) = 0"
proof -
  obtain f w where n: "m_file_new sample_api ''dump.bin'' (sample_world regions mem) = (f, w)" by force
  have "fvalid f" "fsize f = 0"
    using n by (auto simp: m_file_new_def sample_api_def sample_world_def invalid_handle_value_def Let_def)
  with n show "store_inv sample_api no_refs (sample_sys regions mem)"
    "foffset (dump_file (sample_sys regions mem)) = 0"
    using new_store_inv [OF n] m_file_new_fields(1) [OF n] by (simp_all add: sample_sys_def)
qed

lemma do_map_heap:
  assumes "do_map api off s = (i, s')"
  shows "i = length (heap s)" "length (heap s') = Suc (length (heap s))" "use_count s' (length (heap s)) = 1"
    "dump_file s' = dump_file s"
  using assms by (auto simp: do_map_def use_count_def Let_def split: prod.splits)

lemma map_at_release_shared:
  "i < length (heap s) \<Longrightarrow> use_count s i \<noteq> 1 \<Longrightarrow> map_at (release api i s) i = map_at s i"
  by (simp add: release_def)

lemma set_current_map_heap:
  assumes "i < length (heap s)" and "use_count s i = 1" and "current_map (dump_file s) \<noteq> Some i"
  shows "map_at (set_current_map api i s) i = map_at s i"
    "dump_file (set_current_map api i s) = (dump_file s)\<lparr>current_map := Some i, map_offset := 0\<rparr>"
proof -
  define s1 where "s1 = (retain i s)\<lparr>dump_file := (dump_file s)\<lparr>current_map := Some i, map_offset := 0\<rparr>\<rparr>"
  define s2 where "s2 = release_opt api (current_map (dump_file s)) s1"
  have eq: "set_current_map api i s = release api i s2"
    by (simp add: set_current_map_def s1_def s2_def Let_def)
  have "length (heap s2) = length (heap s) \<and> map_at s2 i = map_at s i \<and> use_count s2 i = 2
      \<and> dump_file s2 = dump_file s1"
    using assms unfolding s2_def
    by (cases "current_map (dump_file s)") (auto simp: s1_def retain_def release_def use_count_def map_at_def Let_def split: prod.splits)
  then show "map_at (set_current_map api i s) i = map_at s i"
    "dump_file (set_current_map api i s) = (dump_file s)\<lparr>current_map := Some i, map_offset := 0\<rparr>"
    using assms(1) by (simp_all add: eq map_at_release_shared s1_def)
qed

text \<open>The definitions that unfold to run \<open>write\<close> on the sample platform.\<close>

lemmas sample_write_defs = m_write_def expand_size_def set_file_size_def do_map_def active_map_new_eq
  map_at_def make_mmap_sink_def make_mmap_def map_path_def open_file_def open_file_helper_def map_handle_def
  query_file_size_def memory_map_def make_offset_page_aligned_def unmap_closed sample_api_fields sample_map_def
  sample_sys_def m_file_new_def page_align_def PAGE_SIZE_def write_current_def
  set_current_map_def retain_def release_def use_count_def sample_world_def invalid_handle_value_def Let_def

lemma sample_write:
  "case m_write sample_api (Some [1, 2, 3]) 3 (sample_sys [] (\<lambda>_. 0)) of
     Inl e \<Rightarrow> False | Inr (p, act, s) \<Rightarrow> p \<noteq> 0"
  by (simp add: sample_write_defs)

subsection \<open>Properties\<close>

text \<open>
  C17: \<open>write\<close> reads back. In a state of the dump file that its operations maintain, a write of a
  non-empty buffer (or of zeros) commits no fault, and unless it reports \<open>nullptr\<close> it returns a
  range that holds exactly the bytes, together with one more pointer to its map; the write
  position moves by the size; every range handed out earlier whose map is still referenced
  keeps its place and its bytes, across the growth and remapping of the file.
\<close>

theorem m_write_reads_back:
  assumes "memory_docs api" and "disk_ok api" and "store_inv api refs s" and "0 < unat sz"
    and "unat (foffset (dump_file s)) + unat sz \<le> 2 ^ 60"
    and "\<And>bs. buffer = Some bs \<Longrightarrow> unat sz \<le> length bs"
  shows "\<exists>p act s'. m_write api buffer sz s = Inr (p, act, s')
    \<and> (p \<noteq> 0 \<longrightarrow> (\<exists>i. act = Some i \<and> store_inv api (refs(i := Suc (refs i))) s'
         \<and> held api s' i p (unat sz) (unat (foffset (dump_file s)))))
    \<and> (p \<noteq> 0 \<longrightarrow> load_bytes api (world s') p (unat sz) = written buffer (unat sz)
         \<and> unat (foffset (dump_file s')) = unat (foffset (dump_file s)) + unat sz)
    \<and> (\<forall>j q n pos. held api s j q n pos \<longrightarrow> 0 < refs j \<longrightarrow> pos + n \<le> unat (foffset (dump_file s)) \<longrightarrow>
         held api s' j q n pos \<and> load_bytes api (world s') q n = load_bytes api (world s) q n)"
proof -
  have keep: "held api s' j q n pos \<and> load_bytes api (world s') q n = load_bytes api (world s) q n"
    if "frame api (upto_pos (unat (foffset (dump_file s)))) s s'" "refs_ok refs' s'" "0 < refs j"
      "\<And>j. refs j \<le> refs' j" "held api s j q n pos" "pos + n \<le> unat (foffset (dump_file s))"
    for s' refs' j q n pos
  proof -
    have "alive s' j" using that(2) less_le_trans [OF that(3,4)] by (rule refs_ok_alive)
    with that(1,5,6) show ?thesis unfolding frame_def upto_pos_def by blast
  qed
  have lw: "length (written buffer (unat sz)) = unat sz" using assms(6) by simp
  have "(\<exists>s'. m_write api buffer sz s = Inr (0, None, s') \<and> frame api (\<lambda>_ _. True) s s'
      \<and> heap_ok api s' \<and> refs_ok refs s')
    \<or> (\<exists>p i s'. m_write api buffer sz s = Inr (p, Some i, s') \<and> wrote api refs (written buffer (unat sz)) s p i s')"
    by (rule m_write_spec [OF assms(1-5)]) (rule assms(6))
  then show ?thesis
  proof (elim disjE exE conjE)
    fix s'
    assume "m_write api buffer sz s = Inr (0, None, s')" "frame api (\<lambda>_ _. True) s s'" "refs_ok refs s'"
    moreover from this(2) have "frame api (upto_pos (unat (foffset (dump_file s)))) s s'"
      by (simp add: frame_def)
    ultimately show ?thesis using keep by blast
  next
    fix p i s'
    assume w: "m_write api buffer sz s = Inr (p, Some i, s')" "wrote api refs (written buffer (unat sz)) s p i s'"
    then have f: "frame api (upto_pos (unat (foffset (dump_file s)))) s s'"
      and r: "refs_ok (refs(i := Suc (refs i))) s'"
      by (simp_all add: wrote_def store_inv_def)
    have "\<forall>j q n pos. held api s j q n pos \<longrightarrow> 0 < refs j \<longrightarrow> pos + n \<le> unat (foffset (dump_file s)) \<longrightarrow>
         held api s' j q n pos \<and> load_bytes api (world s') q n = load_bytes api (world s) q n"
      by (intro allI impI keep [OF f r]) auto
    with w show ?thesis unfolding wrote_def lw by blast
  qed
qed

theorem m_write_reads_back_witness:
  "\<exists>p act s'. m_write sample_api (Some [1, 2, 3]) 3 (sample_sys [] (\<lambda>_. 0)) = Inr (p, act, s')
     \<and> p \<noteq> 0 \<and> load_bytes sample_api (world s') p 3 = [1, 2, 3]"
proof -
  have "unat (foffset (dump_file (sample_sys [] (\<lambda>_. 0)))) + unat (3 :: u64) \<le> 2 ^ 60"
    by (simp add: sample_sys_inv)
  from m_write_reads_back [OF sample_memory_docs sample_disk_ok sample_sys_inv(1) _ this, of "Some [1, 2, 3]"]
    sample_write
  show ?thesis by (auto simp: written_def)
qed

lemma do_map_length:
  assumes "memory_docs api" and "do_map api off s = (i, s')" and "mm_data (map_at s' i) \<noteq> 0"
    and "unat off < unat (fsize (dump_file s))"
  shows "unat (mm_length (map_at s' i)) = unat (fsize (dump_file s)) - unat off"
proof -
  let ?n = "fsize (dump_file s) - off"
  obtain m w where n: "active_map_new api (filename (dump_file s)) off ?n (world s) = (m, w)" by force
  have m: "map_at s' i = m" using assms(2) by (auto simp: do_map_def n Let_def)
  have len: "unat ?n = unat (fsize (dump_file s)) - unat off"
    using assms(4) by (simp add: unat_sub word_le_nat_alt)
  with assms(4) have "?n \<noteq> 0" "unat off + unat ?n < 2 ^ 64" by auto
  with active_map_new_spec(2) [OF assms(1) n] assms(3) show ?thesis by (simp add: m len)
qed

text \<open>
  C39: the result of \<open>expand_size\<close> is not looked at. When the file could not grow and some of it is
  left, but less than the size to write, and that rest can be mapped, \<open>write\<close> makes the map
  current and copies past its end.
\<close>

theorem failed_expand_overruns:
  assumes "memory_docs api" and "expand_size api sz s = (False, s1)"
    and "unat (foffset (dump_file s)) < unat (fsize (dump_file s))"
    and "unat (fsize (dump_file s)) < unat (foffset (dump_file s)) + unat sz"
    and "unat (foffset (dump_file s)) + unat sz < 2 ^ 64"
    and "do_map api (foffset (dump_file s)) s1 = (i, s2)" and "mm_data (map_at s2 i) \<noteq> 0"
    and "\<And>j. current_map (dump_file s) = Some j \<Longrightarrow> j < length (heap s)"
  shows "m_write api buffer sz s = Inl Out_of_bounds"
proof -
  have e: "heap s1 = heap s" "dump_file s1 = dump_file s"
    using assms(2) by (auto simp: expand_size_def Let_def split: if_splits prod.splits)
  have len: "unat (mm_length (map_at s2 i)) < unat sz"
    using do_map_length [OF assms(1,6,7)] assms(3,4) by (simp add: e)
  have grow: "fsize (dump_file s) < foffset (dump_file s) + sz"
    using assms(4,5) by (simp add: word_less_nat_alt unat_add_no_wrap)
  note d = do_map_heap [OF assms(6), unfolded e]
  have i: "i < length (heap s2)" "use_count s2 i = 1" "current_map (dump_file s2) \<noteq> Some i"
    using assms(8) by (auto simp: d)
  have "m_write api buffer sz s = write_current api buffer sz (set_current_map api i s2)"
    using grow assms(7) by (simp add: m_write_def Let_def assms(2,6))
  also have "\<dots> = Inl Out_of_bounds"
    using assms(7) len set_current_map_heap [OF i] i(1)
    by (simp add: write_current_def Let_def)
  finally show ?thesis .
qed

theorem failed_expand_overruns_witness:
  "m_write (sample_api\<lparr>set_end_of_file := (\<lambda>h w. (False, w))\<rparr>) None 32
     \<lparr>world = sample_world [] (\<lambda>_. 0)\<lparr>eof := 16\<rparr>, heap = [],
      dump_file = \<lparr>file_handle = 5, filename = ''dump.bin'', fsize = 16, foffset = 0, fvalid = True,
        current_map = None, map_offset = 0\<rparr>\<rparr> = Inl Out_of_bounds"
proof -
  define api where "api = sample_api\<lparr>set_end_of_file := (\<lambda>h w. (False, w))\<rparr>"
  define s where "s = \<lparr>world = sample_world [] (\<lambda>_. 0)\<lparr>eof := 16\<rparr>, heap = [],
      dump_file = \<lparr>file_handle = 5, filename = ''dump.bin'', fsize = 16, foffset = 0, fvalid = True,
        current_map = None, map_offset = 0\<rparr>\<rparr>"
  have "\<not> fst (expand_size api 32 s)"
    by (simp add: expand_size_def set_file_size_def api_def s_def sample_api_def invalid_handle_value_def Let_def)
  then obtain s1 where e: "expand_size api 32 s = (False, s1)" by (cases "expand_size api 32 s") auto
  obtain i s2 where d: "do_map api (foffset (dump_file s)) s1 = (i, s2)" by force
  have "case expand_size api 32 s of (ok, s1) \<Rightarrow> (case do_map api (foffset (dump_file s)) s1 of (i, s2) \<Rightarrow>
      mm_data (map_at s2 i) \<noteq> 0)"
    by (simp add: expand_size_def set_file_size_def do_map_def active_map_new_eq map_at_def make_mmap_sink_def
        make_mmap_def map_path_def open_file_def open_file_helper_def map_handle_def query_file_size_def
        memory_map_def make_offset_page_aligned_def unmap_closed api_def s_def sample_api_def sample_map_def
        sample_world_def invalid_handle_value_def Let_def)
  then have m: "mm_data (map_at s2 i) \<noteq> 0" by (simp add: e d)
  have docs: "memory_docs api"
    using sample_memory_docs
    by (simp add: memory_docs_def quiet_docs_def store_docs_def map_docs_def unmap_docs_def keeps_def api_def)
  have "m_write api None 32 s = Inl Out_of_bounds"
    by (rule failed_expand_overruns [OF docs e _ _ _ d m]) (simp_all add: s_def)
  then show ?thesis by (simp only: api_def s_def)
qed

text \<open>
  C40: no constructor of \<open>m_file\<close> makes a map, and \<open>write\<close> makes one only when the file has to grow.
  The first write that fits in the size the constructor found or set dereferences a null
  pointer; so does a first write of no bytes.
\<close>

theorem first_write_inside_size_faults:
  assumes "m_file_new api name w = (f, w') \<or> m_file_new_sized api name k w = (f, w')"
    and "n \<le> fsize f"
  shows "m_write api buffer n \<lparr>world = w', heap = [], dump_file = f\<rparr> = Inl Null_deref"
proof -
  have "foffset f = 0 \<and> current_map f = None"
    using assms(1) m_file_new_fields [of api name w]
    by (auto simp: m_file_new_sized_def Let_def split: prod.splits if_splits)
  moreover from this assms(2) have "\<not> fsize f < foffset f + n" by (simp add: leD)
  ultimately show ?thesis
    by (subst m_write_current_branch) (simp_all add: write_current_def Let_def)
qed

theorem first_write_inside_size_faults_witness:
  "(case m_file_new_sized sample_api ''dump.bin'' 100 (sample_world [] (\<lambda>_. 0)) of (f, w) \<Rightarrow>
      fvalid f \<and> m_write sample_api (Some [1, 2]) 2 \<lparr>world = w, heap = [], dump_file = f\<rparr> = Inl Null_deref)
 \<and> m_write sample_api (Some []) 0 (sample_sys [] (\<lambda>_. 0)) = Inl Null_deref"
proof -
  obtain f w where r: "m_file_new_sized sample_api ''dump.bin'' 100 (sample_world [] (\<lambda>_. 0)) = (f, w)" by force
  have "case m_file_new_sized sample_api ''dump.bin'' 100 (sample_world [] (\<lambda>_. 0)) of (f, w) \<Rightarrow>
      fvalid f \<and> 2 \<le> fsize f"
    by (simp add: m_file_new_sized_def m_file_new_def set_file_size_def page_align_def PAGE_SIZE_def
        sample_api_def sample_world_def invalid_handle_value_def Let_def)
  then have f: "fvalid f" "2 \<le> fsize f" by (simp_all add: r)
  obtain g v where n: "m_file_new sample_api ''dump.bin'' (sample_world [] (\<lambda>_. 0)) = (g, v)" by force
  have "m_write sample_api (Some []) 0 \<lparr>world = v, heap = [], dump_file = g\<rparr> = Inl Null_deref"
    by (rule first_write_inside_size_faults [OF disjI1 [OF n]]) simp
  with first_write_inside_size_faults [OF disjI2 [OF r] f(2)] f(1) show ?thesis
    by (simp add: r n sample_sys_def)
qed

end
