(* ===== verification/Dump_Store.thy ===== *)
theory Dump_Store
  imports Dump_Write
begin

text \<open>
  The dump file as a store of byte ranges, the view its clients have of it: allocate a range of
  zeros, overwrite the start of a range, read a range. The locale \<open>range_store\<close> states the
  laws; its client lemma is a simulation: any sequence of allocations and overwrites, from
  whatever client and in whatever order, leaves in each range what a finite map from keys to
  byte lists would hold. The interpretation is on \<open>m_write\<close> and on stores into mapped memory.
\<close>

datatype store_op = Alloc nat nat | Fill nat "u8 list"

text \<open>The specification: a map from keys to byte lists.\<close>

definition overwrite :: "u8 list \<Rightarrow> u8 list \<Rightarrow> u8 list" where
  "overwrite bs old = bs @ drop (length bs) old"

fun spec_step :: "store_op \<Rightarrow> (nat \<Rightarrow> u8 list option) \<Rightarrow> (nat \<Rightarrow> u8 list option)" where
  "spec_step (Alloc k n) c = c(k \<mapsto> replicate n 0)"
| "spec_step (Fill k bs) c = (case c k of None \<Rightarrow> c | Some old \<Rightarrow> c(k \<mapsto> overwrite bs old))"

fun spec_run :: "store_op list \<Rightarrow> (nat \<Rightarrow> u8 list option) \<Rightarrow> (nat \<Rightarrow> u8 list option)" where
  "spec_run [] c = c"
| "spec_run (x # xs) c = spec_run xs (spec_step x c)"

lemma length_overwrite: "length bs \<le> length old \<Longrightarrow> length (overwrite bs old) = length old"
  by (simp add: overwrite_def)

locale range_store =
  fixes inv :: "'s \<Rightarrow> bool"
    and room :: "'s \<Rightarrow> nat \<Rightarrow> bool"
    and live :: "'s \<Rightarrow> 'r \<Rightarrow> bool"
    and apart :: "'s \<Rightarrow> 'r \<Rightarrow> 'r \<Rightarrow> bool"
    and content :: "'s \<Rightarrow> 'r \<Rightarrow> u8 list"
    and alloc :: "nat \<Rightarrow> 's \<Rightarrow> ('r \<times> 's) option"
    and fill :: "'r \<Rightarrow> u8 list \<Rightarrow> 's \<Rightarrow> 's"
  assumes alloc_new: "inv s \<Longrightarrow> room s n \<Longrightarrow> alloc n s = Some (r, s') \<Longrightarrow>
      inv s' \<and> live s' r \<and> content s' r = replicate n 0"
    and alloc_keeps: "inv s \<Longrightarrow> room s n \<Longrightarrow> alloc n s = Some (r, s') \<Longrightarrow> live s q \<Longrightarrow>
      live s' q \<and> content s' q = content s q \<and> apart s' q r"
    and alloc_apart: "inv s \<Longrightarrow> room s n \<Longrightarrow> alloc n s = Some (r, s') \<Longrightarrow> live s p \<Longrightarrow> live s q \<Longrightarrow>
      apart s' p q = apart s p q"
    and apart_sym: "apart s p q \<Longrightarrow> apart s q p"
    and fill_inv: "inv s \<Longrightarrow> live s r \<Longrightarrow> length bs \<le> length (content s r) \<Longrightarrow>
      inv (fill r bs s) \<and> live (fill r bs s) q = live s q \<and> apart (fill r bs s) p q = apart s p q"
    and fill_same: "inv s \<Longrightarrow> live s r \<Longrightarrow> length bs \<le> length (content s r) \<Longrightarrow>
      content (fill r bs s) r = overwrite bs (content s r)"
    and fill_other: "inv s \<Longrightarrow> live s r \<Longrightarrow> length bs \<le> length (content s r) \<Longrightarrow> live s q \<Longrightarrow> apart s q r \<Longrightarrow>
      content (fill r bs s) q = content s q"
begin

text \<open>The ranges a client holds, by key: all live, any two of them apart.\<close>

definition holds :: "'s \<Rightarrow> (nat \<Rightarrow> 'r option) \<Rightarrow> bool" where
  "holds s h \<longleftrightarrow> inv s \<and> (\<forall>k r. h k = Some r \<longrightarrow> live s r)
     \<and> (\<forall>k l r q. k \<noteq> l \<longrightarrow> h k = Some r \<longrightarrow> h l = Some q \<longrightarrow> apart s r q)"

definition contents :: "'s \<Rightarrow> (nat \<Rightarrow> 'r option) \<Rightarrow> (nat \<Rightarrow> u8 list option)" where
  "contents s h k = map_option (content s) (h k)"

lemma holds_alloc:
  assumes "holds s h" and "room s n" and "alloc n s = Some (r, s')" and "h k = None"
  shows "holds s' (h(k \<mapsto> r))" and "contents s' (h(k \<mapsto> r)) = (contents s h)(k \<mapsto> replicate n 0)"
proof -
  have inv: "inv s" and lv: "\<And>l q. h l = Some q \<Longrightarrow> live s q"
    and ap: "\<And>l m p q. l \<noteq> m \<Longrightarrow> h l = Some p \<Longrightarrow> h m = Some q \<Longrightarrow> apart s p q"
    using assms(1) by (auto simp: holds_def)
  note new = alloc_new [OF inv assms(2,3)]
  note old = alloc_keeps [OF inv assms(2,3) lv]
  have "apart s' p q" if "l \<noteq> m" "h l = Some p" "h m = Some q" for l m p q
    using ap [OF that] alloc_apart [OF inv assms(2,3) lv [OF that(2)] lv [OF that(3)]] by simp
  then show "holds s' (h(k \<mapsto> r))"
    using new old by (auto simp: holds_def intro: apart_sym)
  show "contents s' (h(k \<mapsto> r)) = (contents s h)(k \<mapsto> replicate n 0)"
    using new old by (auto simp: contents_def fun_eq_iff split: option.splits intro!: option.map_cong)
qed

lemma holds_fill:
  assumes "holds s h" and "h k = Some r" and "length bs \<le> length (content s r)"
  shows "holds (fill r bs s) h"
    and "contents (fill r bs s) h = (contents s h)(k \<mapsto> overwrite bs (content s r))"
proof -
  have inv: "inv s" and lv: "\<And>l q. h l = Some q \<Longrightarrow> live s q"
    and ap: "\<And>l m p q. l \<noteq> m \<Longrightarrow> h l = Some p \<Longrightarrow> h m = Some q \<Longrightarrow> apart s p q"
    using assms(1) by (auto simp: holds_def)
  note f = fill_inv [OF inv lv [OF assms(2)] assms(3)]
  show "holds (fill r bs s) h" using f lv ap by (auto simp: holds_def)
  have "content (fill r bs s) q = content s q" if "l \<noteq> k" "h l = Some q" for l q
    by (rule fill_other [OF inv lv [OF assms(2)] assms(3) lv [OF that(2)] ap [OF that assms(2)]])
  then show "contents (fill r bs s) h = (contents s h)(k \<mapsto> overwrite bs (content s r))"
    using fill_same [OF inv lv [OF assms(2)] assms(3)] assms(2)
    by (auto simp: contents_def fun_eq_iff intro!: option.map_cong)
qed

text \<open>Only which ranges are held matters, not under which keys.\<close>

lemma holds_rekey:
  assumes "holds s h" and "inj_on f {k. h' k \<noteq> None}" and "\<And>k r. h' k = Some r \<Longrightarrow> h (f k) = Some r"
  shows "holds s h'"
proof -
  have "apart s r q" if kl: "k \<noteq> l" "h' k = Some r" "h' l = Some q" for k l r q
  proof -
    have "f k \<noteq> f l" using assms(2) kl by (auto dest: inj_onD)
    with assms(1) assms(3) [OF kl(2)] assms(3) [OF kl(3)] show ?thesis unfolding holds_def by blast
  qed
  with assms(1,3) show ?thesis unfolding holds_def by blast
qed

text \<open>Running a sequence of operations; None when an allocation fails or an operation is misused.\<close>

fun step :: "store_op \<Rightarrow> (nat \<Rightarrow> 'r option) \<times> 's \<Rightarrow> ((nat \<Rightarrow> 'r option) \<times> 's) option" where
  "step (Alloc k n) (h, s) =
     (if h k = None \<and> room s n
      then map_option (\<lambda>(r, s'). (h(k \<mapsto> r), s')) (alloc n s) else None)"
| "step (Fill k bs) (h, s) =
     (case h k of None \<Rightarrow> None
      | Some r \<Rightarrow> if length bs \<le> length (content s r) then Some (h, fill r bs s) else None)"

fun run :: "store_op list \<Rightarrow> (nat \<Rightarrow> 'r option) \<times> 's \<Rightarrow> ((nat \<Rightarrow> 'r option) \<times> 's) option" where
  "run [] st = Some st"
| "run (x # xs) st = (case step x st of None \<Rightarrow> None | Some st' \<Rightarrow> run xs st')"

lemma step_simulates:
  assumes "holds s h" and "step x (h, s) = Some (h', s')"
  shows "holds s' h' \<and> contents s' h' = spec_step x (contents s h)"
proof (cases x)
  case (Alloc k n)
  with assms(2) obtain r where r: "h k = None" "room s n" "alloc n s = Some (r, s')" "h' = h(k \<mapsto> r)"
    by (auto split: if_splits)
  from holds_alloc [OF assms(1) r(2,3,1)] show ?thesis by (simp add: Alloc r(4))
next
  case (Fill k bs)
  with assms(2) obtain r where r: "h k = Some r" "length bs \<le> length (content s r)" "h' = h" "s' = fill r bs s"
    by (auto split: option.splits if_splits)
  from holds_fill [OF assms(1) r(1,2)] show ?thesis by (simp add: Fill r contents_def)
qed

lemma run_simulates:
  "holds s h \<Longrightarrow> run xs (h, s) = Some (h', s') \<Longrightarrow>
    holds s' h' \<and> contents s' h' = spec_run xs (contents s h)"
proof (induction xs arbitrary: h s)
  case Nil
  then show ?case by simp
next
  case (Cons x xs)
  then obtain h1 s1 where st: "step x (h, s) = Some (h1, s1)" and "run xs (h1, s1) = Some (h', s')"
    by (auto split: option.splits)
  with Cons.IH [of s1 h1] step_simulates [OF Cons.prems(1) st] show ?case by simp
qed

end


subsection \<open>The dump file as a range store\<close>

text \<open>
  A range is the map that holds it, its address and its length; the state carries, beside the
  program's, the number of pointers that the clients hold to each map.
\<close>

type_synonym range = "nat \<times> u64 \<times> nat"

definition pos_of :: "'w win32 \<Rightarrow> 'w sys \<Rightarrow> u64 \<Rightarrow> nat" where
  "pos_of api s p = (case view_of api (world s) p of Some (b, q) \<Rightarrow> q | None \<Rightarrow> 0)"

definition dump_inv :: "'w win32 \<Rightarrow> 'w sys \<times> (nat \<Rightarrow> nat) \<Rightarrow> bool" where
  "dump_inv api st \<longleftrightarrow> memory_docs api \<and> disk_ok api \<and> store_inv api (snd st) (fst st)"

definition dump_room :: "'w sys \<times> (nat \<Rightarrow> nat) \<Rightarrow> nat \<Rightarrow> bool" where
  "dump_room st n \<longleftrightarrow> 0 < n \<and> unat (foffset (dump_file (fst st))) + n \<le> 2 ^ 60"

definition dump_live :: "'w win32 \<Rightarrow> 'w sys \<times> (nat \<Rightarrow> nat) \<Rightarrow> range \<Rightarrow> bool" where
  "dump_live api st r \<longleftrightarrow> (case (st, r) of ((s, refs), (i, p, n)) \<Rightarrow>
     0 < refs i \<and> 0 < n \<and> held api s i p n (pos_of api s p) \<and> pos_of api s p + n \<le> unat (foffset (dump_file s)))"

definition dump_apart :: "'w win32 \<Rightarrow> 'w sys \<times> (nat \<Rightarrow> nat) \<Rightarrow> range \<Rightarrow> range \<Rightarrow> bool" where
  "dump_apart api st r r' \<longleftrightarrow> (case (r, r') of ((i, p, n), (j, q, m)) \<Rightarrow>
     pos_of api (fst st) p + n \<le> pos_of api (fst st) q \<or> pos_of api (fst st) q + m \<le> pos_of api (fst st) p)"

definition dump_content :: "'w win32 \<Rightarrow> 'w sys \<times> (nat \<Rightarrow> nat) \<Rightarrow> range \<Rightarrow> u8 list" where
  "dump_content api st r = (case r of (i, p, n) \<Rightarrow> load_bytes api (world (fst st)) p n)"

definition dump_alloc ::
  "'w win32 \<Rightarrow> nat \<Rightarrow> 'w sys \<times> (nat \<Rightarrow> nat) \<Rightarrow> (range \<times> 'w sys \<times> (nat \<Rightarrow> nat)) option" where
  "dump_alloc api n st =
     (case m_write api None (of_nat n) (fst st) of
        Inr (p, Some i, s') \<Rightarrow>
          if p \<noteq> 0 then Some ((i, p, n), s', (snd st)(i := Suc (snd st i))) else None
      | _ \<Rightarrow> None)"

definition dump_fill ::
  "'w win32 \<Rightarrow> range \<Rightarrow> u8 list \<Rightarrow> 'w sys \<times> (nat \<Rightarrow> nat) \<Rightarrow> 'w sys \<times> (nat \<Rightarrow> nat)" where
  "dump_fill api r bs st =
     (case r of (i, p, n) \<Rightarrow> ((fst st)\<lparr>world := store_bytes api p bs (world (fst st))\<rparr>, snd st))"

lemma pos_of_held: "held api s i p n pos \<Longrightarrow> 0 < n \<Longrightarrow> pos_of api s p = pos"
  by (auto simp: held_def view_shows_def pos_of_def dest: spec [of _ 0])

lemma dump_alloc_wrote:
  assumes "dump_inv api (s, refs)" and "dump_room (s, refs) n"
    and "dump_alloc api n (s, refs) = Some ((i, p, m), (s', refs'))"
  shows "wrote api refs (replicate n 0) s p i s'" and "m = n" and "refs' = refs(i := Suc (refs i))"
proof -
  have un: "unat (of_nat n :: u64) = n"
    using assms(2) by (intro unat_of_nat_u64) (simp add: dump_room_def)
  have pre: "memory_docs api" "disk_ok api" "store_inv api refs s" "0 < unat (of_nat n :: u64)"
    "unat (foffset (dump_file s)) + unat (of_nat n :: u64) \<le> 2 ^ 60"
    using assms(1,2) by (simp_all add: dump_inv_def dump_room_def un)
  have "(\<exists>s1. m_write api None (of_nat n) s = Inr (0, None, s1) \<and> frame api (\<lambda>_ _. True) s s1
      \<and> heap_ok api s1 \<and> refs_ok refs s1)
    \<or> (\<exists>p i s1. m_write api None (of_nat n) s = Inr (p, Some i, s1)
      \<and> wrote api refs (written None (unat (of_nat n :: u64))) s p i s1)"
    by (rule m_write_spec [OF pre]) simp
  with assms(3) show "wrote api refs (replicate n 0) s p i s'" "m = n" "refs' = refs(i := Suc (refs i))"
    by (auto simp: dump_alloc_def un written_def split: if_splits)
qed

lemma dump_live_keeps:
  assumes "wrote api refs bs s p i s'" and "dump_live api (s, refs) (j, q, n)"
  shows "dump_live api (s', refs(i := Suc (refs i))) (j, q, n)"
    and "load_bytes api (world s') q n = load_bytes api (world s) q n"
    and "pos_of api s' q = pos_of api s q"
proof -
  have r: "0 < refs j" "0 < n" and h: "held api s j q n (pos_of api s q)"
    and b: "pos_of api s q + n \<le> unat (foffset (dump_file s))"
    using assms(2) by (simp_all add: dump_live_def)
  have "refs_ok (refs(i := Suc (refs i))) s'" using assms(1) by (simp add: wrote_def store_inv_def)
  then have "alive s' j" by (rule refs_ok_alive) (use r(1) in auto)
  with assms(1) h b have k: "held api s' j q n (pos_of api s q)"
    "load_bytes api (world s') q n = load_bytes api (world s) q n"
    unfolding wrote_def frame_def upto_pos_def by blast+
  then show "load_bytes api (world s') q n = load_bytes api (world s) q n" by blast
  show pos: "pos_of api s' q = pos_of api s q" using k(1) r(2) by (rule pos_of_held)
  show "dump_live api (s', refs(i := Suc (refs i))) (j, q, n)"
    using k(1) r b assms(1) by (simp add: dump_live_def pos wrote_def)
qed

lemma dump_live_new:
  assumes "wrote api refs bs s p i s'" and "0 < length bs"
  shows "dump_live api (s', refs(i := Suc (refs i))) (i, p, length bs)"
    and "pos_of api s' p = unat (foffset (dump_file s))"
proof -
  have h: "held api s' i p (length bs) (unat (foffset (dump_file s)))" using assms(1) by (simp add: wrote_def)
  from pos_of_held [OF this assms(2)] show pos: "pos_of api s' p = unat (foffset (dump_file s))" .
  show "dump_live api (s', refs(i := Suc (refs i))) (i, p, length bs)"
    using h assms by (simp add: dump_live_def pos wrote_def)
qed

lemma fill_spec:
  assumes "dump_inv api (s, refs)" and "dump_live api (s, refs) (i, p, n)" and "length bs \<le> n"
  defines "s' \<equiv> s\<lparr>world := store_bytes api p bs (world s)\<rparr>"
  shows "dump_inv api (s', refs)" and "held api s' = held api s" and "pos_of api s' = pos_of api s"
    and "load_bytes api (world s') p n = overwrite bs (load_bytes api (world s) p n)"
    and "held api s j q m (pos_of api s q) \<Longrightarrow>
      pos_of api s q + m \<le> pos_of api s p \<or> pos_of api s p + n \<le> pos_of api s q \<Longrightarrow>
      load_bytes api (world s') q m = load_bytes api (world s) q m"
proof -
  have docs: "memory_docs api" and inv: "store_inv api refs s" using assms(1) by (simp_all add: dump_inv_def)
  have h: "held api s i p n (pos_of api s p)" using assms(2) by (simp add: dump_live_def)
  have eq: "map_at s' = map_at s" "use_count s' = use_count s" "alive s' = alive s"
    by (simp_all add: s'_def map_at_def use_count_def alive_def fun_eq_iff)
  have views: "view_of api (world s') = view_of api (world s)" using docs by (simp add: s'_def)
  have vs: "view_shows api (world s') = view_shows api (world s)" "maps_file api (world s') = maps_file api (world s)"
    by (simp_all add: view_shows_def maps_file_def views fun_eq_iff)
  show "held api s' = held api s" by (simp add: held_def eq vs fun_eq_iff)
  show "pos_of api s' = pos_of api s" by (simp add: pos_of_def views fun_eq_iff)
  have "heap_ok api s' = heap_ok api s" by (simp add: heap_ok_def live_map_def eq vs)
  moreover have df: "dump_file s' = dump_file s" "heap s' = heap s" by (simp_all add: s'_def)
  moreover have "map_ok api s' = map_ok api s" unfolding map_ok_def df eq vs ..
  ultimately have "store_inv api refs s'"
    using inv by (simp add: store_inv_def file_ok_def refs_ok_def eq df)
  then show "dump_inv api (s', refs)" using assms(1) by (simp add: dump_inv_def)
  have sub: "shows_file api (world s) p (length bs) (pos_of api s p)"
    "shows_file api (world s) (p + of_nat (length bs)) (n - length bs) (pos_of api s p + length bs)"
    using h assms(3) shows_file_sub [of api "world s" p n "pos_of api s p" 0 "length bs"]
      shows_file_sub [of api "world s" p n "pos_of api s p" "length bs" "n - length bs"]
    by (auto simp: held_def dest: view_shows_file)
  have "load_bytes api (world s') (p + of_nat (length bs)) (n - length bs)
      = load_bytes api (world s) (p + of_nat (length bs)) (n - length bs)"
    using load_store_bytes_other [OF docs sub(1) sub(2)] by (simp add: s'_def)
  moreover have "load_bytes api w p n = load_bytes api w p (length bs)
      @ load_bytes api w (p + of_nat (length bs)) (n - length bs)" for w
    using assms(3) by (intro nth_equalityI) (auto simp: nth_append nth_load_bytes)
  ultimately show "load_bytes api (world s') p n = overwrite bs (load_bytes api (world s) p n)"
    using load_store_bytes_same [OF docs sub(1)] by (simp add: s'_def overwrite_def)
  show "load_bytes api (world s') q m = load_bytes api (world s) q m"
    if "held api s j q m (pos_of api s q)"
      "pos_of api s q + m \<le> pos_of api s p \<or> pos_of api s p + n \<le> pos_of api s q"
    using that load_store_bytes_other [OF docs sub(1) view_shows_file, of _ q m "pos_of api s q"] assms(3)
    by (auto simp: held_def s'_def)
qed

lemma dump_alloc_laws:
  assumes "dump_inv api st" and "dump_room st n" and "dump_alloc api n st = Some (r, st')"
  shows "dump_inv api st'" and "dump_live api st' r" and "dump_content api st' r = replicate n 0"
    and "dump_live api st q \<Longrightarrow> dump_live api st' q \<and> dump_content api st' q = dump_content api st q
      \<and> dump_apart api st' q r"
    and "dump_live api st p \<Longrightarrow> dump_live api st q \<Longrightarrow> dump_apart api st' p q = dump_apart api st p q"
proof -
  obtain s refs where st: "st = (s, refs)" by force
  obtain i a m where r: "r = (i, a, m)" by (metis prod_cases3)
  obtain s' refs' where st': "st' = (s', refs')" by force
  note w = dump_alloc_wrote [OF assms [unfolded st r st']]
  have n: "0 < length (replicate n (0 :: u8))" using assms(2) by (simp add: dump_room_def)
  note new = dump_live_new [OF w(1) n, simplified]
  show "dump_inv api st'" using assms(1) w by (simp add: dump_inv_def st st' wrote_def)
  show "dump_live api st' r" using new by (simp add: r st' w)
  show "dump_content api st' r = replicate n 0" using w(1) by (simp add: dump_content_def r st' w(2) wrote_def)
  show "dump_live api st' q \<and> dump_content api st' q = dump_content api st q \<and> dump_apart api st' q r"
    if lv: "dump_live api st q"
  proof -
    obtain j b k where q: "q = (j, b, k)" by (metis prod_cases3)
    note old = dump_live_keeps [OF w(1) lv [unfolded st q]]
    have "pos_of api s b + k \<le> unat (foffset (dump_file s))"
      using lv by (simp add: dump_live_def st q)
    with old new show ?thesis by (simp add: q r st st' w dump_content_def dump_apart_def)
  qed
  show "dump_apart api st' p q = dump_apart api st p q" if "dump_live api st p" "dump_live api st q"
  proof -
    obtain j b k where q: "q = (j, b, k)" by (metis prod_cases3)
    obtain l c h where p: "p = (l, c, h)" by (metis prod_cases3)
    show ?thesis
      using dump_live_keeps(3) [OF w(1) that(1) [unfolded st p]] dump_live_keeps(3) [OF w(1) that(2) [unfolded st q]]
      by (simp add: dump_apart_def st st' p q)
  qed
qed

lemma dump_fill_laws:
  assumes "dump_inv api st" and "dump_live api st r" and "length bs \<le> length (dump_content api st r)"
  shows "dump_inv api (dump_fill api r bs st)" and "dump_live api (dump_fill api r bs st) = dump_live api st"
    and "dump_apart api (dump_fill api r bs st) = dump_apart api st"
    and "dump_content api (dump_fill api r bs st) r = overwrite bs (dump_content api st r)"
    and "dump_live api st q \<Longrightarrow> dump_apart api st q r \<Longrightarrow>
      dump_content api (dump_fill api r bs st) q = dump_content api st q"
proof -
  obtain s refs where st: "st = (s, refs)" by force
  obtain i a n where r: "r = (i, a, n)" by (metis prod_cases3)
  have len: "length bs \<le> n" using assms(3) by (simp add: dump_content_def r)
  note f = fill_spec [OF assms(1) [unfolded st] assms(2) [unfolded st r] len]
  show "dump_inv api (dump_fill api r bs st)" using f(1) by (simp add: dump_fill_def st r)
  show "dump_live api (dump_fill api r bs st) = dump_live api st"
    using f(2,3) by (simp add: dump_live_def dump_fill_def st r fun_eq_iff)
  show "dump_apart api (dump_fill api r bs st) = dump_apart api st"
    using f(3) by (simp add: dump_apart_def dump_fill_def st r fun_eq_iff)
  show "dump_content api (dump_fill api r bs st) r = overwrite bs (dump_content api st r)"
    using f(4) by (simp add: dump_content_def dump_fill_def st r)
  show "dump_content api (dump_fill api r bs st) q = dump_content api st q"
    if "dump_live api st q" "dump_apart api st q r"
  proof -
    obtain j b k where q: "q = (j, b, k)" by (metis prod_cases3)
    have "held api s j b k (pos_of api s b)" using that(1) by (simp add: dump_live_def st q)
    from f(5) [OF this] that(2) show ?thesis
      by (simp add: dump_content_def dump_apart_def dump_fill_def st r q)
  qed
qed

lemma dump_apart_sym: "dump_apart api st p q \<Longrightarrow> dump_apart api st q p"
  by (auto simp: dump_apart_def split: prod.splits)

interpretation dump: range_store "dump_inv api" dump_room "dump_live api" "dump_apart api"
  "dump_content api" "dump_alloc api" "dump_fill api"
  for api :: "'w win32"
proof (unfold_locales, goal_cases)
  case 1
  then show ?case using dump_alloc_laws(1-3) by blast
next
  case 2
  then show ?case by (rule dump_alloc_laws(4))
next
  case 3
  then show ?case by (rule dump_alloc_laws(5))
next
  case 4
  then show ?case by (rule dump_apart_sym)
next
  case 5
  from dump_fill_laws(1-3) [OF this] show ?case by simp
next
  case 6
  then show ?case by (rule dump_fill_laws(4))
next
  case 7
  then show ?case by (rule dump_fill_laws(5))
qed


subsection \<open>A store that others act on\<close>

text \<open>
  The store together with steps of the environment that leave its ranges alone.
\<close>

locale shared_range_store = range_store inv room live apart content alloc fill
  for inv :: "'s \<Rightarrow> bool" and room :: "'s \<Rightarrow> nat \<Rightarrow> bool" and live :: "'s \<Rightarrow> 'r \<Rightarrow> bool"
    and apart :: "'s \<Rightarrow> 'r \<Rightarrow> 'r \<Rightarrow> bool" and content :: "'s \<Rightarrow> 'r \<Rightarrow> u8 list"
    and alloc :: "nat \<Rightarrow> 's \<Rightarrow> ('r \<times> 's) option" and fill :: "'r \<Rightarrow> u8 list \<Rightarrow> 's \<Rightarrow> 's" +
  fixes env :: "'s \<Rightarrow> 's \<Rightarrow> bool"
  assumes env_inv: "inv s \<Longrightarrow> env s s' \<Longrightarrow> inv s'"
    and env_keeps: "inv s \<Longrightarrow> env s s' \<Longrightarrow> live s q \<Longrightarrow> live s' q \<and> content s' q = content s q"
    and env_apart: "inv s \<Longrightarrow> env s s' \<Longrightarrow> live s p \<Longrightarrow> live s q \<Longrightarrow> apart s' p q = apart s p q"
begin

lemma holds_env:
  assumes "holds s h" and "env s s'"
  shows "holds s' h" and "contents s' h = contents s h"
proof -
  have inv: "inv s" and lv: "\<And>l q. h l = Some q \<Longrightarrow> live s q"
    and ap: "\<And>l m p q. l \<noteq> m \<Longrightarrow> h l = Some p \<Longrightarrow> h m = Some q \<Longrightarrow> apart s p q"
    using assms(1) by (auto simp: holds_def)
  show "holds s' h"
    using env_inv [OF inv assms(2)] env_keeps [OF inv assms(2) lv] ap
      env_apart [OF inv assms(2) lv lv] by (auto simp: holds_def)
  show "contents s' h = contents s h"
    using env_keeps [OF inv assms(2) lv] by (auto simp: contents_def fun_eq_iff intro!: option.map_cong)
qed

text \<open>Overwriting after a step of the environment, as a read from another process does it.\<close>

lemma holds_env_fill:
  assumes "holds s h" and "env s s'" and "h k = Some r" and "length bs \<le> length (content s r)"
  shows "holds (fill r bs s') h"
    and "contents (fill r bs s') h = (contents s h)(k \<mapsto> overwrite bs (content s r))"
proof -
  have "inv s" "live s r" using assms(1,3) by (auto simp: holds_def)
  then have c: "content s' r = content s r" using env_keeps assms(2) by blast
  note f = holds_fill [OF holds_env(1) [OF assms(1,2)] assms(3)]
  show "holds (fill r bs s') h" using f(1) assms(4) c by simp
  show "contents (fill r bs s') h = (contents s h)(k \<mapsto> overwrite bs (content s r))"
    using f(2) assms(4) c holds_env(2) [OF assms(1,2)] by simp
qed

end

definition dump_env :: "'w win32 \<Rightarrow> 'w sys \<times> (nat \<Rightarrow> nat) \<Rightarrow> 'w sys \<times> (nat \<Rightarrow> nat) \<Rightarrow> bool" where
  "dump_env api st st' \<longleftrightarrow> keeps api (world (fst st)) (world (fst st')) \<and> snd st' = snd st
     \<and> heap (fst st') = heap (fst st) \<and> dump_file (fst st') = dump_file (fst st)"

lemma dump_env_laws:
  assumes "dump_inv api st" and "dump_env api st st'"
  shows "dump_inv api st'"
    and "dump_live api st q \<Longrightarrow> dump_live api st' q \<and> dump_content api st' q = dump_content api st q"
    and "dump_live api st p \<Longrightarrow> dump_live api st q \<Longrightarrow> dump_apart api st' p q = dump_apart api st p q"
proof -
  obtain s refs where st: "st = (s, refs)" by force
  from assms(2) obtain s' where st': "st' = (s', refs)" by (cases st') (auto simp: dump_env_def st)
  from assms(2) have k: "keeps api (world s) (world s')" and hp: "heap s' = heap s"
    and df: "dump_file s' = dump_file s"
    by (simp_all add: dump_env_def st st')
  have eq: "map_at s' = map_at s" "use_count s' = use_count s" "alive s' = alive s"
    by (simp_all add: hp map_at_def use_count_def alive_def fun_eq_iff)
  from assms(1) have inv: "heap_ok api s" "map_ok api s" "refs_ok refs s"
    and sz: "unat (fsize (dump_file s)) \<le> 4 * unat (foffset (dump_file s)) + 4095"
    and docs: "memory_docs api" "disk_ok api"
    by (simp_all add: dump_inv_def store_inv_def file_ok_def st)
  have "heap_ok api s'" using inv(1) k hp by (rule heap_ok_world) simp
  moreover have "map_ok api s'"
    using inv(2) maps_file_keeps [OF _ k] by (auto simp: map_ok_def df eq Let_def split: option.splits)
  moreover have "refs_ok refs s'" using inv(3) by (simp add: refs_ok_def eq df hp)
  ultimately show "dump_inv api st'" using sz docs by (simp add: dump_inv_def store_inv_def file_ok_def st' df)
  have pos: "pos_of api s' p = pos_of api s p" if "held api s i p n pos" "0 < n" for i p n pos
  proof -
    have "view_of api (world s) p \<noteq> None"
      using that by (auto simp: held_def view_shows_def dest: spec [of _ 0])
    then show ?thesis using k by (auto simp: pos_of_def keeps_def)
  qed
  have held: "held api s' i p n pos \<and> load_bytes api (world s') p n = load_bytes api (world s) p n"
    if "held api s i p n pos" for i p n pos
    using that k by (auto simp: held_def eq intro: view_shows_keeps load_bytes_keeps [OF view_shows_file])
  show "dump_live api st' q \<and> dump_content api st' q = dump_content api st q" if lv: "dump_live api st q"
  proof -
    obtain j b n where q: "q = (j, b, n)" by (metis prod_cases3)
    from lv have h: "held api s j b n (pos_of api s b)" "0 < n" by (simp_all add: dump_live_def st q)
    from lv held [OF h(1)] pos [OF h] show ?thesis
      by (simp add: dump_live_def dump_content_def st st' q df)
  qed
  show "dump_apart api st' p q = dump_apart api st p q" if "dump_live api st p" "dump_live api st q"
  proof -
    obtain j b n where q: "q = (j, b, n)" by (metis prod_cases3)
    obtain i a m where p: "p = (i, a, m)" by (metis prod_cases3)
    from that have "held api s j b n (pos_of api s b)" "0 < n" "held api s i a m (pos_of api s a)" "0 < m"
      by (simp_all add: dump_live_def st q p)
    with pos have "pos_of api s' b = pos_of api s b" "pos_of api s' a = pos_of api s a" by blast+
    then show ?thesis by (simp add: dump_apart_def st st' p q)
  qed
qed

interpretation shared_dump: shared_range_store "dump_inv api" dump_room "dump_live api" "dump_apart api"
  "dump_content api" "dump_alloc api" "dump_fill api" "dump_env api"
  for api :: "'w win32"
proof (unfold_locales, goal_cases)
  case 1
  then show ?case by (rule dump_env_laws(1))
next
  case 2
  then show ?case by (rule dump_env_laws(2))
next
  case 3
  then show ?case by (rule dump_env_laws(3))
qed

end
