(* ===== verification/Map_Views.thy ===== *)
theory Map_Views
  imports Dump_Write
begin

text \<open>
  Whether mappings leak: the views of this process, told apart by their base addresses, and which
  of them the maps in the heap of the dump file own. Every operation of \<open>m_file\<close> and of the
  pointers to maps keeps the property that a view is foreign, or is owned by a map that some
  pointer refers to; so when the last pointer to a map is dropped, its view is gone.
\<close>

subsection \<open>Documented behaviour\<close>

text \<open>The base addresses of the views that exist.\<close>

definition bases :: "'w win32 \<Rightarrow> 'w \<Rightarrow> u64 set" where
  "bases api w = {b. \<exists>a p. view_of api w a = Some (b, p)}"

text \<open>
  Only \<open>MapViewOfFile\<close> makes a view, in the user part of the address space, and \<open>UnmapViewOfFile\<close>
  removes the one it is given. The allocation granularity is a \<open>DWORD\<close>.
\<close>

definition view_docs :: "'w win32 \<Rightarrow> bool" where
  "view_docs api \<longleftrightarrow> 0 < unat (allocation_granularity api) \<and> unat (allocation_granularity api) < 2 ^ 32 \<and> (\<forall>w.
       (\<forall>n. bases api (snd (delete_file api n w)) \<subseteq> bases api w)
     \<and> (\<forall>n m d. bases api (snd (create_file_a api n m d w)) \<subseteq> bases api w)
     \<and> (\<forall>n m d. bases api (snd (create_file_w api n m d w)) \<subseteq> bases api w)
     \<and> (\<forall>h. bases api (snd (get_file_size api h w)) \<subseteq> bases api w)
     \<and> (\<forall>h x. bases api (snd (set_file_pointer api h x w)) \<subseteq> bases api w)
     \<and> (\<forall>h. bases api (snd (set_end_of_file api h w)) \<subseteq> bases api w)
     \<and> (\<forall>h. bases api (snd (close_handle api h w)) \<subseteq> bases api w)
     \<and> (\<forall>h m x y. bases api (snd (create_file_mapping api h m x y w)) \<subseteq> bases api w)
     \<and> (\<forall>a n. bases api (snd (flush_view_of_file api a n w)) \<subseteq> bases api w)
     \<and> (\<forall>h. bases api (snd (flush_file_buffers api h w)) \<subseteq> bases api w)
     \<and> (\<forall>h a n. bases api (snd (read_process_memory api h a n w)) \<subseteq> bases api w)
     \<and> (\<forall>a b. bases api (store_byte api a b w) \<subseteq> bases api w)
     \<and> (\<forall>h m hi lo n b w'. map_view_of_file api h m hi lo n w = (b, w') \<longrightarrow>
          bases api w' \<subseteq> (if b = 0 then bases api w else insert b (bases api w)) \<and> unat b < 2 ^ 48)
     \<and> (\<forall>b. bases api (snd (unmap_view_of_file api b w)) \<subseteq> bases api w - {b}))"

lemma quiet_bases:
  assumes "view_docs api"
  shows "bases api (snd (delete_file api n w)) \<subseteq> bases api w"
    "bases api (snd (create_file_a api n m d w)) \<subseteq> bases api w"
    "bases api (snd (create_file_w api nw m d w)) \<subseteq> bases api w"
    "bases api (snd (get_file_size api h w)) \<subseteq> bases api w"
    "bases api (snd (set_file_pointer api h x w)) \<subseteq> bases api w"
    "bases api (snd (set_end_of_file api h w)) \<subseteq> bases api w"
    "bases api (snd (close_handle api h w)) \<subseteq> bases api w"
    "bases api (snd (create_file_mapping api h m hi lo w)) \<subseteq> bases api w"
    "bases api (snd (flush_view_of_file api a k w)) \<subseteq> bases api w"
    "bases api (snd (flush_file_buffers api h w)) \<subseteq> bases api w"
    "bases api (snd (read_process_memory api h a k w)) \<subseteq> bases api w"
    "bases api (store_byte api a b w) \<subseteq> bases api w"
    "bases api (snd (unmap_view_of_file api a w)) \<subseteq> bases api w - {a}"
  using assms by (simp_all add: view_docs_def)

text \<open>A step that makes no view, for calls whose result is known.\<close>

definition fewer :: "'w win32 \<Rightarrow> 'w \<Rightarrow> 'w \<Rightarrow> bool" where
  "fewer api w w' \<longleftrightarrow> bases api w' \<subseteq> bases api w"

lemma fewer_refl [simp]: "fewer api w w"
  by (simp add: fewer_def)

lemma fewer_trans: "fewer api w1 w2 \<Longrightarrow> fewer api w2 w3 \<Longrightarrow> fewer api w1 w3"
  by (auto simp: fewer_def)

lemma quiet_fewer:
  assumes "view_docs api"
  shows "delete_file api n w = (r1, w') \<Longrightarrow> fewer api w w'"
    "create_file_w api nw m d w = (r2, w') \<Longrightarrow> fewer api w w'"
    "get_file_size api h w = (r3, w') \<Longrightarrow> fewer api w w'"
    "set_file_pointer api h x w = (r1, w') \<Longrightarrow> fewer api w w'"
    "set_end_of_file api h w = (r1, w') \<Longrightarrow> fewer api w w'"
    "close_handle api h w = (r1, w') \<Longrightarrow> fewer api w w'"
    "create_file_mapping api h m hi lo w = (r2, w') \<Longrightarrow> fewer api w w'"
    "flush_view_of_file api a k w = (r1, w') \<Longrightarrow> fewer api w w'"
    "flush_file_buffers api h w = (r1, w') \<Longrightarrow> fewer api w w'"
    "read_process_memory api h a k w = (r4, w') \<Longrightarrow> fewer api w w'"
  unfolding fewer_def using quiet_bases [OF assms, where w = w] by (metis snd_conv)+

lemma map_view_bases:
  assumes "view_docs api" and "map_view_of_file api h m hi lo n w = (b, w')"
  shows "bases api w' \<subseteq> (if b = 0 then bases api w else insert b (bases api w))" and "unat b < 2 ^ 48"
proof -
  have "bases api w' \<subseteq> (if b = 0 then bases api w else insert b (bases api w)) \<and> unat b < 2 ^ 48"
    using assms unfolding view_docs_def by blast
  then show "bases api w' \<subseteq> (if b = 0 then bases api w else insert b (bases api w))" "unat b < 2 ^ 48"
    by blast+
qed

lemma store_bytes_fewer: "view_docs api \<Longrightarrow> fewer api w (store_bytes api a bs w)"
proof (induction bs arbitrary: a w)
  case (Cons b bs)
  have "fewer api w (store_byte api a b w)" using quiet_bases(12) [OF Cons.prems] by (simp add: fewer_def)
  with Cons.IH [OF Cons.prems] show ?case by (simp add: fewer_trans)
qed simp

subsection \<open>Mapping objects\<close>

text \<open>A mapping object that shows data is one that \<open>unmap\<close> removes.\<close>

definition removable :: "basic_mmap \<Rightarrow> bool" where
  "removable m \<longleftrightarrow> mm_data m \<noteq> 0 \<longrightarrow> is_open m \<and> is_mapped m"

lemma removable_default [simp]: "removable default_mmap"
  by (simp add: removable_def)

lemma unmap_bases:
  assumes "view_docs api" and "unmap api m w = (m', w')"
  shows "bases api w' \<subseteq> bases api w"
    and "removable m \<Longrightarrow> mm_data m \<noteq> 0 \<Longrightarrow> bases api w' \<subseteq> bases api w - {get_mapping_start m}"
    and "removable m \<Longrightarrow> mm_data m' = 0 \<and> \<not> is_open m'"
proof -
  define w1 where "w1 = (if is_mapped m
    then snd (close_handle api (mm_mapping_handle m) (snd (unmap_view_of_file api (get_mapping_start m) w))) else w)"
  define w2 where "w2 = (if mm_internal m then snd (close_handle api (mm_file_handle m) w1) else w1)"
  have w': "w' = (if is_open m then w2 else w)"
    using assms(2) by (cases "is_open m") (auto simp: unmap_def Let_def w1_def w2_def)
  have close: "bases api (snd (close_handle api h u)) \<subseteq> bases api u" for h u
    by (rule quiet_bases(7) [OF assms(1)])
  have b2: "bases api w2 \<subseteq> bases api w1" by (simp add: w2_def close)
  have b1: "is_mapped m \<Longrightarrow> bases api w1 \<subseteq> bases api w - {get_mapping_start m}"
    unfolding w1_def by (simp add: subset_trans [OF close quiet_bases(13) [OF assms(1)]])
  moreover have "\<not> is_mapped m \<Longrightarrow> w1 = w" by (simp add: w1_def)
  ultimately have "bases api w1 \<subseteq> bases api w" by (cases "is_mapped m") auto
  with b2 w' show "bases api w' \<subseteq> bases api w" by (auto split: if_splits)
  show "removable m \<Longrightarrow> mm_data m \<noteq> 0 \<Longrightarrow> bases api w' \<subseteq> bases api w - {get_mapping_start m}"
    using b1 b2 w' by (auto simp: removable_def)
  show "removable m \<Longrightarrow> mm_data m' = 0 \<and> \<not> is_open m'"
    using assms(2) by (auto simp: unmap_def Let_def removable_def is_open_def split: if_splits)
qed

lemma mmap_sync_fewer:
  assumes "view_docs api"
  shows "fewer api w (snd (mmap_sync api m w))"
proof -
  note kf = quiet_fewer(8,9) [OF assms]
  show ?thesis
    by (auto simp: mmap_sync_def Let_def split: prod.splits if_splits
        intro: kf fewer_trans [OF kf(1) kf(2)] fewer_trans [OF fewer_trans [OF kf(1) kf(2)] kf(2)])
qed

lemma mmap_destroy_bases:
  assumes "view_docs api" and "mmap_destroy api mode m w = (m', w')"
  shows "bases api w' \<subseteq> bases api w" and "removable m \<Longrightarrow> mm_data m' = 0"
proof -
  have "fewer api w (conditional_sync api mode m w)"
    using mmap_sync_fewer [OF assms(1)] by (cases mode) (simp_all add: conditional_sync_def)
  with unmap_bases [OF assms(1), of m "conditional_sync api mode m w" m' w'] assms(2)
  show "bases api w' \<subseteq> bases api w" "removable m \<Longrightarrow> mm_data m' = 0"
    by (auto simp: mmap_destroy_def fewer_def)
qed

lemma active_map_destroy_bases:
  assumes "view_docs api" and "active_map_destroy api m w = (m', w')"
  shows "bases api w' \<subseteq> bases api w"
    and "removable m \<Longrightarrow> mm_data m \<noteq> 0 \<Longrightarrow> bases api w' \<subseteq> bases api w - {get_mapping_start m}"
    and "removable m \<Longrightarrow> mm_data m' = 0"
proof -
  obtain m1 w1 where u: "unmap api m w = (m1, w1)" by force
  note ub = unmap_bases [OF assms(1) u]
  show "bases api w' \<subseteq> bases api w"
  proof (cases "mm_data m = 0")
    case True
    with assms(2) have "mmap_destroy api write_access m w = (m', w')" by (simp add: active_map_destroy_def)
    then show ?thesis by (rule mmap_destroy_bases(1) [OF assms(1)])
  next
    case False
    with assms(2) have "mmap_destroy api write_access m1 w1 = (m', w')" by (simp add: active_map_destroy_def u)
    from mmap_destroy_bases(1) [OF assms(1) this] ub(1) show ?thesis by (rule subset_trans)
  qed
  have gone: "m' = m1 \<and> w' = w1" if "removable m" "mm_data m \<noteq> 0"
    using assms(2) that ub(3) mmap_destroy_closed [of m1 api write_access w1] by (simp add: active_map_destroy_def u)
  show "removable m \<Longrightarrow> mm_data m \<noteq> 0 \<Longrightarrow> bases api w' \<subseteq> bases api w - {get_mapping_start m}"
    using gone ub(2) by simp
  show "removable m \<Longrightarrow> mm_data m' = 0"
  proof (cases "mm_data m = 0")
    case True
    with assms(2) have "mmap_destroy api write_access m w = (m', w')" by (simp add: active_map_destroy_def)
    then show "removable m \<Longrightarrow> mm_data m' = 0" by (rule mmap_destroy_bases(2) [OF assms(1)])
  next
    case False
    then show "removable m \<Longrightarrow> mm_data m' = 0" using gone ub(3) by simp
  qed
qed

subsection \<open>A new mapping\<close>

lemma aligned_remainder:
  assumes "view_docs api"
  shows "unat (off - make_offset_page_aligned api off) < 2 ^ 32"
proof -
  have "unat (off - make_offset_page_aligned api off) = unat off mod unat (allocation_granularity api)"
    by (simp add: unat_sub word_le_nat_alt unat_page_aligned minus_div_mult_eq_mod)
  with assms show ?thesis
    by (metis mod_less_divisor order_less_trans view_docs_def)
qed

lemma memory_map_bases:
  assumes "view_docs api" and "memory_map api fh off len mode w = (ctx, err, w')"
  shows "ctx_data ctx = 0 \<and> fewer api w w'
    \<or> ctx_data ctx \<noteq> 0 \<and> ctx_mapping_handle ctx \<noteq> invalid_handle_value
      \<and> bases api w' \<subseteq> insert (ctx_data ctx - (ctx_mapped_length ctx - ctx_length ctx)) (bases api w)"
proof -
  define al where "al = make_offset_page_aligned api off"
  obtain mh w1 where mh: "create_file_mapping api fh mode (int64_high (off + len)) (int64_low (off + len)) w = (mh, w1)"
    by force
  obtain b w2 where b: "map_view_of_file api mh mode (int64_high al) (int64_low al) (off - al + len) w1 = (b, w2)"
    by force
  obtain c w3 where c: "close_handle api mh w2 = (c, w3)" by force
  note defs = assms(2) [unfolded memory_map_def Let_def al_def [symmetric] mh b c prod.case]
  have f1: "fewer api w w1" and f3: "fewer api w2 w3"
    using quiet_fewer(7) [OF assms(1) mh] quiet_fewer(6) [OF assms(1) c] .
  note mb = map_view_bases [OF assms(1) b]
  show ?thesis
  proof (cases "mh = invalid_handle_value \<or> b = 0")
    case True
    have "b = 0 \<Longrightarrow> fewer api w w3"
      using mb(1) f1 f3 by (auto simp: fewer_def)
    with True defs f1 show ?thesis by (auto simp: null_context_def split: if_splits)
  next
    case False
    have "unat (b + (off - al)) = unat b + unat (off - al)"
      using mb(2) aligned_remainder [OF assms(1), of off] by (intro unat_add_no_wrap) (simp add: al_def)
    with False have "b + (off - al) \<noteq> 0" by (metis add_is_0 unat_eq_zero unat_0)
    moreover have "bases api w2 \<subseteq> insert b (bases api w)"
      using mb(1) f1 False by (auto simp: fewer_def)
    ultimately show ?thesis using defs False by (auto simp: algebra_simps)
  qed
qed

lemma make_mmap_sink_bases:
  assumes "view_docs api" and "make_mmap_sink api name off len w = (m, err, w')"
  shows "removable m"
    and "mm_data m = 0 \<and> fewer api w w' \<or> mm_data m \<noteq> 0 \<and> bases api w' \<subseteq> insert (get_mapping_start m) (bases api w)"
proof -
  obtain h e w1 where o: "open_file api name write_access w = (h, e, w1)" by (metis prod_cases3)
  have f1: "fewer api w w1"
    using o by (auto simp: open_file_def open_file_helper_def split: prod.splits if_splits
        intro: quiet_fewer(2) [OF assms(1)])
  obtain n e2 w2 where q: "query_file_size api h w1 = (n, e2, w2)" by (metis prod_cases3)
  have f2: "fewer api w w2"
    using fewer_trans [OF f1] q by (auto simp: query_file_size_def split: prod.splits option.splits
        intro: quiet_fewer(3) [OF assms(1)])
  define l where "l = (if len = 0 then n - off else len)"
  obtain ctx e3 w3 where mm: "memory_map api h off l write_access w2 = (ctx, e3, w3)" by (metis prod_cases3)
  note defs = assms(2) [unfolded make_mmap_sink_def make_mmap_def map_path_def o map_handle_def q Let_def prod.case
      l_def [symmetric] mm unmap_closed [OF default_mmap_closed(1)]]
  have f3: "ctx_data ctx = 0 \<Longrightarrow> fewer api w w3"
    and g3: "ctx_data ctx \<noteq> 0 \<Longrightarrow> ctx_mapping_handle ctx \<noteq> invalid_handle_value
      \<and> bases api w3 \<subseteq> insert (ctx_data ctx - (ctx_mapped_length ctx - ctx_length ctx)) (bases api w)"
    using memory_map_bases [OF assms(1) mm] f2 by (auto simp: fewer_def)
  have e3: "e3 \<noteq> 0 \<Longrightarrow> ctx_data ctx = 0"
    using mm by (auto simp: memory_map_def Let_def null_context_def split: if_splits prod.splits)
  show "removable m"
    using defs g3 by (auto simp: removable_def is_open_def is_mapped_def split: if_splits)
  show "mm_data m = 0 \<and> fewer api w w' \<or> mm_data m \<noteq> 0 \<and> bases api w' \<subseteq> insert (get_mapping_start m) (bases api w)"
    using defs f1 f2 f3 g3 e3 by (auto simp: get_mapping_start_def mapping_offset_def split: if_splits)
qed

subsection \<open>The views of the heap\<close>

text \<open>
  The bases of the views that maps with a pointer own. \<open>traced api X s\<close>: every view that exists is
  one of these or, with its base in \<open>X\<close>, foreign to the program.
\<close>

definition starts :: "'w sys \<Rightarrow> u64 set" where
  "starts s = {get_mapping_start (map_at s i) | i. alive s i \<and> mm_data (map_at s i) \<noteq> 0}"

definition traced :: "'w win32 \<Rightarrow> u64 set \<Rightarrow> 'w sys \<Rightarrow> bool" where
  "traced api X s \<longleftrightarrow> bases api (world s) \<subseteq> X \<union> starts s"

lemma traced_cong:
  assumes "traced api X s" and "bases api (world s') \<subseteq> bases api (world s)" and "heap s' = heap s"
  shows "traced api X s'"
proof -
  have eq: "map_at s' = map_at s" "alive s' = alive s"
    using assms(3) by (simp_all add: map_at_def use_count_def alive_def fun_eq_iff)
  with assms show ?thesis by (auto simp: traced_def starts_def)
qed

lemma alive_has_view:
  assumes "heap_ok api s" and "alive s i"
  shows "\<exists>a. view_of api (world s) a \<noteq> None"
proof -
  have "live_map api (world s) (map_at s i)" using assms by (simp add: heap_ok_def)
  then obtain off where "view_shows api (world s) (get_mapping_start (map_at s i)) (mm_data (map_at s i))
      (unat (mm_length (map_at s i))) off" and "0 < unat (mm_length (map_at s i))"
    by (auto simp: live_map_def maps_file_def unat_gt_0)
  then have "view_of api (world s) (mm_data (map_at s i)) = Some (get_mapping_start (map_at s i), off)"
    by (fastforce simp: view_shows_def)
  then show ?thesis by fastforce
qed

text \<open>Changing one block: its map may go when the view does.\<close>

lemma traced_block:
  assumes "traced api X s" and "i < length (heap s)" and "bases api w \<subseteq> bases api (world s)"
    and "\<And>b. b \<in> bases api w \<Longrightarrow> alive s i \<Longrightarrow> mm_data (map_at s i) \<noteq> 0 \<Longrightarrow> b = get_mapping_start (map_at s i) \<Longrightarrow>
      m = map_at s i \<and> 0 < c"
  shows "traced api X (s\<lparr>world := w, heap := (heap s)[i := (m, c)]\<rparr>)"
proof -
  let ?s = "s\<lparr>world := w, heap := (heap s)[i := (m, c)]\<rparr>"
  have at: "map_at ?s j = (if j = i then m else map_at s j)"
    and al: "alive ?s j \<longleftrightarrow> (if j = i then 0 < c else alive s j)" for j
    using assms(2) by (auto simp: map_at_def alive_def use_count_def nth_list_update)
  have "b \<in> X \<union> starts ?s" if b: "b \<in> bases api w" for b
  proof -
    from b assms(1,3) consider "b \<in> X"
      | j where "alive s j" "mm_data (map_at s j) \<noteq> 0" "b = get_mapping_start (map_at s j)"
      by (fastforce simp: traced_def starts_def)
    then show ?thesis
    proof cases
      case (2 j)
      with assms(4) [OF b] have "alive ?s j" "map_at ?s j = map_at s j" by (auto simp: at al)
      with 2 show ?thesis unfolding starts_def by (metis (mono_tags, lifting) UnI2 mem_Collect_eq)
    qed simp
  qed
  then show ?thesis by (auto simp: traced_def)
qed

text \<open>Dropping a pointer: the view of a map goes with the last one.\<close>

lemma traced_release:
  assumes "view_docs api" and "traced api X s" and rem: "alive s i \<Longrightarrow> removable (map_at s i)"
  shows "traced api X (release api i s)"
proof -
  obtain m w where d: "active_map_destroy api (map_at s i) (world s) = (m, w)" by force
  note ad = active_map_destroy_bases [OF assms(1) d]
  show ?thesis
  proof (cases "i < length (heap s)")
    case True
    show ?thesis
    proof (cases "use_count s i = 1")
      case one: True
      with rem ad True have "traced api X (s\<lparr>world := w, heap := (heap s)[i := (m, 0)]\<rparr>)"
        by (intro traced_block [OF assms(2) True]) (auto simp: alive_def)
      with one show ?thesis by (simp add: release_def d)
    next
      case False
      have "traced api X (s\<lparr>world := world s, heap := (heap s)[i := (map_at s i, use_count s i - 1)]\<rparr>)"
        using False by (intro traced_block [OF assms(2) True]) (auto simp: alive_def)
      with False show ?thesis by (simp add: release_def)
    qed
  next
    case False
    have "traced api X (s\<lparr>world := w\<rparr>)" by (rule traced_cong [OF assms(2)]) (simp_all add: ad(1))
    with False assms(2) show ?thesis by (simp add: release_def d list_update_beyond)
  qed
qed

text \<open>
  The heap can be given back: every map with a pointer is removable, and the end of the program
  leaves the foreign views only.
\<close>

definition reclaimable :: "'w win32 \<Rightarrow> u64 set \<Rightarrow> 'w sys \<Rightarrow> bool" where
  "reclaimable api X s \<longleftrightarrow> traced api X s \<and> (\<forall>i. alive s i \<longrightarrow> removable (map_at s i))"

lemma heap_ok_reclaimable: "heap_ok api s \<Longrightarrow> reclaimable api (bases api (world s) - starts s) s"
  by (auto simp: reclaimable_def traced_def heap_ok_def live_map_def maps_file_def removable_def)

lemma reclaimable_release:
  assumes "view_docs api" and "reclaimable api X s"
  shows "reclaimable api X (release api i s)"
proof -
  have "alive s j \<and> map_at (release api i s) j = map_at s j" if "alive (release api i s) j" for j
  proof -
    have "use_count (release api i s) j \<le> use_count s j"
    proof (cases "i < length (heap s)")
      case False
      then show ?thesis by (simp add: release_def use_count_def list_update_beyond split: prod.split)
    qed simp
    with that show ?thesis by (auto simp: alive_def)
  qed
  moreover have "traced api X (release api i s)"
    using assms by (intro traced_release) (simp_all add: reclaimable_def)
  ultimately show ?thesis using assms(2) by (simp add: reclaimable_def)
qed

lemma reclaimable_release_all: "view_docs api \<Longrightarrow> reclaimable api X s \<Longrightarrow> reclaimable api X (release_all api is s)"
  by (induction "is" arbitrary: s) (simp_all add: reclaimable_release)

lemma reclaimable_file_destroy:
  assumes "view_docs api" and "reclaimable api X s"
  shows "reclaimable api X (m_file_destroy api s)"
proof -
  let ?f = "dump_file s"
  define s1 where "s1 = release_opt api (current_map ?f) (s\<lparr>dump_file := ?f\<lparr>fvalid := False, current_map := None\<rparr>\<rparr>)"
  have eq: "reclaimable api X s' \<longleftrightarrow> traced api X s' \<and> (\<forall>i. alive s'' i \<longrightarrow> removable (map_at s'' i))"
    if "heap s' = heap s''" for s' s'' :: "'a sys"
    using that by (simp add: reclaimable_def alive_def use_count_def map_at_def)
  have "reclaimable api X (s\<lparr>dump_file := g\<rparr>)" for g
    using assms(2) traced_cong [of api X s "s\<lparr>dump_file := g\<rparr>"] eq [of "s\<lparr>dump_file := g\<rparr>" s]
    by (simp add: reclaimable_def)
  then have "reclaimable api X s1"
    using reclaimable_release [OF assms(1)] by (cases "current_map ?f") (simp_all add: s1_def)
  moreover have "bases api (world (m_file_destroy api s)) \<subseteq> bases api (world s1)"
    using quiet_bases(1,7) [OF assms(1)]
    by (auto simp: m_file_destroy_def Let_def s1_def [symmetric] dest!: subsetD [OF quiet_bases(1) [OF assms(1)]]
        subsetD [OF quiet_bases(7) [OF assms(1)]])
  moreover have "heap (m_file_destroy api s) = heap s1"
    by (simp add: m_file_destroy_def Let_def s1_def)
  ultimately show ?thesis
    using traced_cong [of api X s1 "m_file_destroy api s"] eq [of "m_file_destroy api s" s1]
    by (simp add: reclaimable_def)
qed

lemma release_all_heap [simp]: "length (heap (release_all api is s)) = length (heap s)"
  by (induction "is" arbitrary: s) simp_all

lemma m_file_destroy_heap: "length (heap (m_file_destroy api s)) = length (heap s)"
  by (cases "current_map (dump_file s)") (simp_all add: m_file_destroy_def Let_def)

text \<open>When no map has a pointer, only foreign views are left.\<close>

lemma traced_none: "traced api X s \<Longrightarrow> (\<And>i. \<not> alive s i) \<Longrightarrow> bases api (world s) \<subseteq> X"
  by (auto simp: traced_def starts_def)

subsection \<open>What the operations keep\<close>

definition accounted :: "'w win32 \<Rightarrow> u64 set \<Rightarrow> 'w sys \<Rightarrow> bool" where
  "accounted api X s \<longleftrightarrow> traced api X s \<and> (\<forall>i < length (heap s). removable (map_at s i))"

lemma accounted_world: "accounted api X s \<Longrightarrow> fewer api (world s) w \<Longrightarrow> accounted api X (s\<lparr>world := w\<rparr>)"
  using traced_cong [of api X s "s\<lparr>world := w\<rparr>"] by (simp add: accounted_def fewer_def map_at_def)

lemma accounted_file [simp]: "accounted api X (s\<lparr>dump_file := f\<rparr>) = accounted api X s"
  by (simp add: accounted_def traced_def starts_def)

lemma accounted_retain: "accounted api X s \<Longrightarrow> accounted api X (retain i s)"
proof (cases "i < length (heap s)")
  case True
  assume "accounted api X s"
  then show ?thesis
    using traced_block [of api X s i "world s" "map_at s i" "Suc (use_count s i)"] True
    by (simp add: accounted_def retain_def)
next
  case False
  then show "accounted api X s \<Longrightarrow> accounted api X (retain i s)" by (simp add: retain_def list_update_beyond)
qed

lemma accounted_release:
  assumes "view_docs api" and "accounted api X s"
  shows "accounted api X (release api i s)"
proof -
  obtain m w where d: "active_map_destroy api (map_at s i) (world s) = (m, w)" by force
  have "traced api X (release api i s)"
    using assms by (intro traced_release) (simp_all add: accounted_def alive_bound)
  moreover have "removable (map_at (release api i s) j)" if j: "j < length (heap s)" for j
  proof (cases "j = i")
    case True
    with j assms(2) have rem: "removable (map_at s i)" by (simp add: accounted_def)
    then have "removable m" using active_map_destroy_bases(3) [OF assms(1) d] by (simp add: removable_def)
    with rem j True show ?thesis unfolding release_def True d by (simp add: map_at_def)
  next
    case False
    with j assms(2) show ?thesis by (simp add: accounted_def)
  qed
  ultimately show ?thesis by (simp add: accounted_def)
qed

lemma accounted_release_opt: "view_docs api \<Longrightarrow> accounted api X s \<Longrightarrow> accounted api X (release_opt api i s)"
  by (cases i) (simp_all add: accounted_release)

lemma accounted_release_all: "view_docs api \<Longrightarrow> accounted api X s \<Longrightarrow> accounted api X (release_all api is s)"
  by (induction "is" arbitrary: s) (simp_all add: accounted_release)

subsection \<open>Writing\<close>

lemma accounted_expand:
  assumes "view_docs api" and "accounted api X s"
  shows "accounted api X (snd (expand_size api sz s))"
proof -
  obtain ok w where f: "set_file_size api (file_handle (dump_file s)) (page_align ((fsize (dump_file s) + sz) * 2)) (world s)
    = (ok, w)" by force
  then have "fewer api (world s) w"
    by (auto simp: set_file_size_def split: prod.splits if_splits
        intro: quiet_fewer(4) [OF assms(1)] fewer_trans [OF quiet_fewer(4) [OF assms(1)] quiet_fewer(5) [OF assms(1)]])
  with assms(2) have "accounted api X (s\<lparr>world := w\<rparr>)" by (rule accounted_world)
  then have "accounted api X (s\<lparr>world := w, dump_file := f\<rparr>)" for f
    using accounted_file [of api X f "s\<lparr>world := w\<rparr>"] by simp
  with \<open>accounted api X (s\<lparr>world := w\<rparr>)\<close> assms(2) show ?thesis
    unfolding expand_size_def Let_def f prod.case by (simp split: if_split)
qed

lemma accounted_do_map:
  assumes "view_docs api" and "accounted api X s" and "do_map api off s = (i, s')"
  shows "accounted api X s'"
proof -
  obtain m w where n: "active_map_new api (filename (dump_file s)) off (fsize (dump_file s) - off) (world s) = (m, w)"
    by force
  from n obtain err where mk: "make_mmap_sink api (filename (dump_file s)) off (fsize (dump_file s) - off) (world s) = (m, err, w)"
    by (auto simp: active_map_new_eq split: prod.splits)
  note mb = make_mmap_sink_bases [OF assms(1) mk]
  have s': "s' = s\<lparr>world := w, heap := heap s @ [(m, 1)]\<rparr>"
    using assms(3) by (auto simp: do_map_def n Let_def)
  have at: "map_at s' j = (if j < length (heap s) then map_at s j else m)" if "j < Suc (length (heap s))" for j
    using that by (auto simp: s' map_at_def nth_append less_Suc_eq)
  have "starts s \<subseteq> starts s'"
  proof
    fix b assume "b \<in> starts s"
    then obtain j where j: "alive s j" "mm_data (map_at s j) \<noteq> 0" "b = get_mapping_start (map_at s j)"
      by (auto simp: starts_def)
    then have "alive s' j" "map_at s' j = map_at s j"
      using alive_bound [OF j(1)] by (simp_all add: s' alive_append)
    with j show "b \<in> starts s'" unfolding starts_def by (metis (mono_tags, lifting) mem_Collect_eq)
  qed
  moreover have "get_mapping_start m \<in> starts s'" if "mm_data m \<noteq> 0"
  proof -
    have "alive s' (length (heap s))" "map_at s' (length (heap s)) = m" by (simp_all add: s' alive_append)
    with that show ?thesis unfolding starts_def by (metis (mono_tags, lifting) mem_Collect_eq)
  qed
  moreover have "world s' = w" "length (heap s') = Suc (length (heap s))" by (simp_all add: s')
  ultimately have "bases api (world s') \<subseteq> X \<union> starts s'"
    using assms(2) mb(2) unfolding accounted_def traced_def fewer_def by blast
  moreover have "\<forall>j < length (heap s'). removable (map_at s' j)"
    using assms(2) mb(1) at by (simp add: accounted_def s')
  ultimately show ?thesis by (simp add: accounted_def traced_def)
qed

lemma accounted_set_current:
  assumes "view_docs api" and "accounted api X s"
  shows "accounted api X (set_current_map api i s)"
  unfolding set_current_map_def Let_def
  by (intro accounted_release accounted_release_opt assms(1)) (simp add: accounted_retain assms(2))

lemma accounted_write_current:
  assumes "view_docs api" and "accounted api X s" and "write_current api buffer sz s = Inr (p, act, s')"
  shows "accounted api X s'"
proof -
  have "accounted api X (s\<lparr>world := store_bytes api a bs (world s), dump_file := f\<rparr>)" if "accounted api X s" for s a bs f
    using accounted_file [of api X f "s\<lparr>world := store_bytes api a bs (world s)\<rparr>"]
      accounted_world [OF that store_bytes_fewer [OF assms(1)]] by simp
  note st = this [OF accounted_retain [OF assms(2)]]
  show ?thesis
    using assms(3) accounted_retain [OF assms(2)] st
    by (auto simp: write_current_def Let_def split: option.splits if_splits)
qed

lemma accounted_write:
  assumes "view_docs api" and "accounted api X s" and "m_write api buffer sz s = Inr (p, act, s')"
  shows "accounted api X s'"
proof -
  let ?off = "foffset (dump_file s)"
  obtain i s2 where d: "do_map api ?off (snd (expand_size api sz s)) = (i, s2)" by force
  have s2: "accounted api X s2" by (rule accounted_do_map [OF assms(1) accounted_expand [OF assms(1,2)] d])
  show ?thesis
    using assms(3) accounted_write_current [OF assms(1,2)] accounted_release [OF assms(1) s2]
      accounted_write_current [OF assms(1) accounted_set_current [OF assms(1) s2]]
    by (auto simp: m_write_def Let_def d split: if_splits)
qed

text \<open>A new dump file owns nothing; whatever is mapped then is foreign.\<close>

lemma accounted_new: "bases api w \<subseteq> X \<Longrightarrow> accounted api X \<lparr>world = w, heap = [], dump_file = f\<rparr>"
  by (auto simp: accounted_def traced_def)

subsection \<open>The sample platform\<close>

lemma sample_view_docs: "view_docs sample_api"
proof -
  have v: "bases sample_api w = {b. \<exists>a p. find_view (views w) a = Some (b, p)}" for w
    by (simp add: bases_def sample_api_def)
  have m: "bases sample_api w' \<subseteq> (if b = 0 then bases sample_api w else insert b (bases sample_api w)) \<and> unat b < 2 ^ 48"
    if "sample_map h m hi lo n w = (b, w')" for h m hi lo n w b w'
  proof -
    define base where "base = (views_top (views w) div 65536 + 1) * 65536"
    show ?thesis
    proof (cases "base + unat n < 2 ^ 48")
      case True
      with that have b: "b = of_nat base" "w' = w\<lparr>views := (b, n, Some (file_offset hi lo)) # views w\<rparr>"
        by (auto simp: sample_map_def base_def Let_def)
      have ub: "unat b = base" using True unfolding b by (intro unat_of_nat_u64) simp
      with True have "b \<noteq> 0" by (auto simp: base_def)
      with ub True show ?thesis by (auto simp: v b(2) split: if_splits)
    next
      case False
      with that show ?thesis by (auto simp: sample_map_def base_def Let_def)
    qed
  qed
  have "bases sample_api (snd (sample_unmap b w)) \<subseteq> bases sample_api w - {b}" for b w
    by (auto simp: v sample_unmap_def find_view_unmap)
  moreover have "bases sample_api (sample_store a b w) = bases sample_api w" for a b w
    by (simp add: v sample_store_def split: option.split)
  moreover have "bases sample_api (snd (sample_rpm h a n w)) = bases sample_api w" for h a n w
    by (simp add: sample_rpm_def split: option.split)
  moreover have "bases sample_api (w\<lparr>fptr := x\<rparr>) = bases sample_api w" "bases sample_api (w\<lparr>eof := x\<rparr>) = bases sample_api w" for w x
    by (simp_all add: v)
  ultimately show ?thesis using m unfolding view_docs_def sample_api_fields by simp
qed

lemma accounted_sample_sys: "accounted sample_api {} (sample_sys regions mem)"
  by (simp add: accounted_def traced_def bases_def sample_api_def sample_write_defs del: sample_api_fields)

end
