(* ===== verification/Dump_Buffer.thy ===== *)
theory Dump_Buffer
  imports Dump_Store Map_Views
begin

text \<open>
  The class \<open>dumpable<uint8_t>\<close> (\<open>dumpable/dumpable.hpp\<close>), the base class of the memory regions: the
  spans written so far, the in-memory buffer, and the set of pointers to the maps that keep the
  spans alive. Its \<open>shared_ptr<m_file>\<close> is the dump file of the state.

  A span is an address and a length. The index that \<open>dump\<close> returns is a C++ \<open>int\<close>, here a 32-bit
  word.
\<close>

type_synonym byte_span = "u64 \<times> u64"

record dumpable =
  spans :: "byte_span list"
  in_memory :: "u8 list"
  map_set :: "nat list"

definition new_dumpable :: dumpable where
  "new_dumpable = \<lparr>spans = [], in_memory = [], map_set = []\<rparr>"

text \<open>
  \<open>write_data\<close>: the local \<open>map\<close> is copied into the set when the set does not hold it yet and goes
  out of scope at the end, so the pointer is either handed to the set or released.
\<close>

definition write_data ::
  "'w win32 \<Rightarrow> u8 list option \<Rightarrow> u64 \<Rightarrow> dumpable \<Rightarrow> 'w sys \<Rightarrow> (byte_span \<times> dumpable \<times> 'w sys) res" where
  "write_data api buffer sz d s =
     (let byte_size = sz * 1
      in case m_write api buffer byte_size s of
           Inl e \<Rightarrow> Inl e
         | Inr (ptr, act, s1) \<Rightarrow>
             if ptr \<noteq> 0
             then (case act of
                     Some i \<Rightarrow>
                       if i \<in> set (map_set d) then Inr ((ptr, sz), d, release api i s1)
                       else Inr ((ptr, sz), d\<lparr>map_set := map_set d @ [i]\<rparr>, s1)
                   | None \<Rightarrow> Inr ((ptr, sz), d, s1))
             else Inr ((0, 0), d, release_opt api act s1))"

definition add :: "u8 \<Rightarrow> dumpable \<Rightarrow> dumpable" where
  "add element d = d\<lparr>in_memory := in_memory d @ [element]\<rparr>"

definition dump ::
  "'w win32 \<Rightarrow> u8 list option \<Rightarrow> u64 \<Rightarrow> dumpable \<Rightarrow> 'w sys \<Rightarrow> (u32 \<times> dumpable \<times> 'w sys) res" where
  "dump api buffer sz d s =
     (case write_data api buffer sz d s of
        Inl e \<Rightarrow> Inl e
      | Inr (sp, d1, s1) \<Rightarrow>
          if snd sp = 0 then Inr (- 1, d1, s1)
          else let d2 = d1\<lparr>spans := spans d1 @ [sp]\<rparr>
               in Inr (of_nat (length (spans d2)) - 1, d2, s1))"

definition dump_vector ::
  "'w win32 \<Rightarrow> u8 list \<Rightarrow> dumpable \<Rightarrow> 'w sys \<Rightarrow> (u32 \<times> dumpable \<times> 'w sys) res" where
  "dump_vector api data d s = dump api (Some data) (of_nat (length data)) d s"

definition dump_in_memory :: "'w win32 \<Rightarrow> dumpable \<Rightarrow> 'w sys \<Rightarrow> (u32 \<times> dumpable \<times> 'w sys) res" where
  "dump_in_memory api d s = dump_vector api (in_memory d) d s"

definition alloc_f :: "'w win32 \<Rightarrow> u64 \<Rightarrow> dumpable \<Rightarrow> 'w sys \<Rightarrow> (u32 \<times> dumpable \<times> 'w sys) res" where
  "alloc_f api sz d s = dump api None sz d s"

definition span_at :: "u32 \<Rightarrow> dumpable \<Rightarrow> byte_span" where
  "span_at index d =
     (if index = - 1 \<or> of_nat (length (spans d)) \<le> (scast index :: u64) then (0, 0)
      else spans d ! unat (scast index :: u64))"

definition dumpable_destroy :: "'w win32 \<Rightarrow> dumpable \<Rightarrow> 'w sys \<Rightarrow> 'w sys" where
  "dumpable_destroy api d s = release_all api (map_set d) s"

subsection \<open>The invariant\<close>

text \<open>
  Every span lies in a live range of the dump file that a pointer of the set keeps alive.
  \<open>refs\<close> counts the pointers of all holders, the set of this object included.
\<close>

definition buffer_ok :: "'w win32 \<Rightarrow> 'w sys \<times> (nat \<Rightarrow> nat) \<Rightarrow> dumpable \<Rightarrow> bool" where
  "buffer_ok api st d \<longleftrightarrow> distinct (map_set d) \<and> (\<forall>i \<in> set (map_set d). 0 < snd st i)
     \<and> (\<forall>(p, n) \<in> set (spans d). \<exists>i \<in> set (map_set d). dump_live api st (i, p, unat n))"

lemma new_buffer_ok [simp]: "buffer_ok api st new_dumpable"
  by (simp add: buffer_ok_def new_dumpable_def)

text \<open>Dropping a pointer that is not the last one only changes the count.\<close>

lemma release_shared:
  assumes "store_inv api (refs(i := Suc (refs i))) s" and "0 < refs i"
  shows "world (release api i s) = world s" and "store_inv api refs (release api i s)"
    and "held api (release api i s) = held api s"
proof -
  let ?s = "release api i s"
  have inv: "heap_ok api s" "file_ok api s" "refs_ok (refs(i := Suc (refs i))) s"
    using assms(1) by (simp_all add: store_inv_def)
  have al: "alive s i" by (rule refs_ok_alive [OF inv(3)]) simp
  then have il: "i < length (heap s)" by (rule alive_bound)
  then have uc: "2 \<le> use_count s i" using inv(3) assms(2) by (simp add: refs_ok_def)
  then show w: "world ?s = world s" by (simp add: release_def)
  have "map_at ?s j = map_at s j" for j
    using uc map_at_release_shared [OF il, of api] by (cases "j = i") simp_all
  then have eq: "map_at ?s = map_at s" by blast
  have ale: "alive ?s = alive s" using uc by (auto simp: alive_release [OF al] fun_eq_iff)
  show "held api ?s = held api s" by (simp add: held_def eq ale w fun_eq_iff)
  have "heap_ok api ?s" using inv(1) unfolding heap_ok_def eq ale w .
  moreover have "map_ok api ?s = map_ok api s" unfolding map_ok_def eq ale w release_simps ..
  moreover have "refs_ok refs ?s" using refs_ok_release [OF inv(3), of i api] by simp
  ultimately show "store_inv api refs ?s" using inv(2) by (simp add: store_inv_def file_ok_def)
qed

text \<open>
  What a write by a dumpable leaves: more pointers counted, the written bytes in a live range, and
  every range that was live before still live with its bytes.
\<close>

definition grows :: "'w win32 \<Rightarrow> 'w sys \<times> (nat \<Rightarrow> nat) \<Rightarrow> 'w sys \<times> (nat \<Rightarrow> nat) \<Rightarrow> bool" where
  "grows api st st' \<longleftrightarrow> dump_inv api st' \<and> (\<forall>i. snd st i \<le> snd st' i)
     \<and> (\<forall>r. dump_live api st r \<longrightarrow> dump_live api st' r \<and> dump_content api st' r = dump_content api st r)"

lemma write_data_spec:
  assumes "dump_inv api (s, refs)" and room: "dump_room (s, refs) (unat sz)" and "buffer_ok api (s, refs) d"
    and buf: "\<And>bs. buffer = Some bs \<Longrightarrow> unat sz \<le> length bs"
    and run: "write_data api buffer sz d s = Inr ((p, n), d', s')" and "n \<noteq> 0"
  shows "\<exists>refs' i. n = sz \<and> grows api (s, refs) (s', refs') \<and> i \<in> set (map_set d')
    \<and> dump_live api (s', refs') (i, p, unat sz)
    \<and> dump_content api (s', refs') (i, p, unat sz) = written buffer (unat sz)
    \<and> buffer_ok api (s', refs') d' \<and> spans d' = spans d"
proof -
  have pre: "memory_docs api" "disk_ok api" "store_inv api refs s" "0 < unat sz"
    "unat (foffset (dump_file s)) + unat sz \<le> 2 ^ 60"
    using assms(1) room by (simp_all add: dump_inv_def dump_room_def)
  have "(\<exists>s1. m_write api buffer sz s = Inr (0, None, s1) \<and> frame api (\<lambda>_ _. True) s s1
      \<and> heap_ok api s1 \<and> refs_ok refs s1)
    \<or> (\<exists>p i s1. m_write api buffer sz s = Inr (p, Some i, s1) \<and> wrote api refs (written buffer (unat sz)) s p i s1)"
    by (rule m_write_spec [OF pre]) (rule buf)
  with run \<open>n \<noteq> 0\<close> obtain i s1 where mw: "m_write api buffer sz s = Inr (p, Some i, s1)"
    and w: "wrote api refs (written buffer (unat sz)) s p i s1"
    by (auto simp: write_data_def split: if_splits)
  have lw: "length (written buffer (unat sz)) = unat sz" using buf by simp
  have p: "p \<noteq> 0" using w by (simp add: wrote_def)
  define refs1 where "refs1 = refs(i := Suc (refs i))"
  have inv1: "dump_inv api (s1, refs1)" using w pre by (simp add: dump_inv_def wrote_def refs1_def)
  have old: "dump_live api (s1, refs1) r \<and> dump_content api (s1, refs1) r = dump_content api (s, refs) r"
    if "dump_live api (s, refs) r" for r
    using that dump_live_keeps [OF w] unfolding refs1_def by (cases r) (simp add: dump_content_def)
  have new: "dump_live api (s1, refs1) (i, p, unat sz)"
    "dump_content api (s1, refs1) (i, p, unat sz) = written buffer (unat sz)"
    using dump_live_new [OF w] w pre(4) by (simp_all add: lw refs1_def dump_content_def wrote_def)
  have spans_ok: "\<exists>j \<in> set (map_set d). dump_live api (s1, refs1) (j, q, unat m)" if "(q, m) \<in> set (spans d)" for q m
    using assms(3) that old unfolding buffer_ok_def by fastforce
  show ?thesis
  proof (cases "i \<in> set (map_set d)")
    case False
    with run mw p have r: "n = sz" "d' = d\<lparr>map_set := map_set d @ [i]\<rparr>" "s' = s1"
      by (simp_all add: write_data_def)
    have "buffer_ok api (s', refs1) d'"
      using assms(3) False spans_ok unfolding buffer_ok_def r
      by (auto simp: refs1_def)
    then show ?thesis
      using r new inv1 old by (intro exI [of _ refs1] exI [of _ i]) (auto simp: grows_def refs1_def)
  next
    case True
    with run mw p have r: "n = sz" "d' = d" "s' = release api i s1"
      by (simp_all add: write_data_def)
    have ri: "0 < refs i" using True assms(3) by (simp add: buffer_ok_def)
    have "store_inv api (refs(i := Suc (refs i))) s1" using w by (simp add: wrote_def)
    note rel = release_shared [OF this ri, folded r(3)]
    have same: "dump_live api (s', refs) x = dump_live api (s1, refs1) x"
      "dump_content api (s', refs) x = dump_content api (s1, refs1) x" for x
      using rel ri by (auto simp: dump_live_def dump_content_def pos_of_def refs1_def r(3) split: prod.splits)
    have "dump_inv api (s', refs)" using pre rel by (simp add: dump_inv_def)
    moreover have "buffer_ok api (s', refs) d'"
      using assms(3) spans_ok unfolding buffer_ok_def r(2) by (simp add: same) blast
    ultimately show ?thesis
      using True new old by (intro exI [of _ refs] exI [of _ i]) (auto simp: grows_def same r(1,2))
  qed
qed


text \<open>No view is lost track of.\<close>

lemma accounted_write_data:
  assumes "view_docs api" and "accounted api X s" and "write_data api buffer sz d s = Inr (sp, d', s')"
  shows "accounted api X s'"
  using assms(3) accounted_write [OF assms(1,2)] accounted_release [OF assms(1)] accounted_release_opt [OF assms(1)]
  by (fastforce simp: write_data_def split: sum.splits if_splits option.splits)

lemma accounted_dump:
  assumes "view_docs api" and "accounted api X s" and "dump api buffer sz d s = Inr (idx, d', s')"
  shows "accounted api X s'"
  using assms(3) accounted_write_data [OF assms(1,2)]
  by (auto simp: dump_def Let_def split: sum.splits if_splits)

subsection \<open>Destruction\<close>

lemma release_inv:
  assumes "dump_inv api (s, refs)" and "0 < refs i"
  defines "refs' \<equiv> refs(i := refs i - 1)" and "s' \<equiv> release api i s"
  shows "dump_inv api (s', refs')"
    and "dump_live api (s, refs) (j, p, n) \<Longrightarrow> 0 < refs' j \<Longrightarrow>
      dump_live api (s', refs') (j, p, n) \<and> load_bytes api (world s') p n = load_bytes api (world s) p n
      \<and> pos_of api s' p = pos_of api s p"
proof -
  have docs: "memory_docs api" "disk_ok api" and inv: "heap_ok api s" "file_ok api s" "refs_ok refs s"
    using assms(1) by (simp_all add: dump_inv_def store_inv_def)
  have al: "alive s i" using inv(3) assms(2) by (rule refs_ok_alive)
  then have il: "i < length (heap s)" by (rule alive_bound)
  have fr: "frame api D s s'" for D unfolding s'_def using docs(1) inv(1) al by (rule frame_release)
  have refs': "refs_ok refs' s'" unfolding refs'_def s'_def using inv(3) assms(2) by (rule refs_ok_release)
  have df: "dump_file s' = dump_file s" by (simp add: s'_def)
  have "map_ok api s'"
  proof (cases "current_map (dump_file s)")
    case None
    then show ?thesis using inv(2) by (simp add: file_ok_def map_ok_def df Let_def)
  next
    case (Some c)
    have ac: "alive s' c" by (rule refs_ok_current [OF refs']) (simp add: df Some)
    then have mc: "map_at s' c = map_at s c" by (simp add: s'_def)
    from inv(2) Some obtain start where a: "alive s c" and m: "maps_file api (world s) (map_at s c) start"
      "start + unat (map_offset (dump_file s)) = unat (foffset (dump_file s))"
      "start + unat (mm_length (map_at s c)) = unat (fsize (dump_file s))"
      by (auto simp: file_ok_def map_ok_def Let_def)
    have "held api s c (mm_data (map_at s c)) (unat (mm_length (map_at s c))) start"
      using a m(1) by (simp add: held_def maps_file_def)
    then have "held api s' c (mm_data (map_at s c)) (unat (mm_length (map_at s c))) start"
      using fr [of "\<lambda>_ _. True"] ac unfolding frame_def by blast
    with m(1) have "maps_file api (world s') (map_at s c) start" by (simp add: maps_file_def held_def mc)
    with inv(2) Some ac m(2,3) show ?thesis
      by (auto simp: file_ok_def map_ok_def df mc Let_def)
  qed
  with heap_ok_release [OF docs(1) inv(1) al] refs' inv(2) docs show "dump_inv api (s', refs')"
    by (simp add: dump_inv_def store_inv_def file_ok_def df) (simp add: s'_def)
  assume lv: "dump_live api (s, refs) (j, p, n)" and "0 < refs' j"
  from refs' this(2) have aj: "alive s' j" by (rule refs_ok_alive)
  from lv have h: "held api s j p n (pos_of api s p)" and n: "0 < n" by (simp_all add: dump_live_def)
  with fr [of "\<lambda>_ _. True"] aj have h': "held api s' j p n (pos_of api s p)"
    "load_bytes api (world s') p n = load_bytes api (world s) p n"
    unfolding frame_def by blast+
  from pos_of_held [OF h'(1) n] have "pos_of api s' p = pos_of api s p" .
  with lv h' \<open>0 < refs' j\<close> show "dump_live api (s', refs') (j, p, n)
      \<and> load_bytes api (world s') p n = load_bytes api (world s) p n \<and> pos_of api s' p = pos_of api s p"
    by (simp add: dump_live_def df)
qed

text \<open>The store with ranges that are given back one by one.\<close>

locale counted_range_store = range_store inv room live apart content alloc fill
  for inv :: "'s \<Rightarrow> bool" and room :: "'s \<Rightarrow> nat \<Rightarrow> bool" and live :: "'s \<Rightarrow> 'r \<Rightarrow> bool"
    and apart :: "'s \<Rightarrow> 'r \<Rightarrow> 'r \<Rightarrow> bool" and content :: "'s \<Rightarrow> 'r \<Rightarrow> u8 list"
    and alloc :: "nat \<Rightarrow> 's \<Rightarrow> ('r \<times> 's) option" and fill :: "'r \<Rightarrow> u8 list \<Rightarrow> 's \<Rightarrow> 's" +
  fixes free :: "'r \<Rightarrow> 's \<Rightarrow> 's"
    and survives :: "'s \<Rightarrow> 'r \<Rightarrow> 'r \<Rightarrow> bool"
  assumes free_inv: "inv s \<Longrightarrow> live s r \<Longrightarrow> inv (free r s)"
    and free_keeps: "inv s \<Longrightarrow> live s r \<Longrightarrow> live s q \<Longrightarrow> survives s r q \<Longrightarrow>
      live (free r s) q \<and> content (free r s) q = content s q"
    and free_apart: "inv s \<Longrightarrow> live s r \<Longrightarrow> live s p \<Longrightarrow> survives s r p \<Longrightarrow> live s q \<Longrightarrow> survives s r q \<Longrightarrow>
      apart (free r s) p q = apart s p q"
begin

lemma holds_free:
  assumes "holds s h" and "h k = Some r" and "\<And>l q. l \<noteq> k \<Longrightarrow> h l = Some q \<Longrightarrow> survives s r q"
  shows "holds (free r s) (h(k := None))" and "contents (free r s) (h(k := None)) = (contents s h)(k := None)"
proof -
  have inv: "inv s" and lv: "\<And>l q. h l = Some q \<Longrightarrow> live s q"
    and ap: "\<And>l m p q. l \<noteq> m \<Longrightarrow> h l = Some p \<Longrightarrow> h m = Some q \<Longrightarrow> apart s p q"
    using assms(1) by (auto simp: holds_def)
  note r = lv [OF assms(2)]
  have kp: "live (free r s) q \<and> content (free r s) q = content s q" if "l \<noteq> k" "h l = Some q" for l q
    using free_keeps [OF inv r lv [OF that(2)] assms(3) [OF that]] .
  have "apart (free r s) p q" if "l \<noteq> m" "l \<noteq> k" "m \<noteq> k" "h l = Some p" "h m = Some q" for l m p q
    using free_apart [OF inv r lv [OF that(4)] assms(3) [OF that(2,4)] lv [OF that(5)] assms(3) [OF that(3,5)]]
      ap [OF that(1,4,5)] by simp
  then show "holds (free r s) (h(k := None))"
    using free_inv [OF inv r] kp by (auto simp: holds_def)
  show "contents (free r s) (h(k := None)) = (contents s h)(k := None)"
    using kp by (auto simp: contents_def fun_eq_iff intro!: option.map_cong)
qed

end

definition dump_free :: "'w win32 \<Rightarrow> range \<Rightarrow> 'w sys \<times> (nat \<Rightarrow> nat) \<Rightarrow> 'w sys \<times> (nat \<Rightarrow> nat)" where
  "dump_free api r st = (case r of (i, p, n) \<Rightarrow> (release api i (fst st), (snd st)(i := snd st i - 1)))"

definition dump_survives :: "'w sys \<times> (nat \<Rightarrow> nat) \<Rightarrow> range \<Rightarrow> range \<Rightarrow> bool" where
  "dump_survives st r q \<longleftrightarrow> fst r \<noteq> fst q \<or> 2 \<le> snd st (fst r)"

lemma dump_free_laws:
  assumes "dump_inv api st" and "dump_live api st r"
  shows "dump_inv api (dump_free api r st)"
    and "dump_live api st q \<Longrightarrow> dump_survives st r q \<Longrightarrow>
      dump_live api (dump_free api r st) q \<and> dump_content api (dump_free api r st) q = dump_content api st q"
    and "dump_live api st p \<Longrightarrow> dump_survives st r p \<Longrightarrow> dump_live api st q \<Longrightarrow> dump_survives st r q \<Longrightarrow>
      dump_apart api (dump_free api r st) p q = dump_apart api st p q"
proof -
  obtain s refs where st: "st = (s, refs)" by force
  obtain i a n where r: "r = (i, a, n)" by (metis prod_cases3)
  have ri: "0 < refs i" using assms(2) by (simp add: dump_live_def st r)
  note rel = release_inv [OF assms(1) [unfolded st] ri]
  show "dump_inv api (dump_free api r st)" using rel(1) by (simp add: dump_free_def st r)
  have pos: "0 < (refs(i := refs i - 1)) j" if "dump_live api st (j, b, m)" "dump_survives st r (j, b, m)" for j b m
    using that by (auto simp: dump_live_def dump_survives_def st r)
  show "dump_live api (dump_free api r st) q \<and> dump_content api (dump_free api r st) q = dump_content api st q"
    if "dump_live api st q" "dump_survives st r q"
  proof -
    obtain j b m where q: "q = (j, b, m)" by (metis prod_cases3)
    from rel(2) [OF that(1) [unfolded st q] pos [OF that [unfolded q]]]
    show ?thesis by (simp add: dump_free_def dump_content_def st r q)
  qed
  show "dump_apart api (dump_free api r st) p q = dump_apart api st p q"
    if "dump_live api st p" "dump_survives st r p" "dump_live api st q" "dump_survives st r q"
  proof -
    obtain j b m where q: "q = (j, b, m)" by (metis prod_cases3)
    obtain l c k where p: "p = (l, c, k)" by (metis prod_cases3)
    from rel(2) [OF that(3) [unfolded st q] pos [OF that(3,4) [unfolded q]]]
      rel(2) [OF that(1) [unfolded st p] pos [OF that(1,2) [unfolded p]]]
    show ?thesis by (simp add: dump_free_def dump_apart_def st r p q)
  qed
qed

interpretation counted_dump: counted_range_store "dump_inv api" dump_room "dump_live api" "dump_apart api"
  "dump_content api" "dump_alloc api" "dump_fill api" "dump_free api" dump_survives
  for api :: "'w win32"
proof (unfold_locales, goal_cases)
  case 1
  then show ?case by (rule dump_free_laws(1))
next
  case 2
  then show ?case by (rule dump_free_laws(2))
next
  case 3
  then show ?case by (rule dump_free_laws(3))
qed

text \<open>The counts once one pointer to each map of a list is gone.\<close>

definition drop_refs :: "nat list \<Rightarrow> (nat \<Rightarrow> nat) \<Rightarrow> nat \<Rightarrow> nat" where
  "drop_refs is refs j = refs j - count_list is j"

lemma release_all_inv:
  assumes "dump_inv api (s, refs)" and "\<And>i. count_list is i \<le> refs i"
  shows "dump_inv api (release_all api is s, drop_refs is refs)
    \<and> (\<forall>j p n. dump_live api (s, refs) (j, p, n) \<longrightarrow> 0 < drop_refs is refs j \<longrightarrow>
         dump_live api (release_all api is s, drop_refs is refs) (j, p, n)
         \<and> load_bytes api (world (release_all api is s)) p n = load_bytes api (world s) p n)"
  using assms
proof (induction "is" arbitrary: s refs)
  case Nil
  then show ?case by (simp add: drop_refs_def)
next
  case (Cons i "is")
  have c: "count_list (i # is) j \<le> refs j" for j by (rule Cons.prems(2))
  from c [of i] have ri: "0 < refs i" by simp
  let ?refs = "refs(i := refs i - 1)"
  note r = release_inv [OF Cons.prems(1) ri]
  have le: "count_list is j \<le> ?refs j" for j using c [of j] by (cases "j = i") auto
  have d: "drop_refs is ?refs = drop_refs (i # is) refs"
    by (auto simp: drop_refs_def fun_eq_iff)
  note ih = Cons.IH [OF r(1) le, unfolded d]
  show ?case
  proof (intro conjI allI impI)
    show "dump_inv api (release_all api (i # is) s, drop_refs (i # is) refs)" using ih by simp
    fix j p n
    assume lv: "dump_live api (s, refs) (j, p, n)" and pos: "0 < drop_refs (i # is) refs j"
    then have "0 < ?refs j" unfolding d [symmetric] by (simp add: drop_refs_def)
    with r(2) [OF lv] have r1: "dump_live api (release api i s, ?refs) (j, p, n)"
      "load_bytes api (world (release api i s)) p n = load_bytes api (world s) p n" by blast+
    with conjunct2 [OF ih] pos
    have "dump_live api (release_all api is (release api i s), drop_refs (i # is) refs) (j, p, n)"
      "load_bytes api (world (release_all api is (release api i s))) p n = load_bytes api (world (release api i s)) p n"
      by blast+
    then show "dump_live api (release_all api (i # is) s, drop_refs (i # is) refs) (j, p, n)"
      "load_bytes api (world (release_all api (i # is) s)) p n = load_bytes api (world s) p n"
      using r1 by simp_all
  qed
qed

lemma count_list_distinct: "distinct xs \<Longrightarrow> count_list xs x = (if x \<in> set xs then 1 else 0)"
  by (induction xs) auto

lemma destroy_spec:
  assumes "dump_inv api (s, refs)" and "buffer_ok api (s, refs) d"
  shows "dump_inv api (dumpable_destroy api d s, drop_refs (map_set d) refs)"
    and "dump_live api (s, refs) (j, p, n) \<Longrightarrow> 0 < drop_refs (map_set d) refs j \<Longrightarrow>
      dump_live api (dumpable_destroy api d s, drop_refs (map_set d) refs) (j, p, n)
      \<and> load_bytes api (world (dumpable_destroy api d s)) p n = load_bytes api (world s) p n"
proof -
  have "count_list (map_set d) i \<le> refs i" for i
    using assms(2) by (auto simp: buffer_ok_def count_list_distinct Suc_le_eq)
  from release_all_inv [OF assms(1) this]
  show "dump_inv api (dumpable_destroy api d s, drop_refs (map_set d) refs)"
    and "dump_live api (s, refs) (j, p, n) \<Longrightarrow> 0 < drop_refs (map_set d) refs j \<Longrightarrow>
      dump_live api (dumpable_destroy api d s, drop_refs (map_set d) refs) (j, p, n)
      \<and> load_bytes api (world (dumpable_destroy api d s)) p n = load_bytes api (world s) p n"
    by (simp_all add: dumpable_destroy_def)
qed

lemma file_destroy_spec:
  assumes "dump_inv api (s, no_refs)"
  shows "\<not> alive (m_file_destroy api s) i"
proof -
  let ?f = "dump_file s"
  define s0 where "s0 = s\<lparr>dump_file := ?f\<lparr>fvalid := False, current_map := None\<rparr>\<rparr>"
  have refs: "refs_ok no_refs s" using assms by (simp add: dump_inv_def store_inv_def)
  have "alive (m_file_destroy api s) = alive (release_opt api (current_map ?f) s0)"
    by (simp add: m_file_destroy_def s0_def alive_def use_count_def fun_eq_iff Let_def)
  moreover have "\<not> alive (release_opt api (current_map ?f) s0) i"
  proof (cases "current_map ?f")
    case None
    with refs show ?thesis by (auto simp: s0_def alive_def refs_ok_def no_refs_def)
  next
    case (Some c)
    have "alive s c" using refs Some by (rule refs_ok_current)
    with refs Some show ?thesis
      by (auto simp: s0_def alive_release) (auto simp: alive_def refs_ok_def no_refs_def split: if_splits)
  qed
  ultimately show ?thesis by simp
qed


subsection \<open>Properties\<close>

lemma unat_scast_int: "k < 2 ^ 31 \<Longrightarrow> unat (scast (of_nat k :: u32) :: u64) = k"
proof -
  assume k: "k < 2 ^ 31"
  then have "sint (of_nat k :: u32) = int k"
    by (simp add: signed_of_nat signed_take_bit_int_eq_self)
  then have "(scast (of_nat k :: u32) :: u64) = of_nat k" by (simp add: scast_eq)
  moreover have "k < 2 ^ 64" using k by simp
  ultimately show ?thesis by (simp only: unat_of_nat_u64)
qed

lemma span_at_last:
  assumes "length (spans d) < 2 ^ 31 - 1" and "spans d' = spans d @ [sp]"
  shows "of_nat (length (spans d')) - 1 = (of_nat (length (spans d)) :: u32)"
    and "span_at (of_nat (length (spans d))) d' = sp"
proof -
  let ?k = "length (spans d)"
  show "of_nat (length (spans d')) - 1 = (of_nat ?k :: u32)" by (simp add: assms(2))
  have u: "unat (scast (of_nat ?k :: u32) :: u64) = ?k" using assms(1) by (intro unat_scast_int) simp
  have "(of_nat ?k :: u32) \<noteq> - 1"
  proof
    assume "(of_nat ?k :: u32) = - 1"
    then have "unat (of_nat ?k :: u32) = mask 32" by (simp add: unsigned_minus_1_eq_mask)
    with assms(1) show False by (simp add: unat_of_nat take_bit_nat_eq_self mask_eq_exp_minus_1)
  qed
  moreover have "\<not> of_nat (length (spans d')) \<le> (scast (of_nat ?k :: u32) :: u64)"
  proof -
    have "unat (of_nat (Suc ?k) :: u64) = Suc ?k" using assms(1) by (intro unat_of_nat_u64) simp
    then show ?thesis using u by (simp add: word_le_nat_alt assms(2) del: of_nat_Suc)
  qed
  ultimately show "span_at (of_nat ?k) d' = sp" by (simp add: span_at_def u assms(2))
qed

text \<open>One write on the sample platform, for the witnesses.\<close>

lemma sample_dump_inv: "dump_inv sample_api (sample_sys regions mem, no_refs)"
  by (simp add: dump_inv_def sample_memory_docs sample_disk_ok sample_sys_inv)

lemma sample_dump_room: "0 < n \<Longrightarrow> n \<le> 2 ^ 60 \<Longrightarrow> dump_room (sample_sys regions mem, no_refs) n"
  by (simp add: dump_room_def sample_sys_inv)

lemma sample_dump:
  "case dump sample_api (Some [1, 2, 3]) 3 new_dumpable (sample_sys [] (\<lambda>_. 0)) of
     Inl e \<Rightarrow> False | Inr (idx, d, s) \<Rightarrow> idx = 0"
  by (simp add: dump_def write_data_def new_dumpable_def sample_write_defs)

lemma fresh_dump:
  assumes "dump_inv api (s, refs)" and "dump_room (s, refs) (unat sz)" and "unat sz \<le> length bs"
    and "dump api (Some bs) sz new_dumpable s = Inr (0, d, s')"
  shows "\<exists>p i. d = \<lparr>spans = [(p, sz)], in_memory = [], map_set = [i]\<rparr>
    \<and> wrote api refs (take (unat sz) bs) s p i s' \<and> dump_inv api (s', refs(i := Suc (refs i)))
    \<and> dump_live api (s', refs(i := Suc (refs i))) (i, p, unat sz)
    \<and> load_bytes api (world s') p (unat sz) = take (unat sz) bs"
proof -
  have pre: "memory_docs api" "disk_ok api" "store_inv api refs s" "0 < unat sz"
    "unat (foffset (dump_file s)) + unat sz \<le> 2 ^ 60"
    using assms(1,2) by (simp_all add: dump_inv_def dump_room_def)
  have "(\<exists>s1. m_write api (Some bs) sz s = Inr (0, None, s1) \<and> frame api (\<lambda>_ _. True) s s1
      \<and> heap_ok api s1 \<and> refs_ok refs s1)
    \<or> (\<exists>p i s1. m_write api (Some bs) sz s = Inr (p, Some i, s1) \<and> wrote api refs (written (Some bs) (unat sz)) s p i s1)"
    by (rule m_write_spec [OF pre]) (simp add: assms(3))
  with assms(4) obtain p i where d: "d = \<lparr>spans = [(p, sz)], in_memory = [], map_set = [i]\<rparr>"
    and w: "wrote api refs (take (unat sz) bs) s p i s'"
    by (auto simp: dump_def write_data_def new_dumpable_def written_def wrote_def split: if_splits)
  have l: "length (take (unat sz) bs) = unat sz" using assms(3) by simp
  have "dump_inv api (s', refs(i := Suc (refs i)))" using w pre by (simp add: dump_inv_def wrote_def)
  moreover have "dump_live api (s', refs(i := Suc (refs i))) (i, p, unat sz)"
    using dump_live_new(1) [OF w] pre(4) by (simp add: l del: length_take)
  moreover have "load_bytes api (world s') p (unat sz) = take (unat sz) bs"
    using w by (simp add: wrote_def l del: length_take)
  ultimately show ?thesis using d w by blast
qed

lemma sample_dump_state:
  "\<exists>d i s. dump sample_api (Some [1, 2, 3]) 3 new_dumpable (sample_sys [] (\<lambda>_. 0)) = Inr (0, d, s)
     \<and> map_set d = [i] \<and> buffer_ok sample_api (s, no_refs(i := 1)) d \<and> dump_inv sample_api (s, no_refs(i := 1))"
proof -
  obtain d s where r: "dump sample_api (Some [1, 2, 3]) 3 new_dumpable (sample_sys [] (\<lambda>_. 0)) = Inr (0, d, s)"
    using sample_dump by (auto split: sum.splits)
  from fresh_dump [OF sample_dump_inv _ _ this] r show ?thesis
    by (fastforce simp: sample_dump_room buffer_ok_def no_refs_def)
qed

text \<open>Two dumpables that share a map, for the witnesses.\<close>

lemma sample_two_dumps:
  "case dump sample_api (Some [1, 2, 3]) 3 new_dumpable (sample_sys [] (\<lambda>_. 0)) of
     Inl _ \<Rightarrow> False
   | Inr (idx, d, s) \<Rightarrow> idx = 0 \<and> map_set d = [0] \<and> unat (foffset (dump_file s)) = 3
       \<and> (case dump sample_api (Some [4, 5]) 2 new_dumpable s of
            Inl _ \<Rightarrow> False | Inr (idx', e, s') \<Rightarrow> idx' = 0 \<and> map_set e = [0])"
  by (simp add: dump_def write_data_def new_dumpable_def sample_write_defs)

lemma sample_shared_map:
  "\<exists>d e s refs. dump_inv sample_api (s, refs) \<and> buffer_ok sample_api (s, refs) d \<and> buffer_ok sample_api (s, refs) e
     \<and> map_set d = [0] \<and> map_set e = [0] \<and> 2 \<le> refs 0
     \<and> (\<exists>p. spans e = [(p, 2)] \<and> load_bytes sample_api (world s) p 2 = [4, 5])"
proof -
  let ?r1 = "no_refs(0 := Suc (no_refs 0))"
  let ?r2 = "?r1(0 := Suc (?r1 0))"
  obtain d s1 e s2 where r1: "dump sample_api (Some [1, 2, 3]) 3 new_dumpable (sample_sys [] (\<lambda>_. 0)) = Inr (0, d, s1)"
    and r2: "dump sample_api (Some [4, 5]) 2 new_dumpable s1 = Inr (0, e, s2)"
    and m: "map_set d = [0]" "map_set e = [0]" and off: "unat (foffset (dump_file s1)) = 3"
  proof -
    obtain d s1 where 1: "dump sample_api (Some [1, 2, 3]) 3 new_dumpable (sample_sys [] (\<lambda>_. 0)) = Inr (0, d, s1)"
      using sample_dump by (auto split: sum.splits)
    show thesis
      by (cases "dump sample_api (Some [4, 5]) 2 new_dumpable s1") (use sample_two_dumps in \<open>auto simp: 1 intro: that [OF 1]\<close>)
  qed
  from fresh_dump [OF sample_dump_inv _ _ r1] m obtain p where d: "d = \<lparr>spans = [(p, 3)], in_memory = [], map_set = [0]\<rparr>"
    and i1: "dump_inv sample_api (s1, ?r1)" and l1: "dump_live sample_api (s1, ?r1) (0, p, 3)"
    by (auto simp: sample_dump_room)
  from fresh_dump [OF i1 _ _ r2] m off obtain q where e: "e = \<lparr>spans = [(q, 2)], in_memory = [], map_set = [0]\<rparr>"
    and w: "wrote sample_api ?r1 [4, 5] s1 q 0 s2" and i2: "dump_inv sample_api (s2, ?r2)"
    and l2: "dump_live sample_api (s2, ?r2) (0, q, 2)" "load_bytes sample_api (world s2) q 2 = [4, 5]"
    by (auto simp: dump_room_def)
  have "dump_live sample_api (s2, ?r2) (0, p, 3)" using dump_live_keeps [OF w] l1 by blast
  then have "buffer_ok sample_api (s2, ?r2) d" by (simp add: buffer_ok_def d)
  moreover have "buffer_ok sample_api (s2, ?r2) e" using l2(1) by (simp add: buffer_ok_def e)
  ultimately show ?thesis
    using i2 l2(2) by (intro exI [of _ d] exI [of _ e] exI [of _ s2] exI [of _ ?r2]) (simp add: d e)
qed

text \<open>
  C23: the dump file implements a map from keys to byte lists. Any sequence of allocations (a
  \<open>write\<close> without a buffer) and overwrites of ranges, in whatever order, that is run on a state
  whose ranges are live and lie apart leaves in every range what the same sequence leaves in the
  map: no operation on one range shows in another, however often the file grew and was mapped
  anew in between.
\<close>

theorem dump_store_refines:
  assumes "dump.holds api (s, refs) h" and "dump.run api xs (h, (s, refs)) = Some (h', st')"
  shows "dump.holds api st' h' \<and> dump.contents api st' h' = spec_run xs (dump.contents api (s, refs) h)"
  using dump.run_simulates [OF assms] .

theorem dump_store_refines_witness:
  "\<exists>h' st'. dump.run sample_api [Alloc 0 4, Fill 0 [7, 8]] (\<lambda>_. None, (sample_sys [] (\<lambda>_. 0), no_refs)) = Some (h', st')
    \<and> dump.contents sample_api st' h' 0 = Some [7, 8, 0, 0]"
proof -
  let ?st = "(sample_sys [] (\<lambda>_. 0), no_refs)"
  have room: "dump_room ?st 4" by (simp add: sample_dump_room)
  have "dump_alloc sample_api 4 ?st \<noteq> None"
    by (simp add: dump_alloc_def sample_write_defs)
  then obtain r st1 where a: "dump_alloc sample_api 4 ?st = Some (r, st1)" by force
  have start: "dump.holds sample_api ?st (\<lambda>_. None)" using sample_dump_inv by (simp add: dump.holds_def)
  have "dump_content sample_api st1 r = replicate 4 0"
    using dump.alloc_new [OF sample_dump_inv room a] by simp
  then have run: "dump.run sample_api [Alloc 0 4, Fill 0 [7, 8]] (\<lambda>_. None, ?st)
      = Some ([0 \<mapsto> r], dump_fill sample_api r [7, 8] st1)"
    using room a by simp
  from dump_store_refines [OF start this] have
    "dump.contents sample_api (dump_fill sample_api r [7, 8] st1) [0 \<mapsto> r]
      = spec_run [Alloc 0 4, Fill 0 [7, 8]] (dump.contents sample_api ?st (\<lambda>_. None))" by simp
  then have "dump.contents sample_api (dump_fill sample_api r [7, 8] st1) [0 \<mapsto> r] 0 = Some [7, 8, 0, 0]"
    by (simp add: overwrite_def numeral_eq_Suc)
  with run show ?thesis by blast
qed

text \<open>
  C22: what \<open>dump\<close> returns is an index of the bytes. For fewer than \<open>2^31 - 1\<close> spans and unless it
  reports failure, \<open>span\<close> at the returned index is a range of the requested length that holds the
  buffer (zeros for \<open>alloc_f\<close>), and every earlier span is the same range with the same bytes.
\<close>

theorem dump_reads_back:
  assumes "dump_inv api (s, refs)" and "dump_room (s, refs) (unat sz)" and "buffer_ok api (s, refs) d"
    and "\<And>bs. buffer = Some bs \<Longrightarrow> unat sz \<le> length bs"
    and "length (spans d) < 2 ^ 31 - 1" and "dump api buffer sz d s = Inr (idx, d', s')" and "idx \<noteq> - 1"
  shows "snd (span_at idx d') = sz
    \<and> load_bytes api (world s') (fst (span_at idx d')) (unat sz) = written buffer (unat sz)
    \<and> (\<forall>k < length (spans d). spans d' ! k = spans d ! k
         \<and> load_bytes api (world s') (fst (spans d ! k)) (unat (snd (spans d ! k)))
           = load_bytes api (world s) (fst (spans d ! k)) (unat (snd (spans d ! k))))
    \<and> (\<exists>refs'. dump_inv api (s', refs') \<and> buffer_ok api (s', refs') d')"
proof -
  from assms(6,7) obtain p n d1 where w: "write_data api buffer sz d s = Inr ((p, n), d1, s')" and n: "n \<noteq> 0"
    and d': "d' = d1\<lparr>spans := spans d1 @ [(p, n)]\<rparr>" and idx: "idx = of_nat (length (spans d')) - 1"
    by (auto simp: dump_def Let_def split: sum.splits prod.splits if_splits)
  have "\<exists>refs' i. n = sz \<and> grows api (s, refs) (s', refs') \<and> i \<in> set (map_set d1)
    \<and> dump_live api (s', refs') (i, p, unat sz)
    \<and> dump_content api (s', refs') (i, p, unat sz) = written buffer (unat sz)
    \<and> buffer_ok api (s', refs') d1 \<and> spans d1 = spans d"
    by (rule write_data_spec [OF assms(1-3) _ w n]) (rule assms(4))
  then obtain refs' i where g: "n = sz" "grows api (s, refs) (s', refs')" "i \<in> set (map_set d1)"
    "dump_live api (s', refs') (i, p, unat sz)" "load_bytes api (world s') p (unat sz) = written buffer (unat sz)"
    "buffer_ok api (s', refs') d1" "spans d1 = spans d"
    by (auto simp: dump_content_def)
  have sp': "spans d' = spans d @ [(p, sz)]" by (simp add: d' g)
  note last = span_at_last [OF assms(5) sp']
  have "load_bytes api (world s') q (unat m) = load_bytes api (world s) q (unat m)"
    if "(q, m) \<in> set (spans d)" for q m
  proof -
    from assms(3) that obtain j where "dump_live api (s, refs) (j, q, unat m)" by (auto simp: buffer_ok_def)
    with g(2) show ?thesis by (auto simp: grows_def dump_content_def)
  qed
  then have "\<forall>k < length (spans d). load_bytes api (world s') (fst (spans d ! k)) (unat (snd (spans d ! k)))
           = load_bytes api (world s) (fst (spans d ! k)) (unat (snd (spans d ! k)))"
    by (metis nth_mem prod.collapse)
  moreover have "buffer_ok api (s', refs') d'"
    using g(3,4,6) by (auto simp: buffer_ok_def d' g(1))
  moreover have "dump_inv api (s', refs')" using g(2) by (simp add: grows_def)
  ultimately show ?thesis using last g(5) by (auto simp: idx sp' nth_append)
qed

theorem dump_reads_back_witness:
  "\<exists>d s. dump sample_api (Some [1, 2, 3]) 3 new_dumpable (sample_sys [] (\<lambda>_. 0)) = Inr (0, d, s)
     \<and> load_bytes sample_api (world s) (fst (span_at 0 d)) 3 = [1, 2, 3]"
proof -
  obtain d s where r: "dump sample_api (Some [1, 2, 3]) 3 new_dumpable (sample_sys [] (\<lambda>_. 0)) = Inr (0, d, s)"
    using sample_dump by (auto split: sum.splits)
  have "load_bytes sample_api (world s) (fst (span_at 0 d)) (unat (3 :: u64))
      = written (Some [1, 2, 3]) (unat (3 :: u64))"
    by (rule dump_reads_back [THEN conjunct2, THEN conjunct1, OF sample_dump_inv _ new_buffer_ok _ _ r])
      (simp_all add: sample_dump_room new_dumpable_def)
  with r show ?thesis by (auto simp: written_def)
qed

text \<open>
  C24: destroying one dumpable leaves the spans of another alone: as long as the pointers of
  both were counted, the other still satisfies its invariant and its bytes are unchanged.
\<close>

theorem destroy_keeps_other_buffers:
  assumes "dump_inv api (s, refs)" and "buffer_ok api (s, refs) d" and "buffer_ok api (s, refs) e"
    and "\<And>i. i \<in> set (map_set d) \<Longrightarrow> i \<in> set (map_set e) \<Longrightarrow> 2 \<le> refs i"
  shows "(\<exists>refs'. dump_inv api (dumpable_destroy api d s, refs') \<and> buffer_ok api (dumpable_destroy api d s, refs') e)
    \<and> (\<forall>(p, n) \<in> set (spans e). load_bytes api (world (dumpable_destroy api d s)) p (unat n)
         = load_bytes api (world s) p (unat n))"
proof -
  let ?s = "dumpable_destroy api d s" and ?r = "drop_refs (map_set d) refs"
  note ds = destroy_spec [OF assms(1,2)]
  have pos: "0 < ?r i" if "i \<in> set (map_set e)" for i
    using that assms(2,3) assms(4) [of i] by (auto simp: drop_refs_def buffer_ok_def count_list_distinct)
  have sp: "\<exists>i \<in> set (map_set e). dump_live api (?s, ?r) (i, p, unat n)
      \<and> load_bytes api (world ?s) p (unat n) = load_bytes api (world s) p (unat n)"
    if "(p, n) \<in> set (spans e)" for p n
    using assms(3) that ds(2) pos unfolding buffer_ok_def by fastforce
  have "buffer_ok api (?s, ?r) e" using assms(3) sp pos by (fastforce simp: buffer_ok_def)
  with ds(1) sp show ?thesis by blast
qed

theorem destroy_keeps_other_buffers_witness:
  "\<exists>d e s refs p. map_set d = [0] \<and> map_set e = [0] \<and> dump_inv sample_api (s, refs)
     \<and> buffer_ok sample_api (s, refs) d \<and> buffer_ok sample_api (s, refs) e \<and> spans e = [(p, 2)]
     \<and> load_bytes sample_api (world (dumpable_destroy sample_api d s)) p 2 = [4, 5]"
proof -
  obtain d e s refs p where x: "dump_inv sample_api (s, refs)" "buffer_ok sample_api (s, refs) d"
    "buffer_ok sample_api (s, refs) e" "map_set d = [0]" "map_set e = [0]" "2 \<le> refs 0"
    "spans e = [(p, 2)]" "load_bytes sample_api (world s) p 2 = [4, 5]"
    using sample_shared_map by blast
  have "2 \<le> refs i" if "i \<in> set (map_set d)" "i \<in> set (map_set e)" for i using that x(4,6) by simp
  from conjunct2 [OF destroy_keeps_other_buffers [OF x(1-3) this]] x(7)
  have "load_bytes sample_api (world (dumpable_destroy sample_api d s)) p 2 = load_bytes sample_api (world s) p 2" by simp
  with x show ?thesis
    by metis
qed

text \<open>
  C25: no map leaks. When the last object that holds pointers to maps and then the dump file
  are destroyed, no map of the heap is alive, and no view that a map of the heap accounted is left:
  the views that remain are views that were there before and that belonged to none of the maps.
\<close>

theorem last_destroy_releases_maps:
  assumes "view_docs api" and "dump_inv api (s, refs)" and "buffer_ok api (s, refs) d"
    and "\<And>i. refs i = (if i \<in> set (map_set d) then 1 else 0)"
  shows "(\<forall>i < length (heap s). use_count (m_file_destroy api (dumpable_destroy api d s)) i = 0)
    \<and> (\<forall>a b p. view_of api (world (m_file_destroy api (dumpable_destroy api d s))) a = Some (b, p) \<longrightarrow>
         (\<exists>a p. view_of api (world s) a = Some (b, p)) \<and> (\<forall>i. alive s i \<longrightarrow> b \<noteq> get_mapping_start (map_at s i)))"
proof -
  let ?s = "m_file_destroy api (dumpable_destroy api d s)"
  have "drop_refs (map_set d) refs = no_refs"
    using assms(3) by (simp add: fun_eq_iff drop_refs_def no_refs_def assms(4) buffer_ok_def count_list_distinct)
  with destroy_spec(1) [OF assms(2,3)] have "dump_inv api (dumpable_destroy api d s, no_refs)" by simp
  from file_destroy_spec [OF this] have dead: "\<not> alive ?s i" for i .
  have ok: "heap_ok api s" using assms(2) by (simp add: dump_inv_def store_inv_def)
  have "reclaimable api (bases api (world s) - starts s) ?s"
    unfolding dumpable_destroy_def
    by (intro reclaimable_file_destroy reclaimable_release_all assms(1) heap_ok_reclaimable ok)
  then have "bases api (world ?s) \<subseteq> bases api (world s) - starts s"
    using traced_none [OF _ dead] by (simp add: reclaimable_def)
  moreover have "get_mapping_start (map_at s i) \<in> starts s" if "alive s i" for i
    using that ok by (auto simp: starts_def heap_ok_def live_map_def)
  ultimately have views: "(\<exists>a p. view_of api (world s) a = Some (b, p)) \<and> (\<forall>i. alive s i \<longrightarrow> b \<noteq> get_mapping_start (map_at s i))"
    if "view_of api (world ?s) a = Some (b, p)" for a b p
    using that unfolding bases_def by blast
  have "length (heap ?s) = length (heap s)"
    by (simp add: m_file_destroy_heap dumpable_destroy_def)
  with dead views show ?thesis by (auto simp: alive_def)
qed

text \<open>On the sample platform: a view was there before, and none is left.\<close>

theorem last_destroy_releases_maps_witness:
  "\<exists>d s. length (map_set d) = 1 \<and> (\<exists>a. view_of sample_api (world s) a \<noteq> None)
     \<and> (\<forall>a. view_of sample_api (world (m_file_destroy sample_api (dumpable_destroy sample_api d s))) a = None)"
proof -
  obtain d i s where r: "dump sample_api (Some [1, 2, 3]) 3 new_dumpable (sample_sys [] (\<lambda>_. 0)) = Inr (0, d, s)"
    "map_set d = [i]" "buffer_ok sample_api (s, no_refs(i := 1)) d" "dump_inv sample_api (s, no_refs(i := 1))"
    using sample_dump_state by blast
  note gone = conjunct2 [OF last_destroy_releases_maps [OF sample_view_docs r(4,3)]]
  have "accounted sample_api {} s" by (rule accounted_dump [OF sample_view_docs accounted_sample_sys r(1)])
  then have "bases sample_api (world s) \<subseteq> starts s" by (simp add: accounted_def traced_def)
  then have mine: "\<exists>i. alive s i \<and> b = get_mapping_start (map_at s i)" if "view_of sample_api (world s) a = Some (b, p)" for a b p
    using that unfolding bases_def starts_def by blast
  have "view_of sample_api (world (m_file_destroy sample_api (dumpable_destroy sample_api d s))) a = None" for a
  proof (cases "view_of sample_api (world (m_file_destroy sample_api (dumpable_destroy sample_api d s))) a")
    case (Some v)
    obtain b p where "v = (b, p)" by force
    with Some gone [rule_format, of a b p] have "(\<exists>a p. view_of sample_api (world s) a = Some (b, p))
      \<and> (\<forall>i. alive s i \<longrightarrow> b \<noteq> get_mapping_start (map_at s i))" by (simp add: r(2) no_refs_def)
    with mine show ?thesis by blast
  qed
  moreover have "\<exists>a. view_of sample_api (world s) a \<noteq> None"
  proof -
    have "alive s i" using r(4) by (intro refs_ok_alive [of "no_refs(i := 1)"]) (simp_all add: dump_inv_def store_inv_def)
    with r(4) show ?thesis by (intro alive_has_view) (simp_all add: dump_inv_def store_inv_def)
  qed
  ultimately show ?thesis using r(2) by (intro exI [of _ d] exI [of _ s]) simp
qed

end
