(* ===== verification/Memory_Region.thy ===== *)
theory Memory_Region
  imports Dump_Buffer
begin

text \<open>
  The class \<open>memory_region\<close> (\<open>scanner/memory_region.hpp\<close>, \<open>scanner/memory_region.cpp\<close>): the
  description of one region of the target process and, once \<open>read_memory\<close> has run, a copy of its
  bytes in the dump file. \<open>read_memory\<close> is split at the point where another thread can come in
  between: \<open>reserve\<close> allocates the space (one critical section of \<open>m_file\<close>), \<open>fetch\<close> is the call
  of \<open>ReadProcessMemory\<close> into it.
\<close>

record memory_region =
  region_buf :: dumpable
  region_mbi :: mbi
  process_handle :: u32
  mem_reserved :: bool

definition new_region :: "mbi \<Rightarrow> u32 \<Rightarrow> memory_region" where
  "new_region m handle = \<lparr>region_buf = new_dumpable, region_mbi = m, process_handle = handle, mem_reserved = False\<rparr>"

definition region_base :: "memory_region \<Rightarrow> u64" where
  "region_base r = BaseAddress (region_mbi r)"

definition region_size :: "memory_region \<Rightarrow> u64" where
  "region_size r = RegionSize (region_mbi r)"

definition has_protection_flags :: "u32 \<Rightarrow> memory_region \<Rightarrow> bool" where
  "has_protection_flags protect_flags r \<longleftrightarrow> (Protect (region_mbi r) AND protect_flags) \<noteq> 0"

definition is_commited :: "memory_region \<Rightarrow> bool" where
  "is_commited r \<longleftrightarrow> State (region_mbi r) = MEM_COMMIT"

definition is_memmapped :: "memory_region \<Rightarrow> bool" where
  "is_memmapped r \<longleftrightarrow> MemType (region_mbi r) = MEM_MAPPED"

definition raw_bytes :: "memory_region \<Rightarrow> byte_span" where
  "raw_bytes r = (case spans (region_buf r) of [] \<Rightarrow> (0, 0) | sp # _ \<Rightarrow> sp)"

record strided_span =
  strided_ptr :: u64
  strided_count :: u64
  stride :: u64

definition new_strided_span :: "u64 \<Rightarrow> u64 \<Rightarrow> u64 \<Rightarrow> strided_span" where
  "new_strided_span ptr total_bytes step = \<lparr>strided_ptr = ptr, strided_count = total_bytes div step, stride = step\<rparr>"

definition strided_at :: "strided_span \<Rightarrow> u64 \<Rightarrow> u64" where
  "strided_at sp i = strided_ptr sp + i * stride sp"

definition elements_by_size :: "u64 \<Rightarrow> memory_region \<Rightarrow> strided_span" where
  "elements_by_size elem_size r = (let raw = raw_bytes r in new_strided_span (fst raw) (snd raw) elem_size)"

definition reserve :: "'w win32 \<Rightarrow> memory_region \<Rightarrow> 'w sys \<Rightarrow> (bool \<times> memory_region \<times> 'w sys) res" where
  "reserve api r s =
     (if mem_reserved r then Inr (True, r, s)
      else case alloc_f api (region_size r) (region_buf r) s of
             Inl e \<Rightarrow> Inl e
           | Inr (index, d, s1) \<Rightarrow>
               if index = - 1 then Inr (False, r\<lparr>region_buf := d\<rparr>, s1)
               else Inr (True, r\<lparr>region_buf := d, mem_reserved := True\<rparr>, s1))"

text \<open>
  \<open>_data[0]\<close> of an empty vector, and a delivery of more bytes than the span has, leave the object.
\<close>

definition fetch :: "'w win32 \<Rightarrow> memory_region \<Rightarrow> 'w sys \<Rightarrow> (bool \<times> 'w sys) res" where
  "fetch api r s =
     (case spans (region_buf r) of
        [] \<Rightarrow> Inl Out_of_bounds
      | (p, n) # _ \<Rightarrow>
          let ((success, bytes), w) = read_process_memory api (long_to_handle (process_handle r))
                (region_base r) (region_size r) (world s)
          in if unat n < length bytes then Inl Out_of_bounds
             else Inr (success, s\<lparr>world := store_bytes api p bytes w\<rparr>))"

definition read_memory :: "'w win32 \<Rightarrow> memory_region \<Rightarrow> 'w sys \<Rightarrow> (bool \<times> memory_region \<times> 'w sys) res" where
  "read_memory api r s =
     (case reserve api r s of
        Inl e \<Rightarrow> Inl e
      | Inr (ok, r1, s1) \<Rightarrow>
          if \<not> ok then Inr (False, r1, s1)
          else case fetch api r1 s1 of
                 Inl e \<Rightarrow> Inl e
               | Inr (success, s2) \<Rightarrow> Inr (success, r1, s2))"

definition region_destroy :: "'w win32 \<Rightarrow> memory_region \<Rightarrow> 'w sys \<Rightarrow> 'w sys" where
  "region_destroy api r s = dumpable_destroy api (region_buf r) s"

subsection \<open>The invariant\<close>

definition region_end :: "memory_region \<Rightarrow> nat" where
  "region_end r = unat (region_base r) + unat (region_size r)"

text \<open>
  A region has no span before it is reserved, and afterwards one span of its size, kept alive by
  one pointer. Its range in the dump file is then \<open>region_range\<close>.
\<close>

definition region_ok :: "memory_region \<Rightarrow> bool" where
  "region_ok r \<longleftrightarrow> (if mem_reserved r
     then \<exists>p i. spans (region_buf r) = [(p, region_size r)] \<and> map_set (region_buf r) = [i]
     else spans (region_buf r) = [] \<and> map_set (region_buf r) = [])"

definition region_range :: "memory_region \<Rightarrow> range option" where
  "region_range r = (if mem_reserved r
     then Some (hd (map_set (region_buf r)), fst (hd (spans (region_buf r))), unat (region_size r)) else None)"

lemma new_region_ok [simp]: "region_ok (new_region m h)" "\<not> mem_reserved (new_region m h)"
  by (simp_all add: region_ok_def new_region_def new_dumpable_def)

lemma region_range_ok:
  assumes "region_ok r" and "region_range r = Some (i, p, n)"
  shows "mem_reserved r" "spans (region_buf r) = [(p, region_size r)]" "map_set (region_buf r) = [i]"
    "n = unat (region_size r)" "raw_bytes r = (p, region_size r)"
  using assms by (auto simp: region_ok_def region_range_def raw_bytes_def split: if_splits)

lemma reserve_spec:
  assumes "dump_inv api (s, refs)" and "dump_room (s, refs) (unat (region_size r))"
    and "region_ok r" and "\<not> mem_reserved r"
  shows "\<exists>ok r' s'. reserve api r s = Inr (ok, r', s')
    \<and> region_ok r' \<and> region_mbi r' = region_mbi r \<and> process_handle r' = process_handle r \<and> mem_reserved r' = ok
    \<and> (ok \<longrightarrow> (\<exists>x refs'. region_range r' = Some x
         \<and> dump_alloc api (unat (region_size r)) (s, refs) = Some (x, s', refs')))"
proof -
  let ?n = "unat (region_size r)"
  have pre: "memory_docs api" "disk_ok api" "store_inv api refs s" "0 < ?n"
    "unat (foffset (dump_file s)) + ?n \<le> 2 ^ 60"
    using assms(1,2) by (simp_all add: dump_inv_def dump_room_def)
  have sp: "spans (region_buf r) = []" "map_set (region_buf r) = []"
    using assms(3,4) by (simp_all add: region_ok_def)
  have "(\<exists>s1. m_write api None (region_size r) s = Inr (0, None, s1) \<and> frame api (\<lambda>_ _. True) s s1
      \<and> heap_ok api s1 \<and> refs_ok refs s1)
    \<or> (\<exists>p i s1. m_write api None (region_size r) s = Inr (p, Some i, s1)
      \<and> wrote api refs (written None ?n) s p i s1)"
    by (rule m_write_spec [OF pre]) simp
  then show ?thesis
  proof (elim disjE exE conjE)
    fix s1
    assume "m_write api None (region_size r) s = Inr (0, None, s1)"
    then have "reserve api r s = Inr (False, r, s1)"
      using assms(4) by (simp add: reserve_def alloc_f_def dump_def write_data_def)
    with assms(3,4) show ?thesis
      by (intro exI [of _ False] exI [of _ r] exI [of _ s1]) simp
  next
    fix p i s1
    assume w: "m_write api None (region_size r) s = Inr (p, Some i, s1)" "wrote api refs (written None ?n) s p i s1"
    then have p: "p \<noteq> 0" by (simp add: wrote_def)
    define r' where "r' = r\<lparr>region_buf := (region_buf r)\<lparr>map_set := [i], spans := [(p, region_size r)]\<rparr>, mem_reserved := True\<rparr>"
    have "region_size r \<noteq> 0" using pre(4) by auto
    then have "reserve api r s = Inr (True, r', s1)"
      using w(1) p sp assms(4) by (simp add: reserve_def alloc_f_def dump_def write_data_def Let_def r'_def)
    moreover have "dump_alloc api ?n (s, refs) = Some ((i, p, ?n), s1, refs(i := Suc (refs i)))"
      using w(1) p by (simp add: dump_alloc_def)
    moreover have "region_ok r'" "region_range r' = Some (i, p, ?n)"
      by (simp_all add: r'_def region_ok_def region_range_def region_size_def)
    ultimately show ?thesis
      by (intro exI [of _ True] exI [of _ r'] exI [of _ s1]) (simp add: r'_def)
  qed
qed

lemma fetch_spec:
  assumes "dump_inv api (s, refs)" and "rpm_docs api" and "region_ok r"
    and "region_range r = Some x" and "dump_live api (s, refs) x"
  shows "\<exists>success bs s1 s'. fetch api r s = Inr (success, s') \<and> dump_env api (s, refs) (s1, refs)
    \<and> (s', refs) = dump_fill api x bs (s1, refs) \<and> length bs \<le> unat (region_size r)
    \<and> (success \<longrightarrow> length bs = unat (region_size r))
    \<and> fst (read_process_memory api (long_to_handle (process_handle r)) (region_base r) (region_size r) (world s))
        = (success, bs)"
proof -
  obtain i p n where x: "x = (i, p, n)" by (metis prod_cases3)
  note rr = region_range_ok [OF assms(3) assms(4) [unfolded x]]
  obtain success bs w where rpm: "read_process_memory api (long_to_handle (process_handle r))
      (region_base r) (region_size r) (world s) = ((success, bs), w)"
    by (metis prod.collapse)
  have len: "length bs \<le> unat (region_size r)" "success \<longrightarrow> length bs = unat (region_size r)"
    using assms(2) rpm unfolding rpm_docs_def by blast+
  have docs: "memory_docs api" using assms(1) by (simp add: dump_inv_def)
  have "fetch api r s = Inr (success, s\<lparr>world := store_bytes api p bs w\<rparr>)"
    using len by (simp add: fetch_def rr(2) rpm)
  moreover have "dump_env api (s, refs) (s\<lparr>world := w\<rparr>, refs)"
    using quiet_keepsD(11) [OF docs rpm] by (simp add: dump_env_def)
  moreover have "(s\<lparr>world := store_bytes api p bs w\<rparr>, refs) = dump_fill api x bs (s\<lparr>world := w\<rparr>, refs)"
    by (simp add: dump_fill_def x)
  ultimately show ?thesis using len rpm by (metis fst_conv)
qed


subsection \<open>Properties\<close>

lemma read_memory_spec:
  assumes "dump_inv api (s, refs)" and "rpm_docs api" and "dump_room (s, refs) (unat (region_size r))"
    and "region_ok r" and "\<not> mem_reserved r"
  shows "\<exists>success r' s'. read_memory api r s = Inr (success, r', s') \<and> region_ok r'
    \<and> region_mbi r' = region_mbi r \<and> process_handle r' = process_handle r
    \<and> (success \<longrightarrow> (\<exists>x refs' bs w. region_range r' = Some x \<and> dump_inv api (s', refs') \<and> dump_live api (s', refs') x
         \<and> dump_content api (s', refs') x = bs \<and> length bs = unat (region_size r)
         \<and> fst (read_process_memory api (long_to_handle (process_handle r)) (region_base r) (region_size r) w) = (True, bs)
         \<and> (\<forall>q. dump_live api (s, refs) q \<longrightarrow>
              dump_live api (s', refs') q \<and> dump_content api (s', refs') q = dump_content api (s, refs) q)))"
proof -
  obtain ok r1 s1 where rs: "reserve api r s = Inr (ok, r1, s1)" "region_ok r1" "region_mbi r1 = region_mbi r"
    "process_handle r1 = process_handle r" "mem_reserved r1 = ok"
    and al: "ok \<Longrightarrow> \<exists>x refs'. region_range r1 = Some x
      \<and> dump_alloc api (unat (region_size r)) (s, refs) = Some (x, s1, refs')"
    using reserve_spec [OF assms(1,3-5)] by blast
  show ?thesis
  proof (cases ok)
    case False
    with rs have "read_memory api r s = Inr (False, r1, s1)" by (simp add: read_memory_def)
    with rs show ?thesis by (intro exI [of _ False] exI [of _ r1] exI [of _ s1]) simp
  next
    case True
    with al obtain x refs1 where x: "region_range r1 = Some x"
      "dump_alloc api (unat (region_size r)) (s, refs) = Some (x, s1, refs1)" by blast
    note laws = dump_alloc_laws [OF assms(1,3) x(2)]
    have same: "region_size r1 = region_size r" "region_base r1 = region_base r"
      using rs(3) by (simp_all add: region_size_def region_base_def)
    obtain success bs s2 s' where f: "fetch api r1 s1 = Inr (success, s')" "dump_env api (s1, refs1) (s2, refs1)"
      "(s', refs1) = dump_fill api x bs (s2, refs1)" "length bs \<le> unat (region_size r)"
      "success \<longrightarrow> length bs = unat (region_size r)"
      "fst (read_process_memory api (long_to_handle (process_handle r)) (region_base r) (region_size r) (world s1))
        = (success, bs)"
      using fetch_spec [OF laws(1) assms(2) rs(2) x(1) laws(2)] unfolding same rs(4) by blast
    note env = dump_env_laws [OF laws(1) f(2)]
    have lv: "dump_live api (s2, refs1) x" "dump_content api (s2, refs1) x = replicate (unat (region_size r)) 0"
      using env(2) [OF laws(2)] laws(3) by simp_all
    then have len: "length bs \<le> length (dump_content api (s2, refs1) x)" using f(4) by simp
    note fl = dump_fill_laws [OF env(1) lv(1) len, folded f(3)]
    have run: "read_memory api r s = Inr (success, r1, s')"
      using rs(1) True f(1) by (simp add: read_memory_def)
    have old: "dump_live api (s', refs1) q \<and> dump_content api (s', refs1) q = dump_content api (s, refs) q"
      if q: "dump_live api (s, refs) q" for q
    proof -
      note k1 = laws(4) [OF q]
      then have "dump_apart api (s2, refs1) q x" using env(3) laws(2) by blast
      with k1 env(2) fl(2,5) show ?thesis by metis
    qed
    have "dump_content api (s', refs1) x = bs" if success
      using fl(4) f(5) that lv(2) by (simp add: overwrite_def)
    moreover have "dump_live api (s', refs1) x" using fl(2) lv(1) by simp
    ultimately show ?thesis
      using run rs x(1) fl(1) f(5,6) old
      by (intro exI [of _ success] exI [of _ r1] exI [of _ s']) (auto intro!: exI [of _ refs1])
  qed
qed

text \<open>
  C20: the snapshot is faithful. Reading a region for the first time commits no fault; when it
  reports success the raw bytes of the region are as many as the region has, and are exactly
  the bytes that \<open>ReadProcessMemory\<close> delivered for its base address and size; no byte of an
  earlier snapshot changes.
\<close>

theorem read_memory_snapshot:
  assumes "dump_inv api (s, refs)" and "rpm_docs api" and "dump_room (s, refs) (unat (region_size r))"
    and "region_ok r" and "\<not> mem_reserved r"
  shows "\<exists>success r' s'. read_memory api r s = Inr (success, r', s')
    \<and> (success \<longrightarrow> snd (raw_bytes r') = region_size r
         \<and> (\<exists>w. fst (read_process_memory api (long_to_handle (process_handle r)) (region_base r) (region_size r) w)
              = (True, load_bytes api (world s') (fst (raw_bytes r')) (unat (region_size r)))))
    \<and> (success \<longrightarrow> (\<forall>i p n. dump_live api (s, refs) (i, p, n) \<longrightarrow>
         load_bytes api (world s') p n = load_bytes api (world s) p n))"
proof -
  obtain success r' s' where run: "read_memory api r s = Inr (success, r', s')" "region_ok r'"
    "region_mbi r' = region_mbi r"
    and ok: "success \<Longrightarrow> \<exists>x refs' bs w. region_range r' = Some x \<and> dump_live api (s', refs') x
         \<and> dump_content api (s', refs') x = bs \<and> length bs = unat (region_size r)
         \<and> fst (read_process_memory api (long_to_handle (process_handle r)) (region_base r) (region_size r) w) = (True, bs)
         \<and> (\<forall>q. dump_live api (s, refs) q \<longrightarrow> dump_content api (s', refs') q = dump_content api (s, refs) q)"
    using read_memory_spec [OF assms] by blast
  have "snd (raw_bytes r') = region_size r
      \<and> (\<exists>w. fst (read_process_memory api (long_to_handle (process_handle r)) (region_base r) (region_size r) w)
           = (True, load_bytes api (world s') (fst (raw_bytes r')) (unat (region_size r))))
      \<and> (\<forall>i p n. dump_live api (s, refs) (i, p, n) \<longrightarrow> load_bytes api (world s') p n = load_bytes api (world s) p n)"
    if success
  proof -
    from ok [OF that] obtain i p n refs' w where x: "region_range r' = Some (i, p, n)"
      and rpm: "fst (read_process_memory api (long_to_handle (process_handle r)) (region_base r) (region_size r) w)
        = (True, dump_content api (s', refs') (i, p, n))"
      and old: "\<forall>q. dump_live api (s, refs) q \<longrightarrow> dump_content api (s', refs') q = dump_content api (s, refs) q"
      by (metis prod_cases3)
    have "region_size r' = region_size r" using run(3) by (simp add: region_size_def)
    with region_range_ok [OF run(2) x] rpm old show ?thesis
      by (auto simp: dump_content_def split: prod.splits)
  qed
  with run(1) show ?thesis by blast
qed

text \<open>The sample target: one committed, readable region of a page whose bytes count upwards.\<close>

definition sample_mbi :: mbi where
  "sample_mbi = \<lparr>BaseAddress = 0x10000, RegionSize = 0x1000, State = MEM_COMMIT, Protect = 4, MemType = 0x20000\<rparr>"

definition sample_region :: memory_region where
  "sample_region = new_region (sample_mbi\<lparr>RegionSize := 8\<rparr>) 7"

lemma sample_region_simps [simp]:
  "region_ok sample_region" "\<not> mem_reserved sample_region" "region_size sample_region = 8"
  "region_base sample_region = 0x10000" "process_handle sample_region = 7"
  unfolding sample_region_def by simp_all (simp_all add: region_size_def region_base_def new_region_def sample_mbi_def)

lemma sample_read:
  "case read_memory sample_api sample_region (sample_sys [sample_mbi] ucast) of
     Inl e \<Rightarrow> False | Inr (success, r, s) \<Rightarrow> success"
  by (simp add: read_memory_def reserve_def fetch_def alloc_f_def dump_def write_data_def sample_region_def
      new_region_def new_dumpable_def region_size_def region_base_def sample_rpm_def sample_mbi_def long_to_handle_def
      sample_write_defs)

theorem read_memory_snapshot_witness:
  "\<exists>r s. read_memory sample_api sample_region (sample_sys [sample_mbi] ucast) = Inr (True, r, s)
    \<and> snd (raw_bytes r) = 8
    \<and> (\<exists>w. fst (read_process_memory sample_api 7 0x10000 8 w)
         = (True, load_bytes sample_api (world s) (fst (raw_bytes r)) 8))"
proof -
  have "dump_room (sample_sys [sample_mbi] ucast, no_refs) (unat (region_size sample_region))"
    by (simp add: sample_dump_room)
  from read_memory_snapshot [OF sample_dump_inv sample_rpm_docs this sample_region_simps(1,2)]
  obtain success r s where r: "read_memory sample_api sample_region (sample_sys [sample_mbi] ucast) = Inr (success, r, s)"
    and ok: "success \<longrightarrow> snd (raw_bytes r) = 8 \<and> (\<exists>w. fst (read_process_memory sample_api (long_to_handle 7) 0x10000 8 w)
         = (True, load_bytes sample_api (world s) (fst (raw_bytes r)) (unat (8 :: u64))))"
    by (auto simp only: sample_region_simps)
  moreover from sample_read r have success by simp
  ultimately show ?thesis by (auto simp: long_to_handle_def)
qed

end
