(* ===== verification/Fp_Arith.thy ===== *)
theory Fp_Arith
  imports Prelude "HOL-Library.Log_Nat"
begin

text \<open>
  IEEE 754 binary32 and binary64 as the comparator uses them: decoding the bits that
  \<open>read_fp\<close> copies into a \<open>float\<close> or a \<open>double\<close>, addition, subtraction, absolute value and the
  ordered comparisons, rounding to nearest with ties to even (the mode of the x64 target,
  which evaluates each operation in the type of its operands).

  A finite value is held exactly, as an integer multiple of the smallest subnormal number of
  its format (\<open>2^-149\<close> or \<open>2^-1074\<close>). The sign of a zero is dropped: no operation of the
  program lets it be observed.
\<close>

record fp_format =
  man_bits :: nat
  exp_bits :: nat

definition binary32 :: fp_format where
  "binary32 = \<lparr>man_bits = 23, exp_bits = 8\<rparr>"

definition binary64 :: fp_format where
  "binary64 = \<lparr>man_bits = 52, exp_bits = 11\<rparr>"

datatype fp = NaN | Inf bool | Fin int

definition fp_signed :: "bool \<Rightarrow> int \<Rightarrow> fp" where
  "fp_signed neg x = Fin (if neg then - x else x)"

definition fp_decode :: "fp_format \<Rightarrow> u64 \<Rightarrow> fp" where
  "fp_decode f w =
     (let man = uint (take_bit (man_bits f) w);
          ex = unat (take_bit (exp_bits f) (drop_bit (man_bits f) w));
          neg = bit w (man_bits f + exp_bits f)
      in if ex = 2 ^ exp_bits f - 1 then (if man = 0 then Inf neg else NaN)
         else if ex = 0 then fp_signed neg man
         else fp_signed neg ((2 ^ man_bits f + man) * 2 ^ (ex - 1)))"

text \<open>
  Rounding a non-negative integer to \<open>p\<close> significant bits, nearest, ties to even.
\<close>

definition rnd :: "nat \<Rightarrow> int \<Rightarrow> int" where
  "rnd p a =
     (let k = nat (bitlen a) - p; q = a div 2 ^ k; r = a mod 2 ^ k
      in (if 2 ^ k < 2 * r \<or> (2 ^ k = 2 * r \<and> odd q) then q + 1 else q) * 2 ^ k)"

definition fp_limit :: "fp_format \<Rightarrow> int" where
  "fp_limit f = 2 ^ (man_bits f + 2 ^ exp_bits f - 2)"

definition fp_round :: "fp_format \<Rightarrow> int \<Rightarrow> fp" where
  "fp_round f x =
     (let b = rnd (Suc (man_bits f)) \<bar>x\<bar>
      in if fp_limit f \<le> b then Inf (x < 0) else fp_signed (x < 0) b)"

fun fp_neg :: "fp \<Rightarrow> fp" where
  "fp_neg NaN = NaN"
| "fp_neg (Inf s) = Inf (\<not> s)"
| "fp_neg (Fin x) = Fin (- x)"

fun fp_add :: "fp_format \<Rightarrow> fp \<Rightarrow> fp \<Rightarrow> fp" where
  "fp_add f NaN _ = NaN"
| "fp_add f _ NaN = NaN"
| "fp_add f (Inf s) (Inf t) = (if s = t then Inf s else NaN)"
| "fp_add f (Inf s) (Fin _) = Inf s"
| "fp_add f (Fin _) (Inf t) = Inf t"
| "fp_add f (Fin x) (Fin y) = fp_round f (x + y)"

definition fp_sub :: "fp_format \<Rightarrow> fp \<Rightarrow> fp \<Rightarrow> fp" where
  "fp_sub f a b = fp_add f a (fp_neg b)"

fun fp_abs :: "fp \<Rightarrow> fp" where
  "fp_abs NaN = NaN"
| "fp_abs (Inf _) = Inf False"
| "fp_abs (Fin x) = Fin \<bar>x\<bar>"

text \<open>The C++ operators \<open><\<close>, \<open><=\<close> and \<open>==\<close>: false as soon as an operand is not a number.\<close>

fun fp_lt :: "fp \<Rightarrow> fp \<Rightarrow> bool" where
  "fp_lt NaN _ = False"
| "fp_lt _ NaN = False"
| "fp_lt (Inf s) (Inf t) = (s \<and> \<not> t)"
| "fp_lt (Inf s) (Fin _) = s"
| "fp_lt (Fin _) (Inf t) = (\<not> t)"
| "fp_lt (Fin x) (Fin y) = (x < y)"

fun fp_eq :: "fp \<Rightarrow> fp \<Rightarrow> bool" where
  "fp_eq NaN _ = False"
| "fp_eq _ NaN = False"
| "fp_eq a b = (a = b)"

definition fp_le :: "fp \<Rightarrow> fp \<Rightarrow> bool" where
  "fp_le a b = (fp_lt a b \<or> fp_eq a b)"

subsection \<open>Rounding\<close>

text \<open>
  One rounding step at a fixed scale \<open>2^k\<close>; the three facts about it (exact on multiples, error
  of at most half a unit, monotone) carry over to \<open>rnd\<close>.
\<close>

definition rnd_at :: "nat \<Rightarrow> int \<Rightarrow> int" where
  "rnd_at k a =
     (let q = a div 2 ^ k; r = a mod 2 ^ k
      in (if 2 ^ k < 2 * r \<or> (2 ^ k = 2 * r \<and> odd q) then q + 1 else q) * 2 ^ k)"

lemma rnd_alt: "rnd p a = rnd_at (nat (bitlen a) - p) a"
  by (simp add: rnd_def rnd_at_def Let_def)

lemma rnd_at_multiple: "(2 :: int) ^ k dvd a \<Longrightarrow> rnd_at k a = a"
  unfolding rnd_at_def Let_def
  by (simp only: dvd_imp_mod_0 dvd_div_mult_self mult_zero_right if_False simp_thms)
    (simp add: not_less)

lemma rnd_at_error: "2 * \<bar>rnd_at k a - a\<bar> \<le> 2 ^ k"
proof -
  define q r where "q = a div 2 ^ k" and "r = a mod 2 ^ k"
  have a: "a = q * 2 ^ k + r" by (simp only: q_def r_def div_mult_mod_eq)
  have r: "0 \<le> r" "r < 2 ^ k" by (simp_all add: r_def)
  show ?thesis
  proof (cases "2 ^ k < 2 * r \<or> (2 ^ k = 2 * r \<and> odd q)")
    case True
    then have "rnd_at k a - a = 2 ^ k - r"
      unfolding rnd_at_def q_def [symmetric] r_def [symmetric] Let_def
      by (subst a) (simp add: algebra_simps)
    with True r show ?thesis by auto
  next
    case False
    then have "rnd_at k a - a = - r"
      unfolding rnd_at_def q_def [symmetric] r_def [symmetric] Let_def
      by (subst a) (simp add: algebra_simps)
    with False r show ?thesis by auto
  qed
qed

lemma rnd_at_bounds:
  "a div 2 ^ k * 2 ^ k \<le> rnd_at k a \<and> rnd_at k a \<le> (a div 2 ^ k + 1) * 2 ^ k"
  by (simp add: rnd_at_def Let_def)

lemma rnd_at_mono:
  assumes "a \<le> b"
  shows "rnd_at k a \<le> rnd_at k b"
proof -
  have dm: "a div 2 ^ k \<le> b div 2 ^ k" using assms by (simp add: zdiv_mono1)
  show ?thesis
  proof (cases "a div 2 ^ k = b div 2 ^ k")
    case True
    have "a mod 2 ^ k \<le> b mod 2 ^ k"
      using assms True by (simp add: minus_mult_div_eq_mod [symmetric])
    with True show ?thesis by (auto simp: rnd_at_def Let_def intro!: mult_right_mono)
  next
    case False
    with dm have "a div 2 ^ k + 1 \<le> b div 2 ^ k" by simp
    then have "(a div 2 ^ k + 1) * 2 ^ k \<le> b div 2 ^ k * 2 ^ k" by (rule mult_right_mono) simp
    with rnd_at_bounds [of a k] rnd_at_bounds [of b k] show ?thesis by linarith
  qed
qed

lemma bitlen_mono: "a \<le> b \<Longrightarrow> bitlen a \<le> bitlen b"
  unfolding bitlen_def by (simp add: floorlog_mono)

lemma bitlen_lower: "0 < a \<Longrightarrow> 2 ^ (nat (bitlen a) - 1) \<le> a"
proof -
  assume "0 < a"
  then have "2 ^ nat (bitlen a - 1) \<le> a" using bitlen_bounds [of a] by simp
  moreover have "nat (bitlen a - 1) = nat (bitlen a) - 1" by arith
  ultimately show ?thesis by simp
qed

lemma rnd_exact:
  assumes "0 \<le> m" and "m < 2 ^ p"
  shows "rnd p (m * 2 ^ e) = m * 2 ^ e"
proof (cases "m = 0")
  case True
  then show ?thesis by (simp add: rnd_alt rnd_at_multiple)
next
  case False
  with assms have "0 < m" by simp
  then have "bitlen (m * 2 ^ e) = bitlen m + int e" by (rule bitlen_pow2)
  moreover have "bitlen m \<le> int p" using assms by (simp add: bitlen_le_iff_power)
  ultimately have "nat (bitlen (m * 2 ^ e)) - p \<le> e" by simp
  then have "(2 :: int) ^ (nat (bitlen (m * 2 ^ e)) - p) dvd m * 2 ^ e"
    by (simp add: le_imp_power_dvd)
  then show ?thesis by (simp add: rnd_alt rnd_at_multiple)
qed

lemma rnd_small: "0 \<le> a \<Longrightarrow> a < 2 ^ p \<Longrightarrow> rnd p a = a"
  using rnd_exact [of a p 0] by simp

lemma rnd_error:
  assumes "0 \<le> a" and "0 < p"
  shows "\<bar>rnd p a - a\<bar> * 2 ^ p \<le> a"
proof (cases "a < 2 ^ p")
  case True
  with assms show ?thesis by (simp add: rnd_small)
next
  case False
  define L where "L = nat (bitlen a)"
  from False have "0 < a" by (smt (verit) zero_less_power)
  then have lo: "2 ^ (L - 1) \<le> a" unfolding L_def by (rule bitlen_lower)
  from False have "\<not> bitlen a \<le> int p" by (simp add: bitlen_le_iff_power)
  then have L: "p < L" by (simp add: L_def)
  have "2 * (\<bar>rnd p a - a\<bar> * 2 ^ p) \<le> 2 ^ (L - p) * 2 ^ p"
    using rnd_at_error [of "L - p" a] mult_right_mono [of "2 * \<bar>rnd_at (L - p) a - a\<bar>" "2 ^ (L - p)" "2 ^ p"]
    by (simp add: rnd_alt L_def mult.assoc)
  also have "(2 :: int) ^ (L - p) * 2 ^ p = 2 ^ L" using L by (simp add: power_add [symmetric])
  also have "(2 :: int) ^ L = 2 * 2 ^ (L - 1)" using L by (simp add: power_eq_if)
  finally show ?thesis using lo by linarith
qed

lemma rnd_upper:
  assumes "0 < a"
  shows "rnd p a \<le> 2 ^ nat (bitlen a)"
proof -
  define L where "L = nat (bitlen a)"
  have hi: "a < 2 ^ L" using bitlen_bounds [OF assms] by (simp add: L_def)
  have "(2 :: int) ^ L = 2 ^ (L - (L - p)) * 2 ^ (L - p)" by (simp add: power_add [symmetric])
  with hi have "a div 2 ^ (L - p) * 2 ^ (L - p) + a mod 2 ^ (L - p) < 2 ^ (L - (L - p)) * 2 ^ (L - p)"
    by (simp only: div_mult_mod_eq)
  moreover have "0 \<le> a mod 2 ^ (L - p)" by simp
  ultimately have "a div 2 ^ (L - p) * 2 ^ (L - p) < 2 ^ (L - (L - p)) * 2 ^ (L - p)" by linarith
  then have "a div 2 ^ (L - p) < 2 ^ (L - (L - p))"
    by (rule mult_right_less_imp_less) simp
  then have "(a div 2 ^ (L - p) + 1) * 2 ^ (L - p) \<le> 2 ^ (L - (L - p)) * 2 ^ (L - p)"
    by (intro mult_right_mono) simp_all
  with rnd_at_bounds [of a "L - p"] show ?thesis
    by (simp add: rnd_alt L_def [symmetric] power_add [symmetric])
qed


lemma rnd_lower:
  assumes "0 < a" and "0 < p"
  shows "2 ^ (nat (bitlen a) - 1) \<le> rnd p a"
proof (cases "a < 2 ^ p")
  case True
  then show ?thesis using bitlen_lower [OF assms(1)] assms by (simp add: rnd_small)
next
  case False
  define L where "L = nat (bitlen a)"
  from False have "\<not> bitlen a \<le> int p" by (simp add: bitlen_le_iff_power)
  then have L: "p < L" by (simp add: L_def)
  have lo: "2 ^ (L - 1) \<le> a"
    unfolding L_def using assms(1) by (rule bitlen_lower)
  have "(2 :: int) ^ (L - 1) = 2 ^ (p - 1) * 2 ^ (L - p)"
    using L assms(2) by (simp add: power_add [symmetric])
  with lo have "(2 ^ (p - 1) * 2 ^ (L - p)) div 2 ^ (L - p) \<le> a div 2 ^ (L - p)"
    by (intro zdiv_mono1) simp_all
  then have "2 ^ (p - 1) * 2 ^ (L - p) \<le> a div 2 ^ (L - p) * 2 ^ (L - p)"
    by (intro mult_right_mono) simp_all
  also have "\<dots> \<le> rnd p a"
    using rnd_at_bounds [of a "L - p"] by (simp only: rnd_alt L_def)
  finally show ?thesis
    using \<open>2 ^ (L - 1) = 2 ^ (p - 1) * 2 ^ (L - p)\<close> by (simp only: L_def)
qed

lemma rnd_mono:
  assumes "0 \<le> a" and "a \<le> b" and "0 < p"
  shows "rnd p a \<le> rnd p b"
proof (cases "a = 0")
  case True
  then show ?thesis using assms rnd_lower [of b p] rnd_small [of 0 p]
    by (cases "b = 0") (auto intro: order_trans [rotated])
next
  case False
  with assms have pos: "0 < a" "0 < b" by simp_all
  have le: "bitlen a \<le> bitlen b" using assms(2) by (rule bitlen_mono)
  show ?thesis
  proof (cases "bitlen a = bitlen b")
    case True
    with assms(2) show ?thesis by (simp add: rnd_alt rnd_at_mono)
  next
    case False
    with le have "nat (bitlen a) \<le> nat (bitlen b) - 1" using bitlen_nonneg [of a] by simp
    then have "(2 :: int) ^ nat (bitlen a) \<le> 2 ^ (nat (bitlen b) - 1)"
      by (rule power_increasing) simp
    with rnd_upper [OF pos(1), of p] rnd_lower [OF pos(2) assms(3)] show ?thesis by linarith
  qed
qed

subsection \<open>Representable values\<close>

text \<open>
  \<open>fp_repr f x\<close>: the value \<open>x\<close> (in units of the smallest subnormal) is one of format \<open>f\<close>.
  Every finite decoded operand is; rounding leaves these values alone and is monotone, so
  comparing a rounded sum with a representable value is comparing the exact sum with it.
\<close>

definition fp_repr :: "fp_format \<Rightarrow> int \<Rightarrow> bool" where
  "fp_repr f x \<longleftrightarrow> rnd (Suc (man_bits f)) \<bar>x\<bar> = \<bar>x\<bar> \<and> \<bar>x\<bar> < fp_limit f"

definition fp_wf :: "fp_format \<Rightarrow> bool" where
  "fp_wf f \<longleftrightarrow> 2 \<le> exp_bits f"

lemma fp_wf_formats [simp]: "fp_wf binary32" "fp_wf binary64"
  by (simp_all add: fp_wf_def binary32_def binary64_def)

lemma fp_signed_abs: "fp_signed neg m = Fin x \<Longrightarrow> \<bar>x\<bar> = \<bar>m\<bar>"
  by (auto simp: fp_signed_def split: if_splits)

lemma fp_repr_scaled:
  assumes "fp_wf f" and "0 \<le> m" and "m < 2 ^ Suc (man_bits f)" and "e \<le> 2 ^ exp_bits f - 3"
    and "\<bar>x\<bar> = m * 2 ^ e"
  shows "fp_repr f x"
proof -
  have "(2 :: nat) ^ 2 \<le> 2 ^ exp_bits f" using assms(1) by (intro power_increasing) (simp_all add: fp_wf_def)
  then have sum: "Suc (man_bits f) + (2 ^ exp_bits f - 3) = man_bits f + 2 ^ exp_bits f - 2" by simp
  have "m * 2 ^ e < 2 ^ Suc (man_bits f) * 2 ^ e" using assms(3) by (rule mult_strict_right_mono) simp
  also have "\<dots> = 2 ^ (Suc (man_bits f) + e)" by (simp add: power_add)
  also have "\<dots> \<le> 2 ^ (Suc (man_bits f) + (2 ^ exp_bits f - 3))"
    using assms(4) by (intro power_increasing) simp_all
  also have "\<dots> = fp_limit f" by (simp only: fp_limit_def sum)
  finally show ?thesis
    using rnd_exact [OF assms(2,3), of e] assms(5) by (simp add: fp_repr_def)
qed

lemma fp_decode_repr:
  assumes "fp_wf f" and "fp_decode f w = Fin x"
  shows "fp_repr f x"
proof -
  define man where "man = uint (take_bit (man_bits f) w)"
  define ex where "ex = unat (take_bit (exp_bits f) (drop_bit (man_bits f) w))"
  define neg where "neg = bit w (man_bits f + exp_bits f)"
  have man: "0 \<le> man" "man < 2 ^ man_bits f"
    by (simp_all add: man_def unsigned_take_bit_eq)
  have ex: "ex < 2 ^ exp_bits f" by (simp add: ex_def unsigned_take_bit_eq)
  have dec: "(if ex = 2 ^ exp_bits f - 1 then (if man = 0 then Inf neg else NaN)
         else if ex = 0 then fp_signed neg man
         else fp_signed neg ((2 ^ man_bits f + man) * 2 ^ (ex - 1))) = Fin x"
    using assms(2) unfolding fp_decode_def Let_def man_def ex_def neg_def .
  show ?thesis
  proof (cases "ex = 0")
    case True
    with dec have "fp_signed neg man = Fin x" by (auto split: if_splits)
    then have "\<bar>x\<bar> = man * 2 ^ 0" using man by (simp add: fp_signed_abs)
    with man assms(1) show ?thesis by (intro fp_repr_scaled [of f man 0]) simp_all
  next
    case False
    with dec have "ex \<noteq> 2 ^ exp_bits f - 1"
      and s: "fp_signed neg ((2 ^ man_bits f + man) * 2 ^ (ex - 1)) = Fin x"
      by (auto split: if_splits)
    from this(1) False ex have "ex - 1 \<le> 2 ^ exp_bits f - 3" by linarith
    moreover have "\<bar>x\<bar> = (2 ^ man_bits f + man) * 2 ^ (ex - 1)"
      using fp_signed_abs [OF s] man by (simp add: abs_mult)
    ultimately show ?thesis
      using man assms(1) by (intro fp_repr_scaled [of f "2 ^ man_bits f + man" "ex - 1"]) simp_all
  qed
qed

lemma fp_round_repr: "fp_repr f x \<Longrightarrow> fp_round f x = Fin x"
  by (auto simp: fp_repr_def fp_round_def fp_signed_def Let_def)

lemma fp_round_not_NaN [simp]: "fp_round f x \<noteq> NaN"
  by (simp add: fp_round_def fp_signed_def Let_def)

lemma rnd_nonneg: "0 \<le> a \<Longrightarrow> 0 \<le> rnd (Suc p) a"
  using rnd_mono [of 0 a "Suc p"] rnd_small [of 0 "Suc p"] by simp

lemma fp_limit_pos [simp]: "0 < fp_limit f"
  by (simp add: fp_limit_def)

lemma fp_round_mono: "x \<le> y \<Longrightarrow> fp_le (fp_round f x) (fp_round f y)"
proof -
  assume xy: "x \<le> y"
  define X Y where "X = rnd (Suc (man_bits f)) \<bar>x\<bar>" and "Y = rnd (Suc (man_bits f)) \<bar>y\<bar>"
  have nn: "0 \<le> X" "0 \<le> Y" by (simp_all add: X_def Y_def rnd_nonneg)
  have pos: "0 \<le> x \<Longrightarrow> X \<le> Y" and neg: "y < 0 \<Longrightarrow> Y \<le> X"
    unfolding X_def Y_def using xy by (auto intro!: rnd_mono)
  have "0 \<le> y" if "0 \<le> x" using xy that by simp
  with pos neg nn show ?thesis
    unfolding fp_round_def X_def [symmetric] Y_def [symmetric]
    by (auto simp: fp_le_def fp_signed_def Let_def)
qed

lemma fp_le_Fin_iff: "fp_le (Fin x) (Fin y) \<longleftrightarrow> x \<le> y"
  by (auto simp: fp_le_def)

lemma fp_round_le_iff:
  assumes "fp_repr f y"
  shows "fp_le (fp_round f x) (Fin y) \<longleftrightarrow> x \<le> y \<or> fp_round f x = Fin y"
proof
  assume le: "fp_le (fp_round f x) (Fin y)"
  show "x \<le> y \<or> fp_round f x = Fin y"
  proof (rule ccontr)
    assume no: "\<not> ?thesis"
    then have "fp_le (Fin y) (fp_round f x)"
      using fp_round_mono [of y x f] by (simp add: fp_round_repr assms)
    with le no show False by (cases "fp_round f x") (auto simp: fp_le_def)
  qed
next
  assume "x \<le> y \<or> fp_round f x = Fin y"
  then show "fp_le (fp_round f x) (Fin y)"
    using fp_round_mono [of x y f] by (auto simp: fp_round_repr assms fp_le_def)
qed

lemma fp_round_lt_iff:
  assumes "fp_repr f y"
  shows "fp_lt (fp_round f x) (Fin y) \<longleftrightarrow> x < y \<and> fp_round f x \<noteq> Fin y"
proof (cases "x < y")
  case True
  then have "fp_le (fp_round f x) (Fin y)" using fp_round_mono [of x y f] by (simp add: fp_round_repr assms)
  with True show ?thesis by (cases "fp_round f x") (auto simp: fp_le_def)
next
  case False
  then have "fp_le (Fin y) (fp_round f x)" using fp_round_mono [of y x f] by (simp add: fp_round_repr assms)
  with False show ?thesis by (cases "fp_round f x") (auto simp: fp_le_def)
qed

lemma fp_round_gt_iff:
  assumes "fp_repr f y"
  shows "fp_lt (Fin y) (fp_round f x) \<longleftrightarrow> y < x \<and> fp_round f x \<noteq> Fin y"
proof (cases "y < x")
  case True
  then have "fp_le (Fin y) (fp_round f x)" using fp_round_mono [of y x f] by (simp add: fp_round_repr assms)
  with True show ?thesis by (cases "fp_round f x") (auto simp: fp_le_def)
next
  case False
  then have "fp_le (fp_round f x) (Fin y)" using fp_round_mono [of x y f] by (simp add: fp_round_repr assms)
  with False show ?thesis by (cases "fp_round f x") (auto simp: fp_le_def)
qed

lemma fp_le_trans: "fp_le a b \<Longrightarrow> fp_le b c \<Longrightarrow> fp_le a c"
  by (cases a; cases b; cases c) (auto simp: fp_le_def)

lemma fp_not_lt: "a \<noteq> NaN \<Longrightarrow> b \<noteq> NaN \<Longrightarrow> \<not> fp_lt a b \<longleftrightarrow> fp_le b a"
  by (cases a; cases b) (auto simp: fp_le_def)

lemma fp_lt_le: "fp_lt a b \<Longrightarrow> fp_le a b"
  by (simp add: fp_le_def)

lemma fp_NaN [simp]:
  "\<not> fp_lt NaN b" "\<not> fp_lt a NaN" "\<not> fp_le NaN b" "\<not> fp_le a NaN"
  "\<not> fp_eq NaN b" "\<not> fp_eq a NaN" "fp_sub f NaN b = NaN" "fp_sub f a NaN = NaN"
  "fp_add f a NaN = NaN"
  by (cases a; cases b; simp add: fp_le_def fp_sub_def)+

lemma fp_sub_Fin [simp]: "fp_sub f (Fin x) (Fin y) = fp_round f (x - y)"
  by (simp add: fp_sub_def)

lemma fp_abs_eq_NaN [simp]: "fp_abs a = NaN \<longleftrightarrow> a = NaN"
  by (cases a) auto

lemma fp_abs_round: "fp_abs (fp_round f x) = fp_round f \<bar>x\<bar>"
  by (auto simp: fp_round_def fp_signed_def Let_def rnd_nonneg)

lemma fp_round_Fin_error:
  assumes "fp_round f x = Fin y"
  shows "\<bar>y - x\<bar> * 2 ^ Suc (man_bits f) \<le> \<bar>x\<bar>"
proof -
  define r where "r = rnd (Suc (man_bits f)) \<bar>x\<bar>"
  have "y = (if x < 0 then - r else r)"
    using assms by (auto simp: fp_round_def fp_signed_def Let_def r_def split: if_splits)
  then have "\<bar>y - x\<bar> = \<bar>r - \<bar>x\<bar>\<bar>" by auto
  then show ?thesis using rnd_error [of "\<bar>x\<bar>" "Suc (man_bits f)"] by (simp add: r_def)
qed

end
