(* ===== verification/Comparator.thy ===== *)
theory Comparator
  imports Fp_Arith
begin

text \<open>
  The value comparison of a scan (\<open>slow_scanner.h\<close>, \<open>scanner/scan.hpp\<close>): the element kinds
  with their sizes, the scan modes, and the predicate that \<open>make_comparator\<close> returns. The
  three operands are raw 64-bit patterns: the current value, the first reference and the
  optional second one; the element kind decides how they are read.
\<close>

datatype element_type = U8 | U16 | U32 | U64 | Float | Double

datatype scan_type =
    unknown_value
  | increased_value
  | decreased_value
  | exact_value
  | increased_by
  | decreased_by
  | smaller_than
  | bigger_than
  | changed
  | unchanged
  | value_between

text \<open>The element kinds are finitely many, and the library can go through them.\<close>

instantiation element_type :: enum
begin

definition enum_element_type :: "element_type list" where
  "enum_element_type = [U8, U16, U32, U64, Float, Double]"

definition enum_all_element_type :: "(element_type \<Rightarrow> bool) \<Rightarrow> bool" where
  "enum_all_element_type P \<longleftrightarrow> P U8 \<and> P U16 \<and> P U32 \<and> P U64 \<and> P Float \<and> P Double"

definition enum_ex_element_type :: "(element_type \<Rightarrow> bool) \<Rightarrow> bool" where
  "enum_ex_element_type P \<longleftrightarrow> P U8 \<or> P U16 \<or> P U32 \<or> P U64 \<or> P Float \<or> P Double"

instance
proof
  show univ: "(UNIV :: element_type set) = set enum_class.enum"
    using element_type.exhaust by (auto simp: enum_element_type_def)
  show "distinct (enum_class.enum :: element_type list)" by (simp add: enum_element_type_def)
  show "enum_class.enum_all P = Ball UNIV P" for P :: "element_type \<Rightarrow> bool"
    unfolding univ by (simp add: enum_all_element_type_def enum_element_type_def)
  show "enum_class.enum_ex P = Bex UNIV P" for P :: "element_type \<Rightarrow> bool"
    unfolding univ by (simp add: enum_ex_element_type_def enum_element_type_def)
qed

end

fun element_size :: "element_type \<Rightarrow> u64" where
  "element_size U8 = 1"
| "element_size U16 = 2"
| "element_size U32 = 4"
| "element_size U64 = 8"
| "element_size Float = 4"
| "element_size Double = 8"

text \<open>
  The constants \<open>0.01f\<close> and \<open>1e-7\<close> of the sources, as the bit patterns of the nearest
  binary32 and binary64 numbers.
\<close>

definition eps_float :: fp where
  "eps_float = fp_decode binary32 0x3C23D70A"

definition eps_double :: fp where
  "eps_double = fp_decode binary64 0x3E7AD7F29ABCAF48"

text \<open>\<open>c = c_bits ? read_fp(c, *c_bits) : 0\<close>\<close>

definition read_fp_opt :: "fp_format \<Rightarrow> u64 option \<Rightarrow> fp" where
  "read_fp_opt f c_bits = (case c_bits of Some w \<Rightarrow> fp_decode f w | None \<Rightarrow> Fin 0)"

definition compare_float :: "scan_type \<Rightarrow> u64 \<Rightarrow> u64 \<Rightarrow> u64 option \<Rightarrow> bool" where
  "compare_float type a_bits b_bits c_bits =
     (let a = fp_decode binary32 a_bits;
          b = fp_decode binary32 b_bits;
          c = read_fp_opt binary32 c_bits;
          eps = eps_float;
          plus = fp_add binary32;
          minus = fp_sub binary32
      in case type of
           exact_value \<Rightarrow> fp_le (fp_abs (minus a b)) eps
         | increased_value \<Rightarrow> fp_lt (plus b eps) a
         | decreased_value \<Rightarrow> fp_lt a (minus b eps)
         | bigger_than \<Rightarrow> fp_lt (plus b eps) a
         | smaller_than \<Rightarrow> fp_lt a (minus b eps)
         | changed \<Rightarrow> fp_lt eps (fp_abs (minus a b))
         | unchanged \<Rightarrow> fp_le (fp_abs (minus a b)) eps
         | increased_by \<Rightarrow> c_bits \<noteq> None \<and> fp_le (fp_abs (minus (minus a b) c)) eps
         | decreased_by \<Rightarrow> c_bits \<noteq> None \<and> fp_le (fp_abs (minus (minus b a) c)) eps
         | value_between \<Rightarrow> c_bits \<noteq> None \<and> fp_lt (plus b eps) a \<and> fp_lt a (minus c eps)
         | unknown_value \<Rightarrow> False)"

definition compare_double :: "scan_type \<Rightarrow> u64 \<Rightarrow> u64 \<Rightarrow> u64 option \<Rightarrow> bool" where
  "compare_double type a_bits b_bits c_bits =
     (let a = fp_decode binary64 a_bits;
          b = fp_decode binary64 b_bits;
          c = read_fp_opt binary64 c_bits;
          eps = eps_double;
          plus = fp_add binary64;
          minus = fp_sub binary64
      in case type of
           exact_value \<Rightarrow> fp_eq a b
         | increased_value \<Rightarrow> fp_lt b a
         | decreased_value \<Rightarrow> fp_lt a b
         | bigger_than \<Rightarrow> fp_lt (plus b eps) a
         | smaller_than \<Rightarrow> fp_lt a (minus b eps)
         | changed \<Rightarrow> \<not> fp_eq a b
         | unchanged \<Rightarrow> fp_eq a b
         | increased_by \<Rightarrow> c_bits \<noteq> None \<and> fp_eq (minus a b) c
         | decreased_by \<Rightarrow> c_bits \<noteq> None \<and> fp_eq (minus b a) c
         | value_between \<Rightarrow> c_bits \<noteq> None \<and> fp_lt b a \<and> fp_lt a c
         | unknown_value \<Rightarrow> False)"

definition compare_int :: "scan_type \<Rightarrow> u64 \<Rightarrow> u64 \<Rightarrow> u64 option \<Rightarrow> bool" where
  "compare_int type a b c_bits =
     (let c = (case c_bits of Some w \<Rightarrow> w | None \<Rightarrow> 0)
      in case type of
           exact_value \<Rightarrow> a = b
         | increased_value \<Rightarrow> b < a
         | decreased_value \<Rightarrow> a < b
         | bigger_than \<Rightarrow> b < a
         | smaller_than \<Rightarrow> a < b
         | changed \<Rightarrow> a \<noteq> b
         | unchanged \<Rightarrow> a = b
         | increased_by \<Rightarrow> c_bits \<noteq> None \<and> a - b = c
         | decreased_by \<Rightarrow> c_bits \<noteq> None \<and> b - a = c
         | value_between \<Rightarrow> c_bits \<noteq> None \<and> b < a \<and> a < c
         | unknown_value \<Rightarrow> False)"

fun make_comparator :: "scan_type \<Rightarrow> element_type \<Rightarrow> u64 \<Rightarrow> u64 \<Rightarrow> u64 option \<Rightarrow> bool" where
  "make_comparator type Float a_bits b_bits c_bits = compare_float type a_bits b_bits c_bits"
| "make_comparator type Double a_bits b_bits c_bits = compare_double type a_bits b_bits c_bits"
| "make_comparator type et a_bits b_bits c_bits = compare_int type a_bits b_bits c_bits"


subsection \<open>The contract of the comparison modes\<close>

text \<open>
  What a scan relies on when it classifies (new, old) pairs of values with the modes: exact
  matching is the same as \<open>unchanged\<close>, \<open>changed\<close> is its complement, a value compared with
  itself is unchanged and moved in no direction, and no pair moved both up and down. \<open>ok\<close>
  says which bit patterns the contract covers.
\<close>

locale scan_modes =
  fixes cmp :: "scan_type \<Rightarrow> u64 \<Rightarrow> u64 \<Rightarrow> bool"
    and ok :: "u64 \<Rightarrow> bool"
  assumes exact_unchanged: "cmp exact_value a b = cmp unchanged a b"
    and changed_compl: "ok a \<Longrightarrow> ok b \<Longrightarrow> cmp changed a b = (\<not> cmp unchanged a b)"
    and unchanged_refl: "ok a \<Longrightarrow> cmp unchanged a a"
    and up_irrefl: "\<not> cmp increased_value a a"
    and down_irrefl: "\<not> cmp decreased_value a a"
    and up_down: "\<not> (cmp increased_value a b \<and> cmp decreased_value a b)"
begin

abbreviation hits :: "scan_type \<Rightarrow> (u64 \<times> u64) list \<Rightarrow> (u64 \<times> u64) list" where
  "hits type ps \<equiv> filter (\<lambda>(a, b). cmp type a b) ps"

lemma changed_unchanged_mset:
  assumes "\<And>a b. (a, b) \<in> set ps \<Longrightarrow> ok a \<and> ok b"
  shows "mset (hits changed ps) + mset (hits unchanged ps) = mset ps"
proof -
  have "hits changed ps = filter (\<lambda>p. \<not> (\<lambda>(a, b). cmp unchanged a b) p) ps"
    using assms by (intro filter_cong) (auto simp: changed_compl)
  then show ?thesis by (simp add: mset_filter add.commute)
qed

lemma up_down_disjoint: "set (hits increased_value ps) \<inter> set (hits decreased_value ps) = {}"
  using up_down by auto

lemma same_value_hits: "ok a \<Longrightarrow> cmp type a a \<Longrightarrow> type \<noteq> changed \<and> type \<noteq> increased_value \<and> type \<noteq> decreased_value"
  using changed_compl unchanged_refl up_irrefl down_irrefl by blast

end

text \<open>
  For the exact comparisons (integers and \<open>double\<close>) the three outcomes cover every pair.
\<close>

locale exact_scan_modes = scan_modes +
  assumes total: "ok a \<Longrightarrow> ok b \<Longrightarrow> cmp unchanged a b \<or> cmp increased_value a b \<or> cmp decreased_value a b"
    and moved_changed: "cmp increased_value a b \<or> cmp decreased_value a b \<Longrightarrow> \<not> cmp unchanged a b"
begin

lemma three_way_mset:
  assumes "\<And>a b. (a, b) \<in> set ps \<Longrightarrow> ok a \<and> ok b"
  shows "mset (hits increased_value ps) + mset (hits decreased_value ps) + mset (hits unchanged ps) = mset ps"
  using assms
proof (induction ps)
  case Nil
  then show ?case by simp
next
  case (Cons p ps)
  obtain a b where p: "p = (a, b)" by force
  have "mset (hits increased_value ps) + mset (hits decreased_value ps) + mset (hits unchanged ps) = mset ps"
    by (rule Cons.IH) (rule Cons.prems, simp)
  moreover have "ok a \<and> ok b" by (rule Cons.prems) (simp add: p)
  ultimately show ?case
    using total [of a b] moved_changed [of a b] up_down [of a b] by (auto simp: p)
qed

end

text \<open>
  Which patterns the contract covers: every integer, a \<open>double\<close> that is a number, a \<open>float\<close>
  that is finite (\<open>inf - inf\<close> is not a number, so an infinite \<open>float\<close> is neither
  changed nor unchanged with respect to itself).
\<close>

fun comparable :: "element_type \<Rightarrow> u64 \<Rightarrow> bool" where
  "comparable Float w = (case fp_decode binary32 w of Fin _ \<Rightarrow> True | _ \<Rightarrow> False)"
| "comparable Double w = (fp_decode binary64 w \<noteq> NaN)"
| "comparable _ _ = True"

lemma eps_float_Fin: "eps_float = Fin 7136238304022439911101525098790628448272384"
  unfolding eps_float_def by code_simp

lemma eps_float_pos: "\<exists>e. eps_float = Fin e \<and> 0 < e \<and> fp_repr binary32 e"
  by (metis eps_float_def eps_float_Fin fp_decode_repr fp_wf_formats(1) zero_less_numeral)

lemma float_up: "fp_lt (fp_add binary32 b eps_float) a \<Longrightarrow> b \<noteq> NaN \<Longrightarrow> fp_decode binary32 w = b \<Longrightarrow> fp_lt b a"
proof -
  assume up: "fp_lt (fp_add binary32 b eps_float) a" and "b \<noteq> NaN" and dec: "fp_decode binary32 w = b"
  obtain e where e: "eps_float = Fin e" "0 < e" using eps_float_pos by blast
  show ?thesis
  proof (cases b)
    case (Fin y)
    then have "fp_le (Fin y) (fp_round binary32 (y + e))"
      using fp_round_mono [of y "y + e" binary32] e dec
      by (simp add: fp_round_repr fp_decode_repr)
    moreover from up have "fp_lt (fp_round binary32 (y + e)) a" by (simp add: Fin e)
    ultimately show ?thesis unfolding Fin
      by (cases a; cases "fp_round binary32 (y + e)") (auto simp: fp_le_def)
  next
    case (Inf s)
    with up show ?thesis by (simp add: e)
  qed (use \<open>b \<noteq> NaN\<close> in simp)
qed

lemma float_down: "fp_lt a (fp_sub binary32 b eps_float) \<Longrightarrow> b \<noteq> NaN \<Longrightarrow> fp_decode binary32 w = b \<Longrightarrow> fp_lt a b"
proof -
  assume down: "fp_lt a (fp_sub binary32 b eps_float)" and "b \<noteq> NaN" and dec: "fp_decode binary32 w = b"
  obtain e where e: "eps_float = Fin e" "0 < e" using eps_float_pos by blast
  show ?thesis
  proof (cases b)
    case (Fin y)
    then have "fp_le (fp_round binary32 (y - e)) (Fin y)"
      using fp_round_mono [of "y - e" y binary32] e dec
      by (simp add: fp_round_repr fp_decode_repr)
    moreover from down have "fp_lt a (fp_round binary32 (y - e))" by (simp add: Fin e)
    ultimately show ?thesis unfolding Fin
      by (cases a; cases "fp_round binary32 (y - e)") (auto simp: fp_le_def)
  next
    case (Inf s)
    with down show ?thesis by (simp add: e fp_sub_def)
  qed (use \<open>b \<noteq> NaN\<close> in simp)
qed

lemma fp_lt_asym: "fp_lt a b \<Longrightarrow> \<not> fp_lt b a"
  by (cases a; cases b) auto

lemma fp_lt_irrefl [simp]: "\<not> fp_lt a a"
  by (cases a) auto

lemmas compare_defs = compare_float_def compare_double_def compare_int_def Let_def

lemma float_not_up_down:
  "\<not> (make_comparator increased_value Float a b c \<and> make_comparator decreased_value Float a b c)"
  by (cases "fp_decode binary32 b = NaN")
    (auto simp: compare_defs dest: float_up float_down fp_lt_asym)

lemma float_changed_compl:
  assumes "comparable Float a" and "comparable Float b"
  shows "make_comparator changed Float a b c = (\<not> make_comparator unchanged Float a b c)"
proof -
  obtain x y where xy: "fp_decode binary32 a = Fin x" "fp_decode binary32 b = Fin y"
    using assms by (auto split: fp.splits)
  then have "fp_abs (fp_sub binary32 (fp_decode binary32 a) (fp_decode binary32 b)) \<noteq> NaN" by simp
  moreover have "eps_float \<noteq> NaN" by (simp add: eps_float_Fin)
  ultimately show ?thesis by (simp add: compare_defs fp_not_lt [symmetric])
qed

lemma fp_round_0 [simp]: "fp_round f 0 = Fin 0"
  using fp_round_repr [of f 0] by (simp add: fp_repr_def rnd_small)

lemma fp_eq_iff: "fp_eq a b \<longleftrightarrow> a = b \<and> a \<noteq> NaN"
  by (cases a; cases b) auto

interpretation modes: scan_modes "\<lambda>type a b. make_comparator type et a b c" "comparable et"
  for et :: element_type and c :: "u64 option"
proof
  fix a b :: u64
  show "make_comparator exact_value et a b c = make_comparator unchanged et a b c"
    by (cases et) (simp_all add: compare_defs)
  show "\<not> make_comparator increased_value et a a c"
    by (cases et; cases "fp_decode binary32 a = NaN") (auto simp: compare_defs dest: float_up)
  show "\<not> make_comparator decreased_value et a a c"
    by (cases et; cases "fp_decode binary32 a = NaN") (auto simp: compare_defs dest: float_down)
  show "\<not> (make_comparator increased_value et a b c \<and> make_comparator decreased_value et a b c)"
    using float_not_up_down [of a b c] by (cases et) (auto simp: compare_defs dest: fp_lt_asym)
next
  fix a b :: u64
  assume "comparable et a" and "comparable et b"
  then show "make_comparator changed et a b c = (\<not> make_comparator unchanged et a b c)"
    using float_changed_compl [of a b c] by (cases et) (simp_all add: compare_defs)
next
  fix a :: u64
  assume "comparable et a"
  then show "make_comparator unchanged et a a c"
    by (cases et) (auto simp: compare_defs eps_float_Fin fp_le_def fp_eq_iff split: fp.splits)
qed

definition exact_kind :: "element_type \<Rightarrow> bool" where
  "exact_kind et \<longleftrightarrow> et \<noteq> Float"

lemma fp_trichotomy: "a \<noteq> NaN \<Longrightarrow> b \<noteq> NaN \<Longrightarrow> fp_eq a b \<or> fp_lt b a \<or> fp_lt a b"
  by (cases a; cases b) auto

interpretation double_modes: exact_scan_modes "\<lambda>type a b. make_comparator type Double a b c" "comparable Double"
  for c :: "u64 option"
  by unfold_locales (auto simp: compare_defs fp_eq_iff fp_trichotomy dest: fp_trichotomy)

interpretation int_modes: exact_scan_modes "\<lambda>type a b. compare_int type a b c" "\<lambda>_. True"
  for c :: "u64 option"
  by unfold_locales (auto simp: compare_defs)


subsection \<open>Properties\<close>

text \<open>
  C18: for every element kind and every list of (new, old) values it can compare, the modes
  \<open>changed\<close> and \<open>unchanged\<close> split the list: each pair is a hit of exactly one of them.
\<close>

theorem changed_unchanged_partition:
  assumes "\<And>a b. (a, b) \<in> set ps \<Longrightarrow> comparable et a \<and> comparable et b"
  shows "mset (filter (\<lambda>(a, b). make_comparator changed et a b c) ps)
       + mset (filter (\<lambda>(a, b). make_comparator unchanged et a b c) ps) = mset ps"
  by (rule modes.changed_unchanged_mset) (rule assms)

theorem changed_unchanged_partition_witness:
  "mset (filter (\<lambda>(a, b). make_comparator changed Float a b None) [(0x3F800000, 0x40000000), (0, 0x80000000)])
 + mset (filter (\<lambda>(a, b). make_comparator unchanged Float a b None) [(0x3F800000, 0x40000000), (0, 0x80000000)])
 = mset [(0x3F800000, 0x40000000), (0, 0x80000000)]"
proof (rule changed_unchanged_partition)
  have "comparable Float 0x3F800000" "comparable Float 0x40000000"
    "comparable Float 0" "comparable Float 0x80000000" by code_simp+
  then show "comparable Float a \<and> comparable Float b"
    if "(a, b) \<in> set [(0x3F800000, 0x40000000), (0, 0x80000000)]" for a b
    using that by (auto simp del: comparable.simps)
qed

text \<open>
  For the integer kinds and \<open>double\<close> the modes \<open>increased_value\<close>, \<open>decreased_value\<close> and
  \<open>unchanged\<close> are a three-way partition of the pairs.
\<close>

lemma three_way_partition:
  assumes "et \<noteq> Float" and "\<And>a b. (a, b) \<in> set ps \<Longrightarrow> comparable et a \<and> comparable et b"
  shows "mset (filter (\<lambda>(a, b). make_comparator increased_value et a b c) ps)
       + mset (filter (\<lambda>(a, b). make_comparator decreased_value et a b c) ps)
       + mset (filter (\<lambda>(a, b). make_comparator unchanged et a b c) ps) = mset ps"
proof (cases "et = Double")
  case True
  then show ?thesis using assms(2) double_modes.three_way_mset [of ps c] by blast
next
  case False
  with assms(1) have "make_comparator type et = compare_int type" for type
    by (cases et) (simp_all add: fun_eq_iff)
  then show ?thesis using int_modes.three_way_mset [of ps c] by simp
qed

lemma three_way_partition_witness:
  "mset (filter (\<lambda>(a, b). make_comparator increased_value U32 a b None) [(7, 5), (5, 7), (6, 6)])
 + mset (filter (\<lambda>(a, b). make_comparator decreased_value U32 a b None) [(7, 5), (5, 7), (6, 6)])
 + mset (filter (\<lambda>(a, b). make_comparator unchanged U32 a b None) [(7, 5), (5, 7), (6, 6)])
 = mset [(7, 5), (5, 7), (6, 6)]"
  by (rule three_way_partition) simp_all

text \<open>
  The largest distance that a \<open>float\<close> subtraction still rounds to \<open>0.01f\<close>, in units of the smallest
  subnormal number: \<open>0.01f\<close> is \<open>10737418 * 2^119\<close>, and half a unit in its last place is \<open>2^118\<close>. The
  significand is even, so the tie itself is rounded to it.
\<close>

definition float_reach :: int where
  "float_reach = 21474837 * 2 ^ 118"

lemma float_reach_rounds:
  "fp_round binary32 float_reach = eps_float" "fp_lt eps_float (fp_round binary32 (float_reach + 1))"
  unfolding eps_float_def by code_simp+

lemma fp_round_le_eps: "fp_le (fp_round binary32 d) eps_float \<longleftrightarrow> d \<le> float_reach"
proof
  assume le: "fp_le (fp_round binary32 d) eps_float"
  show "d \<le> float_reach"
  proof (rule ccontr)
    assume "\<not> d \<le> float_reach"
    then have "fp_le (fp_round binary32 (float_reach + 1)) (fp_round binary32 d)"
      by (intro fp_round_mono) simp
    then have "fp_le (fp_round binary32 (float_reach + 1)) eps_float" using le by (rule fp_le_trans)
    with float_reach_rounds(2) show False
      by (cases "fp_round binary32 (float_reach + 1)") (auto simp: eps_float_Fin fp_le_def)
  qed
next
  assume "d \<le> float_reach"
  then show "fp_le (fp_round binary32 d) eps_float"
    using fp_round_mono [of d float_reach binary32] by (simp add: float_reach_rounds)
qed

text \<open>
  C34: what "equal" means for a \<open>float\<close>, exactly. Finite operands match in the mode \<open>exact_value\<close>, and
  an old and a new value count as unchanged, if and only if their exact values are at most
  \<open>21474837 * 2^-31\<close> apart, which is \<open>0.01f\<close> and half a unit in its last place (values are in units
  of \<open>2^-149\<close>): the tolerance is widened by the rounding of the subtraction, and by nothing else.
\<close>

theorem float_exact_tolerance:
  assumes "fp_decode binary32 a = Fin x" and "fp_decode binary32 b = Fin y"
  shows "(make_comparator exact_value Float a b c \<longleftrightarrow> \<bar>x - y\<bar> \<le> 21474837 * 2 ^ 118)
       \<and> (make_comparator unchanged Float a b c \<longleftrightarrow> \<bar>x - y\<bar> \<le> 21474837 * 2 ^ 118)"
  using fp_round_le_eps [of "\<bar>x - y\<bar>"]
  by (simp add: compare_defs assms fp_abs_round float_reach_def)

theorem float_exact_tolerance_witness:
  "make_comparator exact_value Float 0x3F800000 0x3F7D70A4 None
   \<and> \<not> make_comparator exact_value Float 0x3F800000 0x3F7D70A3 None"
proof -
  have "fp_decode binary32 0x3F800000 = Fin (2 ^ 149)" "fp_decode binary32 0x3F7D70A4 = Fin (16609444 * 2 ^ 125)"
    "fp_decode binary32 0x3F7D70A3 = Fin (16609443 * 2 ^ 125)"
    by code_simp+
  note d = this
  show ?thesis
    using float_exact_tolerance [OF d(1,2), of None] float_exact_tolerance [OF d(1,3), of None] by simp
qed

text \<open>
  An operand that is not a number matches in no mode of \<open>float\<close>, and for \<open>double\<close> in the mode
  \<open>changed\<close> only (\<open>a != b\<close> holds then).
\<close>

lemma nan_operand:
  assumes "et = Float \<and> fp_decode binary32 a = NaN \<or> et = Float \<and> fp_decode binary32 b = NaN
    \<or> et = Double \<and> fp_decode binary64 a = NaN \<or> et = Double \<and> fp_decode binary64 b = NaN"
  shows "make_comparator type et a b c \<longleftrightarrow> et = Double \<and> type = changed"
  using assms by (cases type) (auto simp: compare_defs)

lemma nan_operand_witness:
  "\<not> make_comparator changed Float 0x7FC00000 0 None \<and> make_comparator changed Double 0 0x7FF8000000000000 None"
proof -
  have "fp_decode binary32 0x7FC00000 = NaN" "fp_decode binary64 0x7FF8000000000000 = NaN" by code_simp+
  then show ?thesis
    using nan_operand [of Float "0x7FC00000" 0 changed None]
      nan_operand [of Double 0 "0x7FF8000000000000" changed None] by simp
qed

text \<open>
  The distance modes of the integer kinds are exact modulo \<open>2^64\<close> and need the second
  reference value: a value increased (decreased) by \<open>c\<close> is the old one plus (minus) \<open>c\<close>, and
  \<open>value_between\<close> excludes both bounds.
\<close>

lemma int_distance_modes:
  assumes "et \<noteq> Float" and "et \<noteq> Double"
  shows "(make_comparator increased_by et a b c_bits \<longleftrightarrow> (\<exists>c. c_bits = Some c \<and> a = b + c))
       \<and> (make_comparator decreased_by et a b c_bits \<longleftrightarrow> (\<exists>c. c_bits = Some c \<and> b = a + c))
       \<and> (make_comparator value_between et a b c_bits \<longleftrightarrow>
            (\<exists>c. c_bits = Some c \<and> unat b < unat a \<and> unat a < unat c))"
proof -
  from assms have "make_comparator type et = compare_int type" for type
    by (cases et) (simp_all add: fun_eq_iff)
  then show ?thesis
    by (cases c_bits) (auto simp: compare_defs word_less_nat_alt algebra_simps)
qed

text \<open>
  C35: for \<open>float\<close> the modes overlap, exactly here. A finite new value \<open>x\<close> and old value \<open>y\<close> count both
  as increased and as unchanged if and only if \<open>x\<close> is above \<open>y + 0.01f\<close> by at most half a unit in the
  last place of \<open>0.01f\<close> and \<open>y + 0.01f\<close> is not rounded to \<open>x\<close>; and likewise for decreased. (\<open>e\<close> is the
  exact value of \<open>0.01f\<close>.)
\<close>

theorem float_increased_and_unchanged:
  assumes "fp_decode binary32 a = Fin x" and "fp_decode binary32 b = Fin y" and "eps_float = Fin e"
  shows "(make_comparator increased_value Float a b c \<and> make_comparator unchanged Float a b c \<longleftrightarrow>
          e < x - y \<and> x - y \<le> e + 2 ^ 118 \<and> fp_round binary32 (y + e) \<noteq> Fin x)
       \<and> (make_comparator decreased_value Float a b c \<and> make_comparator unchanged Float a b c \<longleftrightarrow>
          e < y - x \<and> y - x \<le> e + 2 ^ 118 \<and> fp_round binary32 (y - e) \<noteq> Fin x)"
proof -
  have x: "fp_repr binary32 x" using assms(1) fp_decode_repr [OF fp_wf_formats(1)] by blast
  have e: "0 < e" "float_reach = e + 2 ^ 118"
    using assms(3) by (simp_all add: eps_float_Fin float_reach_def)
  have u: "make_comparator unchanged Float a b c \<longleftrightarrow> \<bar>x - y\<bar> \<le> e + 2 ^ 118"
    using fp_round_le_eps [of "\<bar>x - y\<bar>"] by (simp add: compare_defs assms(1,2) fp_abs_round e(2))
  have i: "make_comparator increased_value Float a b c \<longleftrightarrow> y + e < x \<and> fp_round binary32 (y + e) \<noteq> Fin x"
    by (simp add: compare_defs assms fp_round_lt_iff [OF x])
  have d: "make_comparator decreased_value Float a b c \<longleftrightarrow> x < y - e \<and> fp_round binary32 (y - e) \<noteq> Fin x"
    by (simp add: compare_defs assms fp_round_gt_iff [OF x])
  from e(1) show ?thesis unfolding u i d by linarith
qed

theorem float_increased_and_unchanged_witness:
  "make_comparator increased_value Float 0x3C5147A1 0x3B35C25A None
   \<and> make_comparator unchanged Float 0x3C5147A1 0x3B35C25A None"
proof -
  have "case (fp_decode binary32 0x3C5147A1, fp_decode binary32 0x3B35C25A, eps_float) of
      (Fin x, Fin y, Fin e) \<Rightarrow> e < x - y \<and> x - y \<le> e + 2 ^ 118 \<and> fp_round binary32 (y + e) \<noteq> Fin x | _ \<Rightarrow> False"
    by code_simp
  then obtain x y e where d: "fp_decode binary32 0x3C5147A1 = Fin x" "fp_decode binary32 0x3B35C25A = Fin y"
    "eps_float = Fin e" and o: "e < x - y \<and> x - y \<le> e + 2 ^ 118 \<and> fp_round binary32 (y + e) \<noteq> Fin x"
    by (auto split: fp.splits)
  from float_increased_and_unchanged [OF d, of None, THEN conjunct1, THEN iffD2, OF o] show ?thesis .
qed

end
