(* ===== verification/Scan_Object.thy ===== *)
theory Scan_Object
  imports Memory_Region Comparator
begin

text \<open>
  The class \<open>scan\<close> (\<open>scanner/scan.hpp\<close>): the region it looks at, the mode and the element size it
  was made for, the entries found so far and whether there are any. The loops read the copy of
  the region through the mapped memory.

  A scan holds the only pointer to its region that outlives the call that made it, so the model
  keeps the region inside the scan.
\<close>

record scan_entry =
  entry_value :: u64
  snapshot_value :: u64
  element_index :: u64

record scan =
  scan_region :: "memory_region option"
  scan_mode :: scan_type
  elem_size :: u64
  scan_valid :: bool
  results :: "scan_entry list"

type_synonym comparator_fn = "u64 \<Rightarrow> u64 \<Rightarrow> u64 option \<Rightarrow> bool"

definition new_scan :: "memory_region option \<Rightarrow> scan_type \<Rightarrow> u64 \<Rightarrow> scan res" where
  "new_scan region type es =
     (if \<not> (es = 1 \<or> es = 2 \<or> es = 4 \<or> es = 8) then Inl Invalid_argument
      else Inr \<lparr>scan_region = region, scan_mode = type, elem_size = es, scan_valid = False, results = []\<rparr>)"

definition set_valid :: "scan \<Rightarrow> scan" where
  "set_valid sc = sc\<lparr>scan_valid := True\<rparr>"

definition add_result :: "scan_entry \<Rightarrow> scan \<Rightarrow> scan" where
  "add_result e sc = sc\<lparr>results := results sc @ [e]\<rparr>"

text \<open>\<open>uint64_t v = 0; memcpy(&v, p, n)\<close>\<close>

definition load_value :: "'w win32 \<Rightarrow> 'w \<Rightarrow> u64 \<Rightarrow> u64 \<Rightarrow> u64" where
  "load_value api w p n = le_u64 (load_bytes api w p (unat n))"

text \<open>The loop of \<open>search_value\<close> from index \<open>i\<close> on, with \<open>n\<close> elements to go.\<close>

fun search_loop ::
  "(u64 \<Rightarrow> u64) \<Rightarrow> (u64 \<Rightarrow> bool) \<Rightarrow> nat \<Rightarrow> u64 \<Rightarrow> scan_entry list \<Rightarrow> u64 \<Rightarrow> scan_entry list \<times> u64" where
  "search_loop elem_at accept 0 i found cnt = (found, cnt)"
| "search_loop elem_at accept (Suc n) i found cnt =
     (let v = elem_at i
      in if accept v
         then search_loop elem_at accept n (i + 1)
                (found @ [\<lparr>entry_value = v, snapshot_value = v, element_index = i\<rparr>]) (cnt + 1)
         else search_loop elem_at accept n (i + 1) found cnt)"

definition search_value ::
  "'w win32 \<Rightarrow> comparator_fn \<Rightarrow> u64 \<Rightarrow> u64 option \<Rightarrow> scan \<Rightarrow> 'w sys \<Rightarrow> u64 \<times> scan" where
  "search_value api cmp ref1_bits ref2_bits sc s =
     (case scan_region sc of
        None \<Rightarrow> (0, sc\<lparr>results := []\<rparr>)
      | Some r \<Rightarrow>
          let span = elements_by_size (elem_size sc) r;
              (found, cnt) = search_loop (\<lambda>i. load_value api (world s) (strided_at span i) (elem_size sc))
                (\<lambda>v. cmp v ref1_bits ref2_bits) (unat (strided_count span)) 0 [] 0
          in (cnt, sc\<lparr>results := found, scan_valid := (0 < cnt)\<rparr>))"

text \<open>
  \<open>memcpy(&e.value, p, n)\<close> replaces the low \<open>n\<close> bytes of the value. The element read has to lie in
  the span.
\<close>

definition overwrite_low :: "u64 \<Rightarrow> u64 \<Rightarrow> u64 \<Rightarrow> u64" where
  "overwrite_low n v x = (v AND NOT (mask (8 * unat n))) OR x"

fun update_loop :: "'w win32 \<Rightarrow> 'w \<Rightarrow> memory_region \<Rightarrow> u64 \<Rightarrow> scan_entry list \<Rightarrow> scan_entry list res" where
  "update_loop api w r es [] = Inr []"
| "update_loop api w r es (e # xs) =
     (let span = elements_by_size es r
      in if strided_count span \<le> element_index e then Inl Out_of_bounds
         else let v = load_value api w (strided_at span (element_index e)) es
              in case update_loop api w r es xs of
                   Inl err \<Rightarrow> Inl err
                 | Inr ys \<Rightarrow> Inr (e\<lparr>entry_value := overwrite_low es (entry_value e) v\<rparr> # ys))"

text \<open>The result of \<open>read_memory\<close> is not looked at.\<close>

definition update :: "'w win32 \<Rightarrow> scan \<Rightarrow> 'w sys \<Rightarrow> (scan \<times> 'w sys) res" where
  "update api sc s =
     (case scan_region sc of
        None \<Rightarrow> Inr (sc, s)
      | Some r \<Rightarrow>
          if results sc = [] then Inr (sc, s)
          else case read_memory api r s of
                 Inl e \<Rightarrow> Inl e
               | Inr (_, r1, s1) \<Rightarrow>
                   (case update_loop api (world s1) r1 (elem_size sc) (results sc) of
                      Inl e \<Rightarrow> Inl e
                    | Inr es \<Rightarrow> Inr (sc\<lparr>scan_region := Some r1, results := es\<rparr>, s1)))"

definition scan_destroy :: "'w win32 \<Rightarrow> scan \<Rightarrow> 'w sys \<Rightarrow> 'w sys" where
  "scan_destroy api sc s = (case scan_region sc of None \<Rightarrow> s | Some r \<Rightarrow> region_destroy api r s)"

subsection \<open>The search as a function of the bytes\<close>

text \<open>The little-endian value of the \<open>es\<close> bytes from an offset on.\<close>

definition value_at :: "nat \<Rightarrow> u8 list \<Rightarrow> nat \<Rightarrow> u64" where
  "value_at es bytes off = le_u64 (take es (drop off bytes))"

lemma value_at_bound: "es \<le> 8 \<Longrightarrow> unat (value_at es bytes off) < 2 ^ (8 * es)"
proof -
  assume "es \<le> 8"
  let ?b = "take es (drop off bytes)"
  have "le_nat ?b < 256 ^ length ?b" by (rule le_nat_bound)
  also have "(256 :: nat) ^ length ?b \<le> 256 ^ es" by (rule power_increasing) simp_all
  also have "(256 :: nat) ^ es = 2 ^ (8 * es)" by (simp add: power_mult)
  finally show ?thesis using \<open>es \<le> 8\<close> by (simp add: value_at_def unat_le_u64)
qed

text \<open>The specification: every element of a byte list whose value is accepted, in order.\<close>

definition element_value :: "nat \<Rightarrow> u8 list \<Rightarrow> nat \<Rightarrow> u64" where
  "element_value es bytes i = le_u64 (take es (drop (i * es) bytes))"

definition accepted :: "(u64 \<Rightarrow> bool) \<Rightarrow> nat \<Rightarrow> u8 list \<Rightarrow> scan_entry list" where
  "accepted accept es bytes =
     map (\<lambda>i. \<lparr>entry_value = element_value es bytes i, snapshot_value = element_value es bytes i,
               element_index = of_nat i\<rparr>)
       (filter (\<lambda>i. accept (element_value es bytes i)) [0..<length bytes div es])"

lemma search_loop_eq:
  "search_loop elem_at accept n (of_nat i) found cnt =
     (found @ map (\<lambda>j. \<lparr>entry_value = elem_at (of_nat j), snapshot_value = elem_at (of_nat j),
          element_index = of_nat j\<rparr>) (filter (\<lambda>j. accept (elem_at (of_nat j))) [i..<i + n]),
      cnt + of_nat (length (filter (\<lambda>j. accept (elem_at (of_nat j))) [i..<i + n])))"
proof (induction n arbitrary: i found cnt)
  case 0
  then show ?case by simp
next
  case (Suc n)
  have step: "(of_nat i :: u64) + 1 = of_nat (Suc i)" by simp
  have upt: "[i..<i + Suc n] = i # [Suc i..<Suc i + n]" by (simp add: upt_conv_Cons)
  show ?case
    unfolding search_loop.simps Let_def step Suc.IH upt by simp
qed

text \<open>An element of a strided span is the matching part of the raw bytes.\<close>

lemma load_element:
  assumes "raw_bytes r = (p, n)" and "0 < unat es" and "i < unat n div unat es"
  shows "load_value api w (strided_at (elements_by_size es r) (of_nat i)) es
    = element_value (unat es) (load_bytes api w p (unat n)) i"
proof -
  have "Suc i * unat es \<le> unat n"
    using assms(2,3) by (metis Suc_leI less_eq_div_iff_mult_less_eq)
  then have "i * unat es + unat es \<le> unat n" by (simp add: add.commute)
  moreover have "(of_nat i :: u64) * es = of_nat (i * unat es)" by simp
  ultimately show ?thesis
    by (simp add: load_value_def element_value_def elements_by_size_def new_strided_span_def strided_at_def
        assms(1) load_bytes_slice)
qed

lemma strided_count_elements: "raw_bytes r = (p, n) \<Longrightarrow> unat (strided_count (elements_by_size es r)) = unat n div unat es"
  by (simp add: elements_by_size_def new_strided_span_def unat_div)

lemma search_value_eq:
  assumes "scan_region sc = Some r" and "raw_bytes r = (p, n)" and "0 < unat (elem_size sc)"
  shows "search_value api cmp v1 v2 sc s =
    (let es = accepted (\<lambda>v. cmp v v1 v2) (unat (elem_size sc)) (load_bytes api (world s) p (unat n))
     in (of_nat (length es), sc\<lparr>results := es, scan_valid := (es \<noteq> [])\<rparr>))"
proof -
  define es where "es = accepted (\<lambda>v. cmp v v1 v2) (unat (elem_size sc)) (load_bytes api (world s) p (unat n))"
  define rd where "rd = (\<lambda>i. load_value api (world s) (strided_at (elements_by_size (elem_size sc) r) i) (elem_size sc))"
  define k where "k = unat n div unat (elem_size sc)"
  have rd: "rd (of_nat i) = element_value (unat (elem_size sc)) (load_bytes api (world s) p (unat n)) i" if "i < k" for i
    unfolding rd_def using that by (intro load_element [OF assms(2,3)]) (simp add: k_def)
  have f: "filter (\<lambda>j. cmp (rd (of_nat j)) v1 v2) [0..<k]
    = filter (\<lambda>i. cmp (element_value (unat (elem_size sc)) (load_bytes api (world s) p (unat n)) i) v1 v2) [0..<k]"
    using rd by (intro filter_cong) auto
  have loop: "search_loop rd (\<lambda>v. cmp v v1 v2) k 0 [] 0 = (es, of_nat (length es))"
    using search_loop_eq [of rd "\<lambda>v. cmp v v1 v2" k 0 "[]" 0] rd
    by (simp add: f) (auto simp: es_def accepted_def k_def)
  have "length es \<le> k" by (simp add: es_def accepted_def k_def) (metis diff_zero length_filter_le length_upt)
  also have "k \<le> unat n" by (simp add: k_def)
  also have "unat n < 2 ^ 64" by simp
  finally have "unat (of_nat (length es) :: u64) = length es" by (rule unat_of_nat_u64)
  then have "(0 < (of_nat (length es) :: u64)) = (es \<noteq> [])" by (simp add: word_less_nat_alt)
  then show ?thesis
    using loop by (simp add: search_value_def assms(1) rd_def strided_count_elements [OF assms(2)]
        k_def [symmetric] Let_def es_def [symmetric])
qed


lemma length_accepted: "length (accepted acc es bytes) \<le> length bytes div es"
  by (simp add: accepted_def) (metis diff_zero length_filter_le length_upt)

lemma accepted_indices_sorted:
  assumes "length bytes < 2 ^ 64"
  shows "sorted_wrt (<) (map (unat \<circ> element_index) (accepted acc es bytes))"
proof -
  let ?is = "filter (\<lambda>i. acc (element_value es bytes i)) [0..<length bytes div es]"
  have "unat (of_nat i :: u64) = i" if "i \<in> set ?is" for i
  proof (rule unat_of_nat_u64)
    from that have "i < length bytes div es" by simp
    also have "\<dots> \<le> length bytes" by simp
    finally show "i < 2 ^ 64" using assms by simp
  qed
  then have "map (unat \<circ> element_index) (accepted acc es bytes) = ?is"
    by (auto simp: accepted_def intro: map_idI)
  moreover have "sorted_wrt (<) ?is" by (rule sorted_wrt_filter) simp
  ultimately show ?thesis by simp
qed

lemma in_accepted:
  "e \<in> set (accepted acc es bytes) \<longleftrightarrow> (\<exists>i < length bytes div es. acc (element_value es bytes i)
     \<and> e = \<lparr>entry_value = element_value es bytes i, snapshot_value = element_value es bytes i, element_index = of_nat i\<rparr>)"
  by (auto simp: accepted_def)

lemma element_value_bound: "es \<le> 8 \<Longrightarrow> unat (element_value es bytes i) < 2 ^ (8 * es)"
  using value_at_bound by (simp add: element_value_def value_at_def)

lemma overwrite_low_small:
  assumes "unat v < 2 ^ (8 * unat es)"
  shows "overwrite_low es v x = x"
proof -
  have "take_bit (8 * unat es) v = v"
    using assms by (simp add: word_unat_eq_iff unsigned_take_bit_eq take_bit_nat_eq_self)
  then have "\<not> bit v i" if "8 * unat es \<le> i" for i
    using that by (metis bit_take_bit_iff not_le)
  then have "v AND NOT (mask (8 * unat es)) = 0"
    by (intro bit_word_eqI) (auto simp: bit_simps, metis not_le)
  then show ?thesis by (simp add: overwrite_low_def)
qed

subsection \<open>Updating\<close>

text \<open>What an entry has to satisfy for \<open>update\<close>: its element exists and its value has the element's width.\<close>

definition entries_ok :: "u64 \<Rightarrow> memory_region \<Rightarrow> scan_entry list \<Rightarrow> bool" where
  "entries_ok es r xs \<longleftrightarrow> (\<forall>e \<in> set xs. unat (element_index e) < unat (region_size r) div unat es
     \<and> unat (entry_value e) < 2 ^ (8 * unat es))"

lemma update_loop_eq:
  assumes "raw_bytes r = (p, region_size r)" and "0 < unat es" and "entries_ok es r xs"
  shows "update_loop api w r es xs = Inr (map (\<lambda>e. e\<lparr>entry_value :=
    element_value (unat es) (load_bytes api w p (unat (region_size r))) (unat (element_index e))\<rparr>) xs)"
  using assms(3)
proof (induction xs)
  case Nil
  then show ?case by simp
next
  case (Cons e xs)
  then have e: "unat (element_index e) < unat (region_size r) div unat es"
    "unat (entry_value e) < 2 ^ (8 * unat es)" and IH: "entries_ok es r xs"
    by (simp_all add: entries_ok_def)
  have "\<not> strided_count (elements_by_size es r) \<le> element_index e"
    using e(1) by (simp add: word_le_nat_alt strided_count_elements [OF assms(1)])
  moreover have "load_value api w (strided_at (elements_by_size es r) (element_index e)) es
      = element_value (unat es) (load_bytes api w p (unat (region_size r))) (unat (element_index e))"
    using load_element [OF assms(1,2) e(1)] by simp
  ultimately show ?case
    using Cons.IH [OF IH] overwrite_low_small [OF e(2)] by (simp add: Let_def)
qed

lemma read_again_spec:
  assumes "dump_inv api (s, refs)" and "rpm_docs api" and "region_ok r"
    and "region_range r = Some x" and "dump_live api (s, refs) x"
  shows "\<exists>success s' bs. read_memory api r s = Inr (success, r, s')
    \<and> fst (read_process_memory api (long_to_handle (process_handle r)) (region_base r) (region_size r) (world s))
        = (success, bs)
    \<and> dump_inv api (s', refs) \<and> dump_live api (s', refs) x \<and> length bs \<le> unat (region_size r)
    \<and> dump_content api (s', refs) x = overwrite bs (dump_content api (s, refs) x)"
proof -
  obtain success bs s1 s' where f: "fetch api r s = Inr (success, s')" "dump_env api (s, refs) (s1, refs)"
    "(s', refs) = dump_fill api x bs (s1, refs)" "length bs \<le> unat (region_size r)"
    "fst (read_process_memory api (long_to_handle (process_handle r)) (region_base r) (region_size r) (world s))
        = (success, bs)"
    using fetch_spec [OF assms] by blast
  note env = dump_env_laws [OF assms(1) f(2)]
  obtain i p n where x: "x = (i, p, n)" by (metis prod_cases3)
  note rr = region_range_ok [OF assms(3) assms(4) [unfolded x]]
  have lv: "dump_live api (s1, refs) x" and c: "dump_content api (s1, refs) x = dump_content api (s, refs) x"
    using env(2) [OF assms(5)] by blast+
  have "length bs \<le> length (dump_content api (s1, refs) x)"
    using f(4) by (simp add: dump_content_def x rr(4))
  note fl = dump_fill_laws [OF env(1) lv this, folded f(3)]
  have "read_memory api r s = Inr (success, r, s')"
    using f(1) rr(1) by (simp add: read_memory_def reserve_def)
  moreover have "dump_live api (s', refs) x" using fl(2) lv by simp
  ultimately show ?thesis using f(4,5) fl(1,4) c by metis
qed

lemma update_spec:
  assumes "dump_inv api (s, refs)" and "rpm_docs api" and "region_ok r"
    and "region_range r = Some x" and "dump_live api (s, refs) x"
    and "scan_region sc = Some r" and "0 < unat (elem_size sc)" and "entries_ok (elem_size sc) r (results sc)"
    and "results sc \<noteq> []"
  shows "\<exists>s' success bs. update api sc s = Inr (sc\<lparr>scan_region := Some r, results := map (\<lambda>e. e\<lparr>entry_value :=
        element_value (unat (elem_size sc)) (load_bytes api (world s') (fst (raw_bytes r)) (unat (region_size r)))
          (unat (element_index e))\<rparr>) (results sc)\<rparr>, s')
    \<and> fst (read_process_memory api (long_to_handle (process_handle r)) (region_base r) (region_size r) (world s))
        = (success, bs)
    \<and> load_bytes api (world s') (fst (raw_bytes r)) (unat (region_size r))
        = overwrite bs (load_bytes api (world s) (fst (raw_bytes r)) (unat (region_size r)))
    \<and> dump_inv api (s', refs)"
proof -
  obtain i p n where x: "x = (i, p, n)" by (metis prod_cases3)
  note rr = region_range_ok [OF assms(3) assms(4) [unfolded x]]
  from read_again_spec [OF assms(1-5)] obtain success s' bs where
    rd: "read_memory api r s = Inr (success, r, s')"
    "fst (read_process_memory api (long_to_handle (process_handle r)) (region_base r) (region_size r) (world s))
        = (success, bs)"
    "dump_inv api (s', refs)" "dump_content api (s', refs) x = overwrite bs (dump_content api (s, refs) x)"
    by blast
  from rd(4) have "load_bytes api (world s') p (unat (region_size r))
      = overwrite bs (load_bytes api (world s) p (unat (region_size r)))"
    by (simp add: dump_content_def x rr(4))
  moreover have "update api sc s = Inr (sc\<lparr>scan_region := Some r, results := map (\<lambda>e. e\<lparr>entry_value :=
        element_value (unat (elem_size sc)) (load_bytes api (world s') p (unat (region_size r)))
          (unat (element_index e))\<rparr>) (results sc)\<rparr>, s')"
    using update_loop_eq [OF rr(5) assms(7,8), of api "world s'"] assms(6,9) rd(1) by (simp add: update_def)
  ultimately show ?thesis using rd(2,3) by (auto simp: rr(5))
qed

subsection \<open>Properties\<close>

text \<open>
  C16: \<open>search_value\<close> finds all and only the matching elements. For a region whose copy is the
  \<open>n\<close> bytes at \<open>p\<close>, the entries are exactly the elements, at multiples of the element size, that
  the comparator accepts, with their little-endian value and their index, each once and in
  ascending order; the returned count is their number, and the scan is valid when there is one.
\<close>

theorem search_value_exact:
  assumes "scan_region sc = Some r" and "raw_bytes r = (p, n)" and "0 < unat (elem_size sc)"
    and "search_value api cmp v1 v2 sc s = (k, sc')"
  shows "(\<forall>e. e \<in> set (results sc') \<longleftrightarrow> (\<exists>i < unat n div unat (elem_size sc).
        let v = le_u64 (load_bytes api (world s) (p + of_nat (i * unat (elem_size sc))) (unat (elem_size sc)))
        in cmp v v1 v2 \<and> e = \<lparr>entry_value = v, snapshot_value = v, element_index = of_nat i\<rparr>))
    \<and> sorted_wrt (<) (map (unat \<circ> element_index) (results sc'))
    \<and> k = of_nat (length (results sc')) \<and> scan_valid sc' = (results sc' \<noteq> [])
    \<and> scan_region sc' = scan_region sc \<and> scan_mode sc' = scan_mode sc \<and> elem_size sc' = elem_size sc"
proof -
  let ?es = "unat (elem_size sc)" and ?b = "load_bytes api (world s) p (unat n)"
  have eq: "k = of_nat (length (accepted (\<lambda>v. cmp v v1 v2) ?es ?b))"
    "sc' = sc\<lparr>results := accepted (\<lambda>v. cmp v v1 v2) ?es ?b, scan_valid := (accepted (\<lambda>v. cmp v v1 v2) ?es ?b \<noteq> [])\<rparr>"
    using assms(4) by (simp_all add: search_value_eq [OF assms(1-3)] Let_def)
  have el: "element_value ?es ?b i = le_u64 (load_bytes api (world s) (p + of_nat (i * ?es)) ?es)"
    if "i < unat n div ?es" for i
  proof -
    have "Suc i * ?es \<le> unat n" using that assms(3) by (metis Suc_leI less_eq_div_iff_mult_less_eq)
    then have "i * ?es + ?es \<le> unat n" by (simp add: add.commute)
    then show ?thesis by (simp add: element_value_def load_bytes_slice)
  qed
  have "length ?b < 2 ^ 64" by simp
  from accepted_indices_sorted [OF this] show ?thesis
    unfolding eq using el by (auto simp: in_accepted Let_def)
qed

text \<open>Eight bytes at \<open>0x10000\<close>, outside every view of the sample platform, where zeros are read.\<close>

definition sample_scan :: scan where
  "sample_scan = \<lparr>scan_region = Some (sample_region\<lparr>region_buf := new_dumpable\<lparr>spans := [(0x10000, 8)]\<rparr>\<rparr>),
     scan_mode = exact_value, elem_size = 4, scan_valid = False, results = []\<rparr>"

theorem search_value_exact_witness:
  "\<lparr>entry_value = 0, snapshot_value = 0, element_index = 1\<rparr>
     \<in> set (results (snd (search_value sample_api (make_comparator exact_value U32) 0 None sample_scan
          (sample_sys [] (\<lambda>_. 0)))))"
proof -
  define s where "s = sample_sys [] (\<lambda>_. 0)"
  have raw: "raw_bytes (sample_region\<lparr>region_buf := new_dumpable\<lparr>spans := [(0x10000, 8)]\<rparr>\<rparr>) = (0x10000, 8)"
    by (simp add: raw_bytes_def)
  have sc: "scan_region sample_scan = Some (sample_region\<lparr>region_buf := new_dumpable\<lparr>spans := [(0x10000, 8)]\<rparr>\<rparr>)"
    "elem_size sample_scan = 4" by (simp_all add: sample_scan_def)
  obtain k sc' where run: "search_value sample_api (make_comparator exact_value U32) 0 None sample_scan s = (k, sc')"
    by force
  have no_views: "views (world s) = []"
    by (simp add: s_def sample_sys_def m_file_new_def sample_api_fields sample_world_def invalid_handle_value_def Let_def)
  have v: "le_u64 (load_bytes sample_api (world s) (0x10000 + of_nat (1 * unat (elem_size sample_scan))) (unat (elem_size sample_scan))) = 0"
    using no_views by (simp add: load_bytes_def sample_api_fields sample_load_def sc upt_rec)
  have "\<exists>i < unat (8 :: u64) div unat (elem_size sample_scan).
      let v = le_u64 (load_bytes sample_api (world s) (0x10000 + of_nat (i * unat (elem_size sample_scan))) (unat (elem_size sample_scan)))
      in make_comparator exact_value U32 v 0 None
        \<and> \<lparr>entry_value = 0, snapshot_value = 0, element_index = 1\<rparr>
          = \<lparr>entry_value = v, snapshot_value = v, element_index = of_nat i\<rparr>"
    using v by (intro exI [of _ 1]) (simp add: sc Let_def compare_defs)
  with search_value_exact [OF sc(1) raw _ run] show ?thesis
    by (simp add: run [unfolded s_def] s_def sc)
qed

text \<open>
  C21: \<open>update\<close> refreshes the values and nothing else. On a scan whose entries lie in its region it
  commits no fault, reads the region again into the space it already has, and sets the value of
  each entry to its element in the new copy; indices and snapshot values stay.
\<close>

theorem update_refreshes:
  assumes "dump_inv api (s, refs)" and "rpm_docs api" and "region_ok r"
    and "region_range r = Some x" and "dump_live api (s, refs) x"
    and "scan_region sc = Some r" and "0 < unat (elem_size sc)" and "entries_ok (elem_size sc) r (results sc)"
    and "results sc \<noteq> []"
  shows "\<exists>sc' s' success bs. update api sc s = Inr (sc', s')
    \<and> fst (read_process_memory api (long_to_handle (process_handle r)) (region_base r) (region_size r) (world s))
        = (success, bs)
    \<and> load_bytes api (world s') (fst (raw_bytes r)) (unat (region_size r))
        = bs @ drop (length bs) (load_bytes api (world s) (fst (raw_bytes r)) (unat (region_size r)))
    \<and> map element_index (results sc') = map element_index (results sc)
    \<and> map snapshot_value (results sc') = map snapshot_value (results sc)
    \<and> (\<forall>e \<in> set (results sc'). entry_value e = le_u64 (load_bytes api (world s')
          (fst (raw_bytes r) + element_index e * elem_size sc) (unat (elem_size sc))))"
proof -
  let ?es = "unat (elem_size sc)"
  from update_spec [OF assms] obtain s' success bs where
    u: "update api sc s = Inr (sc\<lparr>scan_region := Some r, results := map (\<lambda>e. e\<lparr>entry_value :=
        element_value ?es (load_bytes api (world s') (fst (raw_bytes r)) (unat (region_size r)))
          (unat (element_index e))\<rparr>) (results sc)\<rparr>, s')"
    and rest: "fst (read_process_memory api (long_to_handle (process_handle r)) (region_base r) (region_size r) (world s))
        = (success, bs)"
    "load_bytes api (world s') (fst (raw_bytes r)) (unat (region_size r))
        = overwrite bs (load_bytes api (world s) (fst (raw_bytes r)) (unat (region_size r)))"
    by blast
  have el: "element_value ?es (load_bytes api (world s') (fst (raw_bytes r)) (unat (region_size r))) (unat (element_index e))
      = le_u64 (load_bytes api (world s') (fst (raw_bytes r) + element_index e * elem_size sc) ?es)"
    if "e \<in> set (results sc)" for e
  proof -
    have "unat (element_index e) < unat (region_size r) div ?es" using assms(8) that by (simp add: entries_ok_def)
    then have "Suc (unat (element_index e)) * ?es \<le> unat (region_size r)"
      using assms(7) by (metis Suc_leI less_eq_div_iff_mult_less_eq)
    then have "unat (element_index e) * ?es + ?es \<le> unat (region_size r)" by (simp add: add.commute)
    then show ?thesis by (simp add: element_value_def load_bytes_slice)
  qed
  define sc' where "sc' = sc\<lparr>scan_region := Some r, results := map (\<lambda>e. e\<lparr>entry_value :=
        element_value ?es (load_bytes api (world s') (fst (raw_bytes r)) (unat (region_size r)))
          (unat (element_index e))\<rparr>) (results sc)\<rparr>"
  have "map element_index (results sc') = map element_index (results sc)"
    "map snapshot_value (results sc') = map snapshot_value (results sc)"
    by (simp_all add: sc'_def)
  moreover have "\<forall>e \<in> set (results sc'). entry_value e = le_u64 (load_bytes api (world s')
          (fst (raw_bytes r) + element_index e * elem_size sc) ?es)"
    using el by (simp add: sc'_def)
  ultimately show ?thesis
    using u [folded sc'_def] rest unfolding overwrite_def by blast
qed

theorem update_refreshes_witness:
  "\<exists>sc s sc' s'. update sample_api sc s = Inr (sc', s') \<and> map element_index (results sc') = [3]
     \<and> map snapshot_value (results sc') = [5]"
proof -
  have "dump_room (sample_sys [sample_mbi] ucast, no_refs) (unat (region_size sample_region))"
    by (simp add: sample_dump_room)
  from read_memory_spec [OF sample_dump_inv sample_rpm_docs this sample_region_simps(1,2)] sample_read
  obtain r s x refs where r: "region_ok r" "region_mbi r = region_mbi sample_region" "region_range r = Some x"
    "dump_inv sample_api (s, refs)" "dump_live sample_api (s, refs) x"
    by (auto split: sum.splits)
  have sz: "region_size r = 8" using r(2) sample_region_simps(3) by (simp add: region_size_def)
  define sc where "sc = \<lparr>scan_region = Some r, scan_mode = exact_value, elem_size = 2, scan_valid = True,
    results = [\<lparr>entry_value = 1, snapshot_value = 5, element_index = 3\<rparr>]\<rparr>"
  have sc: "scan_region sc = Some r" "0 < unat (elem_size sc)" "entries_ok (elem_size sc) r (results sc)"
    "results sc \<noteq> []" by (simp_all add: sc_def entries_ok_def sz)
  have "map element_index (results sc) = [3]" "map snapshot_value (results sc) = [5]" by (simp_all add: sc_def)
  with update_refreshes [OF r(4) sample_rpm_docs r(1,3,5) sc] show ?thesis by metis
qed

text \<open>
  The constructor of \<open>scan\<close> rejects exactly the sizes that are no element size, so none of
  the scans that the scanner makes throws.
\<close>

lemma scan_sizes_are_element_sizes:
  "new_scan region type es = Inl Invalid_argument \<longleftrightarrow> es \<notin> range element_size"
proof -
  have "range element_size = set (map element_size enum_class.enum)" by (simp add: UNIV_enum)
  also have "\<dots> = {1, 2, 4, 8}" by (auto simp: enum_element_type_def)
  finally show ?thesis by (simp add: new_scan_def)
qed

end
