(* ===== verification/Scan_Set.thy ===== *)
theory Scan_Set
  imports Scan_Object
begin

text \<open>
  The scans that a client of the scanner holds, as a whole: each has a copy of its region in the
  dump file, the copies lie apart, and the pointers to the maps are exactly those of the scans.
  This is the invariant of the scanner between its operations; reading a further region and
  destroying a scan preserve it and leave the other copies alone.
\<close>

definition range_uses :: "range option \<Rightarrow> nat \<Rightarrow> nat" where
  "range_uses x i = (case x of None \<Rightarrow> 0 | Some (j, _) \<Rightarrow> if j = i then 1 else 0)"

definition scan_range :: "scan \<Rightarrow> range option" where
  "scan_range sc = Option.bind (scan_region sc) region_range"

definition scan_ranges :: "scan list \<Rightarrow> nat \<Rightarrow> range option" where
  "scan_ranges scs k = (if k < length scs then scan_range (scs ! k) else None)"

definition scan_uses :: "scan list \<Rightarrow> nat \<Rightarrow> nat" where
  "scan_uses scs i = (\<Sum>sc\<leftarrow>scs. range_uses (scan_range sc) i)"

definition scan_base :: "scan \<Rightarrow> u64" where
  "scan_base sc = (case scan_region sc of Some r \<Rightarrow> region_base r | None \<Rightarrow> 0)"

definition copied :: "scan \<Rightarrow> bool" where
  "copied sc \<longleftrightarrow> (\<exists>r. scan_region sc = Some r \<and> region_ok r \<and> mem_reserved r)"

definition scans_ok :: "'w win32 \<Rightarrow> 'w sys \<Rightarrow> scan list \<Rightarrow> bool" where
  "scans_ok api s scs \<longleftrightarrow> dump.holds api (s, scan_uses scs) (scan_ranges scs) \<and> (\<forall>sc \<in> set scs. copied sc)"

text \<open>
  A scan in the user address space whose entries denote elements of its region, with values of
  the element's width.
\<close>

definition placed :: "scan \<Rightarrow> bool" where
  "placed sc \<longleftrightarrow> (\<exists>r. scan_region sc = Some r \<and> region_end r \<le> 2 ^ 48
     \<and> 0 < unat (elem_size sc) \<and> unat (elem_size sc) \<le> 8 \<and> entries_ok (elem_size sc) r (results sc))"

lemma placed_index:
  assumes "placed sc" and "scan_region sc = Some r" and "e \<in> set (results sc)"
  shows "unat (element_index e) < unat (region_size r)"
proof -
  have "unat (element_index e) < unat (region_size r) div unat (elem_size sc)"
    using assms by (auto simp: placed_def entries_ok_def)
  also have "\<dots> \<le> unat (region_size r)" by simp
  finally show ?thesis .
qed

text \<open>The bytes that the copy of a scan holds.\<close>

definition scan_snapshot :: "'w win32 \<Rightarrow> 'w sys \<Rightarrow> scan \<Rightarrow> u8 list" where
  "scan_snapshot api s sc = (case scan_region sc of None \<Rightarrow> []
     | Some r \<Rightarrow> load_bytes api (world s) (fst (raw_bytes r)) (unat (snd (raw_bytes r))))"

definition snapshots_kept :: "'w win32 \<Rightarrow> 'w sys \<Rightarrow> 'w sys \<Rightarrow> scan list \<Rightarrow> bool" where
  "snapshots_kept api s s' scs \<longleftrightarrow> (\<forall>sc \<in> set scs. scan_snapshot api s' sc = scan_snapshot api s sc)"

lemma snapshots_kept_refl [simp]: "snapshots_kept api s s scs"
  by (simp add: snapshots_kept_def)

lemma snapshots_kept_trans:
  "snapshots_kept api s s1 scs \<Longrightarrow> snapshots_kept api s1 s2 scs \<Longrightarrow> snapshots_kept api s s2 scs"
  by (simp add: snapshots_kept_def)

lemma snapshots_kept_append [simp]:
  "snapshots_kept api s s' (xs @ ys) \<longleftrightarrow> snapshots_kept api s s' xs \<and> snapshots_kept api s s' ys"
  by (auto simp: snapshots_kept_def)

lemma snapshots_kept_Cons [simp]:
  "snapshots_kept api s s' (x # xs) \<longleftrightarrow> scan_snapshot api s' x = scan_snapshot api s x \<and> snapshots_kept api s s' xs"
  by (auto simp: snapshots_kept_def)

lemma snapshots_kept_Nil [simp]: "snapshots_kept api s s' []"
  by (simp add: snapshots_kept_def)

lemma scan_uses_append [simp]: "scan_uses (xs @ ys) i = scan_uses xs i + scan_uses ys i"
  by (simp add: scan_uses_def)

lemma scan_uses_Cons [simp]: "scan_uses (x # xs) i = range_uses (scan_range x) i + scan_uses xs i"
  by (simp add: scan_uses_def)

lemma scan_uses_Nil [simp]: "scan_uses [] = no_refs"
  by (simp add: scan_uses_def no_refs_def fun_eq_iff)

lemma copied_range:
  assumes "copied sc"
  shows "\<exists>r i p. scan_region sc = Some r \<and> region_ok r \<and> raw_bytes r = (p, region_size r)
    \<and> scan_range sc = Some (i, p, unat (region_size r))"
proof -
  obtain r where r: "scan_region sc = Some r" "region_ok r" "mem_reserved r" using assms by (auto simp: copied_def)
  then obtain i p n where x: "region_range r = Some (i, p, n)" by (auto simp: region_range_def)
  from r x region_range_ok [OF r(2) x] show ?thesis by (auto simp: scan_range_def)
qed

lemma scans_ok_inv: "scans_ok api s scs \<Longrightarrow> dump_inv api (s, scan_uses scs)"
  by (simp add: scans_ok_def dump.holds_def)

lemma scans_ok_Nil [simp]: "scans_ok api s [] \<longleftrightarrow> dump_inv api (s, no_refs)"
  by (simp add: scans_ok_def dump.holds_def scan_ranges_def)

text \<open>The copy of a scan is what its range contains.\<close>

lemma scan_snapshot_content:
  assumes "k < length scs" and "copied (scs ! k)"
  shows "dump.contents api (s, refs) (scan_ranges scs) k = Some (scan_snapshot api s (scs ! k))"
proof -
  from copied_range [OF assms(2)] obtain r i p where "scan_region (scs ! k) = Some r"
    "raw_bytes r = (p, region_size r)" "scan_range (scs ! k) = Some (i, p, unat (region_size r))" by blast
  with assms(1) show ?thesis
    by (simp add: dump.contents_def dump_content_def scan_ranges_def scan_snapshot_def)
qed

text \<open>The order of the scans does not matter.\<close>

lemma scans_ok_rekey:
  assumes "scans_ok api s xs" and "inj_on f {..<length ys}"
    and "\<And>k. k < length ys \<Longrightarrow> f k < length xs \<and> xs ! f k = ys ! k" and "scan_uses ys = scan_uses xs"
  shows "scans_ok api s ys"
proof -
  have "dump.holds api (s, scan_uses xs) (scan_ranges ys)"
  proof (rule dump.holds_rekey)
    show "dump.holds api (s, scan_uses xs) (scan_ranges xs)" using assms(1) by (simp add: scans_ok_def)
    have "{k. scan_ranges ys k \<noteq> None} \<subseteq> {..<length ys}" by (auto simp: scan_ranges_def split: if_splits)
    with assms(2) show "inj_on f {k. scan_ranges ys k \<noteq> None}" by (rule inj_on_subset)
    show "scan_ranges xs (f k) = Some r" if "scan_ranges ys k = Some r" for k r
      using that assms(3) [of k] by (auto simp: scan_ranges_def split: if_splits)
  qed
  moreover have "copied sc" if sc: "sc \<in> set ys" for sc
  proof -
    from sc obtain k where "k < length ys" "sc = ys ! k" by (metis in_set_conv_nth)
    then have "sc \<in> set xs" using assms(3) [of k] by (metis nth_mem)
    with assms(1) show ?thesis by (simp add: scans_ok_def)
  qed
  ultimately show ?thesis by (simp add: scans_ok_def assms(4))
qed

lemma scans_ok_swap:
  assumes "scans_ok api s (xs @ ys)"
  shows "scans_ok api s (ys @ xs)"
proof (rule scans_ok_rekey [OF assms, where f = "\<lambda>k. if k < length ys then k + length xs else k - length ys"])
  show "inj_on (\<lambda>k. if k < length ys then k + length xs else k - length ys) {..<length (ys @ xs)}"
    by (auto simp: inj_on_def)
qed (auto simp: nth_append fun_eq_iff)

lemma range_uses_pos: "range_uses (Some (i, p, n)) j = (if j = i then 1 else 0)"
  by (simp add: range_uses_def)

lemma scan_uses_nth:
  "k < length scs \<Longrightarrow> range_uses (scan_range (scs ! k)) i \<le> scan_uses scs i"
  unfolding scan_uses_def by (rule member_le_sum_list) auto

subsection \<open>Destroying a scan\<close>

lemma scan_destroy_free:
  assumes "scan_region sc = Some r" and "region_ok r" and "region_range r = Some x"
  shows "(scan_destroy api sc s, snd (dump_free api x (s, refs))) = dump_free api x (s, refs)"
proof -
  obtain i p n where x: "x = (i, p, n)" by (metis prod_cases3)
  from region_range_ok(3) [OF assms(2) assms(3) [unfolded x]] assms(1) show ?thesis
    by (simp add: scan_destroy_def region_destroy_def dumpable_destroy_def dump_free_def x)
qed

lemma release_foffset [simp]: "dump_file (release api i s) = dump_file s"
  by (simp add: release_def Let_def split: prod.splits)

lemma release_all_foffset [simp]: "dump_file (release_all api is s) = dump_file s"
  by (induction "is" arbitrary: s) simp_all

lemma scan_destroy_foffset [simp]: "dump_file (scan_destroy api sc s) = dump_file s"
  by (simp add: scan_destroy_def region_destroy_def dumpable_destroy_def split: option.splits)

lemma scans_ok_destroy:
  assumes "scans_ok api s (xs @ sc # ys)"
  shows "scans_ok api (scan_destroy api sc s) (xs @ ys)"
    and "snapshots_kept api s (scan_destroy api sc s) (xs @ ys)"
proof -
  let ?scs = "xs @ sc # ys" and ?n = "length xs"
  let ?h = "scan_ranges ?scs" and ?refs = "scan_uses ?scs"
  let ?f = "\<lambda>k. if k < ?n then k else Suc k"
  have h: "dump.holds api (s, ?refs) ?h" and cp: "\<forall>c \<in> set ?scs. copied c" using assms by (simp_all add: scans_ok_def)
  from cp copied_range [of sc] obtain r i p where r: "scan_region sc = Some r" "region_ok r"
    "scan_range sc = Some (i, p, unat (region_size r))" by auto
  define x where "x = (i, p, unat (region_size r))"
  have hn: "?h ?n = Some x" by (simp add: scan_ranges_def r(3) x_def)
  have "region_range r = Some x" using r(1,3) by (simp add: scan_range_def x_def)
  from scan_destroy_free [OF r(1,2) this, of api s ?refs]
  have "fst (dump_free api x (s, ?refs)) = scan_destroy api sc s" by (metis fst_conv)
  moreover have "snd (dump_free api x (s, ?refs)) = scan_uses (xs @ ys)"
    by (auto simp: dump_free_def x_def fun_eq_iff r(3) range_uses_pos)
  ultimately have eq: "dump_free api x (s, ?refs) = (scan_destroy api sc s, scan_uses (xs @ ys))"
    by (metis prod.collapse)
  have sv: "dump_survives (s, ?refs) x q" if lk: "l \<noteq> ?n" "?h l = Some q" for l q
  proof (cases "fst q = i")
    case True
    obtain j p' n' where q: "q = (j, p', n')" by (metis prod_cases3)
    have "1 \<le> scan_uses (xs @ ys) i"
    proof (cases "l < ?n")
      case True
      with lk have "scan_range (xs ! l) = Some q" by (simp add: scan_ranges_def nth_append)
      with scan_uses_nth [OF True, of i] \<open>fst q = i\<close> show ?thesis by (simp add: q range_uses_pos)
    next
      case False
      with lk have l: "l - Suc ?n < length ys" "scan_range (ys ! (l - Suc ?n)) = Some q"
        by (auto simp: scan_ranges_def nth_append nth_Cons' split: if_splits)
      with scan_uses_nth [OF l(1), of i] \<open>fst q = i\<close> show ?thesis by (simp add: q range_uses_pos)
    qed
    then have "2 \<le> ?refs i" by (simp add: r(3) range_uses_pos)
    then show ?thesis by (simp add: dump_survives_def x_def)
  next
    case False
    then show ?thesis by (simp add: dump_survives_def x_def)
  qed
  have "dump.holds api (dump_free api x (s, ?refs)) (?h(?n := None))"
    "dump.contents api (dump_free api x (s, ?refs)) (?h(?n := None)) = (dump.contents api (s, ?refs) ?h)(?n := None)"
    by (rule counted_dump.holds_free [OF h hn], erule sv, assumption)+
  note hf = this [unfolded eq]
  have nth: "?f k < length ?scs \<and> ?scs ! ?f k = (xs @ ys) ! k" if "k < length (xs @ ys)" for k
    using that by (auto simp: nth_append nth_Cons')
  have "dump.holds api (scan_destroy api sc s, scan_uses (xs @ ys)) (scan_ranges (xs @ ys))"
  proof (rule dump.holds_rekey [OF hf(1), where f = ?f])
    show "inj_on ?f {k. scan_ranges (xs @ ys) k \<noteq> None}" by (auto simp: inj_on_def)
    show "(?h(?n := None)) (?f k) = Some q" if "scan_ranges (xs @ ys) k = Some q" for k q
      using that nth [of k] by (auto simp: scan_ranges_def split: if_splits)
  qed
  with cp show "scans_ok api (scan_destroy api sc s) (xs @ ys)" by (simp add: scans_ok_def)
  have "scan_snapshot api (scan_destroy api sc s) c = scan_snapshot api s c" if c: "c \<in> set (xs @ ys)" for c
  proof -
    from c obtain k where k: "k < length (xs @ ys)" "c = (xs @ ys) ! k" by (metis in_set_conv_nth)
    note n = nth [OF k(1)]
    have "copied (?scs ! ?f k)" using cp n by (metis nth_mem)
    then have "dump.contents api (s, ?refs) ?h (?f k) = Some (scan_snapshot api s c)"
      "dump.contents api (scan_destroy api sc s, scan_uses (xs @ ys)) ?h (?f k)
        = Some (scan_snapshot api (scan_destroy api sc s) c)"
      using scan_snapshot_content n k(2) by metis+
    moreover have "?f k \<noteq> ?n" by simp
    ultimately show ?thesis using fun_cong [OF hf(2), of "?f k"] by (auto simp: dump.contents_def)
  qed
  then show "snapshots_kept api s (scan_destroy api sc s) (xs @ ys)" by (simp add: snapshots_kept_def)
qed

subsection \<open>Reading a further region\<close>

definition delivered :: "'w win32 \<Rightarrow> memory_region \<Rightarrow> bool \<Rightarrow> u8 list \<Rightarrow> bool" where
  "delivered api r success bs \<longleftrightarrow> (\<exists>w. fst (read_process_memory api (long_to_handle (process_handle r))
      (region_base r) (region_size r) w) = (success, bs))"

lemma dump_alloc_foffset:
  assumes "dump_inv api (s, refs)" and "dump_room (s, refs) n" and "dump_alloc api n (s, refs) = Some (x, s', refs')"
  shows "unat (foffset (dump_file s')) = unat (foffset (dump_file s)) + n"
proof -
  obtain i p m where x: "x = (i, p, m)" by (metis prod_cases3)
  from dump_alloc_wrote(1) [OF assms [unfolded x]] show ?thesis by (simp add: wrote_def)
qed

lemma scan_ranges_snoc:
  "scan_range sc = Some x \<Longrightarrow> scan_ranges (scs @ [sc]) = (scan_ranges scs)(length scs \<mapsto> x)"
  by (auto simp: scan_ranges_def fun_eq_iff nth_append)

text \<open>
  The first read of a region, when its reservation succeeds, adds its copy to the set; the copies
  of the others stay as they are. When the read itself succeeds the copy is what was delivered.
\<close>

lemma scans_ok_read:
  assumes ok: "scans_ok api s scs" and rpm: "rpm_docs api" and r: "region_ok r" "\<not> mem_reserved r" "region_size r \<noteq> 0"
    and room: "unat (foffset (dump_file s)) + unat (region_size r) \<le> 2 ^ 60"
  shows "\<exists>success r1 s1. read_memory api r s = Inr (success, r1, s1) \<and> region_mbi r1 = region_mbi r
    \<and> process_handle r1 = process_handle r \<and> region_ok r1
    \<and> (mem_reserved r1 \<longrightarrow> (\<forall>sc. scan_region sc = Some r1 \<longrightarrow>
          scans_ok api s1 (scs @ [sc]) \<and> snapshots_kept api s s1 scs
          \<and> unat (foffset (dump_file s1)) = unat (foffset (dump_file s)) + unat (region_size r)
          \<and> (if success then delivered api r True (scan_snapshot api s1 sc) else (\<exists>part. delivered api r False part))))"
proof -
  let ?refs = "scan_uses scs" and ?h = "scan_ranges scs" and ?k = "length scs"
  have h: "dump.holds api (s, ?refs) ?h" and cp: "\<forall>c \<in> set scs. copied c" using ok by (simp_all add: scans_ok_def)
  have di: "dump_inv api (s, ?refs)" using ok by (rule scans_ok_inv)
  have dr: "dump_room (s, ?refs) (unat (region_size r))" using r(3) room by (simp add: dump_room_def unat_gt_0)
  obtain res r1 s1 where rs: "reserve api r s = Inr (res, r1, s1)" "region_ok r1" "region_mbi r1 = region_mbi r"
    "process_handle r1 = process_handle r" "mem_reserved r1 = res"
    and al: "res \<Longrightarrow> \<exists>x refs'. region_range r1 = Some x
         \<and> dump_alloc api (unat (region_size r)) (s, ?refs) = Some (x, s1, refs')"
    using reserve_spec [OF di dr r(1,2)] by blast
  show ?thesis
  proof (cases res)
    case False
    then have "read_memory api r s = Inr (False, r1, s1)" using rs(1) by (simp add: read_memory_def)
    then show ?thesis using rs False by blast
  next
    case True
    with al obtain x refs1 where x: "region_range r1 = Some x"
      "dump_alloc api (unat (region_size r)) (s, ?refs) = Some (x, s1, refs1)" by blast
    obtain i p n where xx: "x = (i, p, n)" by (metis prod_cases3)
    note rr = region_range_ok [OF rs(2) x(1) [unfolded xx]]
    have same: "region_size r1 = region_size r" "region_base r1 = region_base r"
      using rs(3) by (simp_all add: region_size_def region_base_def)
    have refs1: "refs1 = ?refs(i := Suc (?refs i))" using dump_alloc_wrote(3) [OF di dr x(2) [unfolded xx]] .
    have "?h ?k = None" by (simp add: scan_ranges_def)
    note ha = dump.holds_alloc [OF h dr x(2) this]
    let ?h1 = "?h(?k \<mapsto> x)"
    have hk: "?h1 ?k = Some x" by simp
    have i1: "dump_inv api (s1, refs1)" using ha(1) by (simp add: dump.holds_def)
    have l1: "dump_live api (s1, refs1) x" using ha(1) hk unfolding dump.holds_def by blast
    obtain success bs s2 s' where f: "fetch api r1 s1 = Inr (success, s')" "dump_env api (s1, refs1) (s2, refs1)"
      "(s', refs1) = dump_fill api x bs (s2, refs1)" "length bs \<le> unat (region_size r)"
      "success \<longrightarrow> length bs = unat (region_size r)"
      "fst (read_process_memory api (long_to_handle (process_handle r)) (region_base r) (region_size r) (world s1))
        = (success, bs)"
      using fetch_spec [OF i1 rpm rs(2) x(1) l1] unfolding same rs(4) by blast
    have lc: "length (dump_content api (s1, refs1) x) = unat (region_size r)"
      using rr(4) same by (simp add: dump_content_def xx)
    then have len: "length bs \<le> length (dump_content api (s1, refs1) x)" using f(4) by simp
    note hf = shared_dump.holds_env_fill [OF ha(1) f(2) hk len, folded f(3)]
    have df: "dump_file s' = dump_file s1" using f(2,3) by (simp add: dump_fill_def xx dump_env_def)
    have run: "read_memory api r s = Inr (success, r1, s')" using rs(1) True f(1) by (simp add: read_memory_def)
    have each: "scans_ok api s' (scs @ [sc]) \<and> snapshots_kept api s s' scs
        \<and> (if success then delivered api r True (scan_snapshot api s' sc) else (\<exists>part. delivered api r False part))"
      if sc: "scan_region sc = Some r1" for sc
    proof (intro conjI)
      have sr: "scan_range sc = Some x" using sc x(1) by (simp add: scan_range_def)
      note hs = scan_ranges_snoc [OF sr, of scs]
      have uses: "scan_uses (scs @ [sc]) = refs1" by (auto simp: refs1 fun_eq_iff sr xx range_uses_pos no_refs_def)
      have "copied sc" using sc rs(2,5) True by (simp add: copied_def)
      then have "\<forall>c \<in> set (scs @ [sc]). copied c" using cp by simp
      with hf(1) show "scans_ok api s' (scs @ [sc])" unfolding scans_ok_def hs uses by blast
      have "scan_snapshot api s' c = scan_snapshot api s c" if c: "c \<in> set scs" for c
      proof -
        from c obtain k where k: "k < length scs" "c = scs ! k" by (metis in_set_conv_nth)
        then have "copied (scs ! k)" using cp by simp
        note sn = scan_snapshot_content [OF k(1) this]
        have "dump.contents api (s', refs1) ?h1 k = dump.contents api (s, ?refs) ?h k"
          using k(1) unfolding hf(2) ha(2) by simp
        moreover have "dump.contents api (s', refs1) ?h1 k = dump.contents api (s', refs1) ?h k"
          using k(1) by (simp add: dump.contents_def)
        ultimately show ?thesis using sn [of api s' refs1] sn [of api s ?refs] k(2) by simp
      qed
      then show "snapshots_kept api s s' scs" by (simp add: snapshots_kept_def)
      have dl: "delivered api r success bs" using f(6) by (auto simp: delivered_def)
      have "dump.contents api (s', refs1) ?h1 ?k = Some (overwrite bs (dump_content api (s1, refs1) x))"
        unfolding hf(2) by simp
      then have "scan_snapshot api s' sc = overwrite bs (dump_content api (s1, refs1) x)"
        using sc rr(4,5) by (simp add: dump.contents_def dump_content_def xx scan_snapshot_def)
      with dl f(5) lc show "if success then delivered api r True (scan_snapshot api s' sc)
          else (\<exists>part. delivered api r False part)"
        by (auto simp: overwrite_def)
    qed
    have fo: "unat (foffset (dump_file s')) = unat (foffset (dump_file s)) + unat (region_size r)"
      using dump_alloc_foffset [OF di dr x(2)] df by simp
    from each fo rs(2-4) show ?thesis by (intro exI [of _ success] exI [of _ r1] exI [of _ s'] conjI run) blast+
  qed
qed

subsection \<open>Refreshing a scan\<close>

text \<open>
  \<open>update\<close> on one of the scans reads into the part of the dump file that the scan already has: it
  returns, the scan keeps its region and stays placed, and the copies of the others keep their bytes.
\<close>

lemma scans_ok_update:
  assumes ok: "scans_ok api s (xs @ sc # ys)" and rpm: "rpm_docs api" and pl: "placed sc"
  shows "\<exists>sc' s'. update api sc s = Inr (sc', s') \<and> scans_ok api s' (xs @ sc' # ys)
    \<and> snapshots_kept api s s' (xs @ ys) \<and> placed sc' \<and> scan_base sc' = scan_base sc
    \<and> dump_file s' = dump_file s"
proof (cases "results sc = []")
  case True
  obtain r where "scan_region sc = Some r" using pl by (auto simp: placed_def)
  then have "update api sc s = Inr (sc, s)" using True by (simp add: update_def)
  with ok pl show ?thesis by auto
next
  case False
  let ?scs = "xs @ sc # ys" and ?n = "length xs"
  let ?h = "scan_ranges ?scs" and ?refs = "scan_uses ?scs"
  have h: "dump.holds api (s, ?refs) ?h" and cp: "\<forall>c \<in> set ?scs. copied c" using ok by (simp_all add: scans_ok_def)
  from cp copied_range [of sc] obtain r i p where r: "scan_region sc = Some r" "region_ok r" "raw_bytes r = (p, region_size r)"
    "scan_range sc = Some (i, p, unat (region_size r))" by auto
  define x where "x = (i, p, unat (region_size r))"
  have hn: "?h ?n = Some x" by (simp add: scan_ranges_def r(4) x_def)
  have rr: "region_range r = Some x" using r(1,4) by (simp add: scan_range_def x_def)
  have di: "dump_inv api (s, ?refs)" and dl: "dump_live api (s, ?refs) x"
    using h hn unfolding dump.holds_def by blast+
  obtain success bs s1 s' where f: "fetch api r s = Inr (success, s')" "dump_env api (s, ?refs) (s1, ?refs)"
    "(s', ?refs) = dump_fill api x bs (s1, ?refs)" "length bs \<le> unat (region_size r)"
    using fetch_spec [OF di rpm r(2) rr dl] by blast
  have len: "length bs \<le> length (dump_content api (s, ?refs) x)" using f(4) by (simp add: dump_content_def x_def)
  note hf = shared_dump.holds_env_fill [OF h f(2) hn len, folded f(3)]
  have df: "dump_file s' = dump_file s" using f(2,3) by (simp add: dump_fill_def x_def dump_env_def)
  have rd: "read_memory api r s = Inr (success, r, s')"
    using f(1) region_range_ok(1) [OF r(2) rr [unfolded x_def]] by (simp add: read_memory_def reserve_def)
  have pl': "0 < unat (elem_size sc)" "entries_ok (elem_size sc) r (results sc)" "region_end r \<le> 2 ^ 48"
    "unat (elem_size sc) \<le> 8" using pl r(1) by (simp_all add: placed_def)
  define new where "new e = e\<lparr>entry_value :=
    element_value (unat (elem_size sc)) (load_bytes api (world s') p (unat (region_size r))) (unat (element_index e))\<rparr>" for e :: scan_entry
  define sc' where "sc' = sc\<lparr>scan_region := Some r, results := map new (results sc)\<rparr>"
  have up: "update api sc s = Inr (sc', s')"
    using update_loop_eq [OF r(3) pl'(1,2), of api "world s'"] r(1) False rd by (simp add: update_def sc'_def new_def)
  have f': "scan_region sc' = Some r" "elem_size sc' = elem_size sc" "scan_range sc' = scan_range sc"
    using r(1) by (simp_all add: sc'_def scan_range_def)
  have val: "unat (entry_value (new e)) < 2 ^ (8 * unat (elem_size sc))" for e
    unfolding new_def using element_value_bound pl'(4) by simp
  then have "placed sc'" using f' pl' by (auto simp: placed_def entries_ok_def sc'_def) (auto simp: new_def)
  moreover have "scan_ranges (xs @ sc' # ys) = ?h" "scan_uses (xs @ sc' # ys) = ?refs"
    using f'(3) by (auto simp: scan_ranges_def fun_eq_iff nth_append nth_Cons')
  then have "scans_ok api s' (xs @ sc' # ys)"
    using hf(1) cp f'(1) by (auto simp: scans_ok_def copied_def r(1))
  moreover have "snapshots_kept api s s' (xs @ ys)"
  proof -
    have at: "scan_snapshot api s' (?scs ! k) = scan_snapshot api s (?scs ! k)" if k: "k < length ?scs" "k \<noteq> ?n" for k
    proof -
      have c: "copied (?scs ! k)" using cp nth_mem [OF k(1)] by blast
      from fun_cong [OF hf(2), of k] k(2) show ?thesis
        unfolding scan_snapshot_content [OF k(1) c] by (simp add: scan_snapshot_content [OF k(1) c])
    qed
    have "scan_snapshot api s' c = scan_snapshot api s c" if "c \<in> set xs" for c
    proof -
      from that obtain k where "k < ?n" "c = xs ! k" by (metis in_set_conv_nth)
      with at [of k] show ?thesis by (simp add: nth_append)
    qed
    moreover have "scan_snapshot api s' c = scan_snapshot api s c" if "c \<in> set ys" for c
    proof -
      from that obtain k where "k < length ys" "c = ys ! k" by (metis in_set_conv_nth)
      with at [of "Suc (?n + k)"] show ?thesis by (simp add: nth_append)
    qed
    ultimately show ?thesis by (auto simp: snapshots_kept_def)
  qed
  moreover have "scan_base sc' = scan_base sc" using f'(1) r(1) by (simp add: scan_base_def)
  ultimately show ?thesis using up df by blast
qed

end
