(* ===== verification/Region_Walk.thy ===== *)
theory Region_Walk
  imports Memory_Region
begin

text \<open>
  \<open>slow_scanner::get_regions\<close> (\<open>src/slow_scanner.cpp\<close>): the walk over the address space of the
  target process with \<open>VirtualQueryEx\<close>. Nothing in the code bounds the walk, so it is a partial
  function; that it returns is a theorem about the documented results of \<open>VirtualQueryEx\<close>.
\<close>

text \<open>The clipping of a queried region to the range.\<close>

definition clip_region :: "u64 \<Rightarrow> u64 \<Rightarrow> mbi \<Rightarrow> mbi" where
  "clip_region lo hi m =
     (let m1 = (if BaseAddress m < lo then m\<lparr>BaseAddress := lo\<rparr> else m)
      in if hi < BaseAddress m1 + RegionSize m1 then m1\<lparr>RegionSize := hi - BaseAddress m1\<rparr> else m1)"

definition scannable :: "u32 \<Rightarrow> memory_region \<Rightarrow> bool" where
  "scannable protect r \<longleftrightarrow> has_protection_flags protect r \<and> is_commited r \<and> \<not> is_memmapped r"

partial_function (option) region_walk ::
  "'w win32 \<Rightarrow> u32 \<Rightarrow> u64 \<Rightarrow> u64 \<Rightarrow> u32 \<Rightarrow> 'w \<Rightarrow> u64 \<Rightarrow> memory_region list \<Rightarrow> memory_region list option" where
  [code]: "region_walk api handle lo hi protect w current regions =
     (if \<not> current < hi then Some regions
      else case virtual_query api (long_to_handle handle) current w of
             None \<Rightarrow> Some regions
           | Some m \<Rightarrow>
               let m1 = clip_region lo hi m;
                   r = new_region m1 handle
               in region_walk api handle lo hi protect w (BaseAddress m1 + RegionSize m1)
                    (if scannable protect r then regions @ [r] else regions))"

definition get_regions ::
  "'w win32 \<Rightarrow> u32 \<Rightarrow> u64 \<times> u64 \<Rightarrow> u32 \<Rightarrow> 'w \<Rightarrow> memory_region list option" where
  "get_regions api handle rng protect w =
     region_walk api handle (fst rng) (snd rng) protect w (fst rng) []"

subsection \<open>One step\<close>

text \<open>
  With the documented results of \<open>VirtualQueryEx\<close>, a step at an address of the range goes forward,
  and its region starts at or before that address, unless that is before the range, and stays
  inside the range.
\<close>

lemma clip_step:
  assumes "query_docs api" and "virtual_query api h a w = Some m" and "lo \<le> a" and "a < hi"
  defines "m1 \<equiv> clip_region lo hi m"
  defines "next \<equiv> unat (BaseAddress m1) + unat (RegionSize m1)"
  shows "unat (BaseAddress m1) = max (unat lo) (unat a div 4096 * 4096)"
    and "unat (BaseAddress m1 + RegionSize m1) = next"
    and "unat a < next" and "next \<le> unat hi" and "0 < unat (RegionSize m1)"
    and "next = min (unat hi) (unat (BaseAddress m1) + unat (RegionSize m))"
    and "Protect m1 = Protect m" and "State m1 = State m" and "MemType m1 = MemType m"
    and "next \<le> 2 ^ 48"
proof -
  define base size where "base = unat (BaseAddress m)" and "size = unat (RegionSize m)"
  have q: "base = unat a div 4096 * 4096" "4096 dvd size" "0 < size" "base + size \<le> 2 ^ 47"
    using assms(1,2) unfolding query_docs_def base_def size_def by blast+
  have big: "4096 \<le> size" using q(2,3) by (simp add: dvd_imp_le)
  have la: "unat lo \<le> unat a" "unat a < unat hi" using assms(3,4) by (simp_all add: word_le_nat_alt word_less_nat_alt)
  have abase: "base \<le> unat a" "unat a < base + 4096" using q(1) by (simp_all add: div_times_less_eq_dividend)
  define b where "b = (if BaseAddress m < lo then lo else BaseAddress m)"
  have ub: "unat b = max (unat lo) base" by (auto simp: b_def base_def word_less_nat_alt)
  have small: "unat b + size < 2 ^ 64" using ub q(4) la abase big by simp
  have sum: "unat (b + RegionSize m) = unat b + size"
    using small by (simp add: size_def unat_add_no_wrap)
  have m1: "BaseAddress m1 = b" "RegionSize m1 = (if hi < b + RegionSize m then hi - b else RegionSize m)"
    "Protect m1 = Protect m" "State m1 = State m" "MemType m1 = MemType m"
    by (simp_all add: m1_def clip_region_def b_def Let_def)
  then show "Protect m1 = Protect m" "State m1 = State m" "MemType m1 = MemType m" by simp_all
  show base': "unat (BaseAddress m1) = max (unat lo) (unat a div 4096 * 4096)"
    by (simp add: m1 ub q(1))
  have bh: "unat b < unat hi" using ub la abase by simp
  have ba: "unat a < unat b + size" using ub la abase big by simp
  have next': "next = min (unat hi) (unat b + size)"
  proof (cases "hi < b + RegionSize m")
    case True
    then have "unat hi < unat b + size" by (simp add: word_less_nat_alt sum)
    moreover have "unat (hi - b) = unat hi - unat b" using bh by (simp add: unat_sub word_le_nat_alt)
    ultimately show ?thesis using True bh by (simp add: next_def m1)
  next
    case False
    then have "unat b + size \<le> unat hi" by (simp add: word_le_nat_alt sum not_less)
    then show ?thesis using False by (simp add: next_def m1 size_def)
  qed
  then show "next = min (unat hi) (unat (BaseAddress m1) + unat (RegionSize m))"
    by (simp add: m1 size_def)
  have "unat b + size \<le> 2 ^ 48" using ub q(4) la abase by simp
  then show "next \<le> 2 ^ 48" using next' by simp
  show "unat a < next" "next \<le> unat hi" using next' la ba by simp_all
  then show "unat (BaseAddress m1 + RegionSize m1) = next"
    unfolding next_def using less_le_trans [of _ _ "unat hi"]
    by (intro unat_add_no_wrap) (simp add: next_def, rule le_less_trans, assumption, simp)
  have "unat b < next" using next' bh q(3) by simp
  then show "0 < unat (RegionSize m1)" unfolding next_def m1(1) by simp
qed


subsection \<open>The walk\<close>

lemma region_walk_stop: "\<not> cur < hi \<Longrightarrow> region_walk api h lo hi p w cur acc = Some acc"
  by (subst region_walk.simps) simp

lemma region_walk_none:
  "virtual_query api (long_to_handle h) cur w = None \<Longrightarrow> region_walk api h lo hi p w cur acc = Some acc"
  by (subst region_walk.simps) simp

lemma region_walk_step:
  "cur < hi \<Longrightarrow> virtual_query api (long_to_handle h) cur w = Some m \<Longrightarrow>
   region_walk api h lo hi p w cur acc =
     region_walk api h lo hi p w (BaseAddress (clip_region lo hi m) + RegionSize (clip_region lo hi m))
       (if scannable p (new_region (clip_region lo hi m) h) then acc @ [new_region (clip_region lo hi m) h] else acc)"
  by (subst region_walk.simps) (simp add: Let_def)

lemma new_region_fields [simp]:
  "region_base (new_region m h) = BaseAddress m" "region_size (new_region m h) = RegionSize m"
  "region_mbi (new_region m h) = m"
  by (simp_all add: region_base_def region_size_def new_region_def)

text \<open>
  The regions found from an address on: fresh, scannable, inside the range, not empty, with
  strictly ascending bases from the page of the address on.
\<close>

definition walk_ok :: "u32 \<Rightarrow> u64 \<Rightarrow> u64 \<Rightarrow> u32 \<Rightarrow> u64 \<Rightarrow> memory_region list \<Rightarrow> bool" where
  "walk_ok h lo hi p cur rs \<longleftrightarrow>
     (\<forall>r \<in> set rs. (\<exists>m. r = new_region m h) \<and> scannable p r \<and> lo \<le> region_base r \<and> region_end r \<le> unat hi \<and> region_end r \<le> 2 ^ 48
        \<and> 0 < unat (region_size r) \<and> unat cur div 4096 * 4096 \<le> unat (region_base r))
   \<and> sorted_wrt (\<lambda>r r'. region_base r < region_base r') rs"

lemma walk_ok_Cons:
  assumes "walk_ok h lo hi p cur' rs" and "scannable p (new_region m h)" and "lo \<le> BaseAddress m"
    and "unat (BaseAddress m) + unat (RegionSize m) \<le> unat hi" and "0 < unat (RegionSize m)"
    and "unat (BaseAddress m) + unat (RegionSize m) \<le> 2 ^ 48"
    and "unat cur div 4096 * 4096 \<le> unat (BaseAddress m)" and "unat cur \<le> unat cur'"
    and "rs \<noteq> [] \<Longrightarrow> unat (BaseAddress m) < unat cur' div 4096 * 4096"
  shows "walk_ok h lo hi p cur (new_region m h # rs)"
proof -
  have "unat cur div 4096 * 4096 \<le> unat cur' div 4096 * 4096" using assms(8) by (simp add: div_le_mono)
  moreover have "BaseAddress m < region_base r" if "r \<in> set rs" for r
    using assms(1,9) that by (fastforce simp: walk_ok_def word_less_nat_alt)
  ultimately show ?thesis
    using assms by (fastforce simp: walk_ok_def region_end_def)
qed

lemma walk_ok_mono: "walk_ok h lo hi p cur' rs \<Longrightarrow> unat cur \<le> unat cur' \<Longrightarrow> walk_ok h lo hi p cur rs"
  unfolding walk_ok_def by (meson div_le_mono le_trans mult_le_mono1)

lemma region_walk_spec:
  assumes docs: "query_docs api" and "lo \<le> cur"
  shows "\<exists>rs. region_walk api h lo hi p w cur acc = Some (acc @ rs) \<and> walk_ok h lo hi p cur rs
    \<and> (hi \<le> cur \<longrightarrow> rs = [])"
  using assms(2)
proof (induction "unat hi - unat cur" arbitrary: cur acc rule: less_induct)
  case less
  show ?case
  proof (cases "cur < hi")
    case False
    then show ?thesis by (simp add: region_walk_stop walk_ok_def)
  next
    case in_range: True
    show ?thesis
    proof (cases "virtual_query api (long_to_handle h) cur w")
      case None
      then show ?thesis by (simp add: region_walk_none walk_ok_def)
    next
      case (Some m)
      define m1 where "m1 = clip_region lo hi m"
      define cur' where "cur' = BaseAddress m1 + RegionSize m1"
      note c = clip_step [OF docs Some less.prems in_range, folded m1_def, folded cur'_def]
      have q: "4096 dvd unat (RegionSize m)" "0 < unat (RegionSize m)"
        using docs Some unfolding query_docs_def by blast+
      then have big: "4096 \<le> unat (RegionSize m)" by (simp add: dvd_imp_le)
      have lc: "unat cur < unat cur'" using c(2,3) by simp
      have "unat hi - unat cur' < unat hi - unat cur"
        using lc in_range by (simp add: word_less_nat_alt)
      moreover have "lo \<le> cur'" using lc less.prems by (simp add: word_le_nat_alt)
      ultimately obtain rs where rs: "region_walk api h lo hi p w cur'
          (if scannable p (new_region m1 h) then acc @ [new_region m1 h] else acc)
          = Some ((if scannable p (new_region m1 h) then acc @ [new_region m1 h] else acc) @ rs)"
        "walk_ok h lo hi p cur' rs" "hi \<le> cur' \<longrightarrow> rs = []"
        using less.hyps by blast
      have run: "region_walk api h lo hi p w cur acc = Some (acc @
          (if scannable p (new_region m1 h) then new_region m1 h # rs else rs))"
        using rs(1) region_walk_step [OF in_range Some, of lo p acc, folded m1_def, folded cur'_def]
        by (cases "scannable p (new_region m1 h)") simp_all
      have asc: "unat (BaseAddress m1) < unat cur' div 4096 * 4096" if "rs \<noteq> []"
      proof -
        from that rs(3) have "unat cur' < unat hi" by (auto simp: word_le_nat_alt)
        with c(2,6) have "unat cur' = unat (BaseAddress m1) + unat (RegionSize m)" by linarith
        moreover have "unat cur' < unat cur' div 4096 * 4096 + 4096"
          by (metis add.commute dividend_less_div_times zero_less_numeral)
        ultimately show ?thesis using big by linarith
      qed
      have "walk_ok h lo hi p cur (new_region m1 h # rs)" if "scannable p (new_region m1 h)"
      proof (rule walk_ok_Cons [OF rs(2) that])
        show "lo \<le> BaseAddress m1" unfolding word_le_nat_alt c(1) by (rule max.cobounded1)
        show "unat cur div 4096 * 4096 \<le> unat (BaseAddress m1)" unfolding c(1) by (rule max.cobounded2)
        show "unat cur \<le> unat cur'" using lc by (rule less_imp_le)
      qed (use c(4,5,10) asc in blast)+
      moreover have "walk_ok h lo hi p cur rs" using rs(2) less_imp_le [OF lc] by (rule walk_ok_mono)
      moreover have "\<not> hi \<le> cur" using in_range by simp
      ultimately show ?thesis using run by (cases "scannable p (new_region m1 h)") auto
    qed
  qed
qed

text \<open>Regions as \<open>get_regions\<close> makes them: fresh and not empty.\<close>

definition fresh_regions :: "memory_region list \<Rightarrow> bool" where
  "fresh_regions rs \<longleftrightarrow> (\<forall>r \<in> set rs. region_ok r \<and> \<not> mem_reserved r \<and> region_size r \<noteq> 0
     \<and> region_end r \<le> 2 ^ 48)"

lemma get_regions_fresh:
  assumes "query_docs api" and "get_regions api h (lo, hi) protect w = Some rs"
  shows "fresh_regions rs" and "sorted_wrt (\<lambda>r r'. region_base r < region_base r') rs"
proof -
  obtain rs' where "region_walk api h lo hi protect w lo [] = Some ([] @ rs')" "walk_ok h lo hi protect lo rs'"
    using region_walk_spec [OF assms(1) order_refl] by blast
  with assms(2) have w: "walk_ok h lo hi protect lo rs" by (simp add: get_regions_def)
  then show "sorted_wrt (\<lambda>r r'. region_base r < region_base r') rs" by (simp add: walk_ok_def)
  show "fresh_regions rs"
    unfolding fresh_regions_def
  proof
    fix r
    assume "r \<in> set rs"
    with w obtain m where "r = new_region m h" "0 < unat (region_size r)" "region_end r \<le> 2 ^ 48"
      by (auto simp: walk_ok_def)
    then show "region_ok r \<and> \<not> mem_reserved r \<and> region_size r \<noteq> 0 \<and> region_end r \<le> 2 ^ 48" by auto
  qed
qed

subsection \<open>What is found\<close>

text \<open>
  Documented behaviour of \<open>VirtualQueryEx\<close>: all the pages of the region it describes have the
  attributes it reports.
\<close>

definition query_consistent :: "'w win32 \<Rightarrow> u64 \<Rightarrow> 'w \<Rightarrow> bool" where
  "query_consistent api h w \<longleftrightarrow> (\<forall>a m b. virtual_query api h a w = Some m \<longrightarrow>
     unat (BaseAddress m) \<le> unat b \<longrightarrow> unat b < unat (BaseAddress m) + unat (RegionSize m) \<longrightarrow>
     (\<exists>m'. virtual_query api h b w = Some m' \<and> State m' = State m \<and> Protect m' = Protect m \<and> MemType m' = MemType m))"

lemma scannable_cong:
  "State m = State m' \<Longrightarrow> Protect m = Protect m' \<Longrightarrow> MemType m = MemType m' \<Longrightarrow>
   scannable p (new_region m h) = scannable p (new_region m' h)"
  by (simp add: scannable_def has_protection_flags_def is_commited_def is_memmapped_def)

definition covered :: "memory_region list \<Rightarrow> u64 \<Rightarrow> bool" where
  "covered rs a \<longleftrightarrow> (\<exists>r \<in> set rs. unat (region_base r) \<le> unat a \<and> unat a < region_end r)"

lemma region_walk_covers:
  assumes docs: "query_docs api" "query_consistent api (long_to_handle h) w" and "lo \<le> cur"
    and "4096 dvd unat cur" and "region_walk api h lo hi p w cur acc = Some (acc @ rs)"
    and "\<And>a. cur \<le> a \<Longrightarrow> a < hi \<Longrightarrow> virtual_query api (long_to_handle h) a w \<noteq> None"
    and "cur \<le> a" and "a < hi"
  shows "covered rs a \<longleftrightarrow> (\<exists>m. virtual_query api (long_to_handle h) a w = Some m \<and> scannable p (new_region m h))"
  using assms(3-8)
proof (induction "unat hi - unat cur" arbitrary: cur acc rs rule: less_induct)
  case less
  have in_range: "cur < hi" using less.prems(5,6) by simp
  then obtain m where q: "virtual_query api (long_to_handle h) cur w = Some m"
    using less.prems(4) [of cur] by auto
  define m1 where "m1 = clip_region lo hi m"
  define cur' where "cur' = BaseAddress m1 + RegionSize m1"
  note c = clip_step [OF docs(1) q less.prems(1) in_range, folded m1_def, folded cur'_def]
  have qd: "unat (BaseAddress m) = unat cur div 4096 * 4096" "4096 dvd unat (RegionSize m)"
    using docs(1) q unfolding query_docs_def by blast+
  have base: "unat (BaseAddress m1) = unat cur" "unat (BaseAddress m) = unat cur"
    using c(1) qd(1) less.prems(1,2) by (simp_all add: word_le_nat_alt)
  have lc: "unat cur < unat cur'" using c(2,3) by simp
  have lo': "lo \<le> cur'" using lc less.prems(1) by (simp add: word_le_nat_alt)
  obtain rs' where rs': "region_walk api h lo hi p w cur' (acc @ (if scannable p (new_region m1 h) then [new_region m1 h] else []))
      = Some ((acc @ (if scannable p (new_region m1 h) then [new_region m1 h] else [])) @ rs')"
    "walk_ok h lo hi p cur' rs'" "hi \<le> cur' \<longrightarrow> rs' = []"
    using region_walk_spec [OF docs(1) lo'] by blast
  have rs: "rs = (if scannable p (new_region m1 h) then new_region m1 h # rs' else rs')"
    using less.prems(3) rs'(1) region_walk_step [OF in_range q, of lo p acc, folded m1_def, folded cur'_def]
    by (cases "scannable p (new_region m1 h)") simp_all
  have same: "scannable p (new_region m1 h) = scannable p (new_region m h)"
    by (rule scannable_cong) (simp_all add: c)
  have end1: "region_end (new_region m1 h) = unat cur'" by (simp add: region_end_def c(2))
  show ?case
  proof (cases "a < cur'")
    case True
    have al: "4096 dvd unat cur' \<or> rs' = []"
    proof (cases "hi \<le> cur'")
      case False
      then have "unat cur' = unat cur + unat (RegionSize m)"
        using c(2,6) base by (simp add: word_le_nat_alt)
      then show ?thesis using less.prems(2) qd(2) by simp
    qed (use rs'(3) in simp)
    have "unat cur' \<le> unat (region_base r)" if "r \<in> set rs'" for r
      using rs'(2) that al by (auto simp: walk_ok_def)
    with True have "\<not> covered rs' a" by (fastforce simp: covered_def word_less_nat_alt)
    moreover have "unat cur \<le> unat a" "unat a < unat cur'"
      using less.prems(5) True by (simp_all add: word_le_nat_alt word_less_nat_alt)
    ultimately have "covered rs a \<longleftrightarrow> scannable p (new_region m h)"
      using same end1 base(1) by (auto simp: covered_def rs)
    moreover have "unat a < unat (BaseAddress m) + unat (RegionSize m)"
      using \<open>unat a < unat cur'\<close> c(2,6) base by simp
    then obtain m' where "virtual_query api (long_to_handle h) a w = Some m'" "State m' = State m"
      "Protect m' = Protect m" "MemType m' = MemType m"
      using docs(2) q \<open>unat cur \<le> unat a\<close> base(2) unfolding query_consistent_def by metis
    ultimately show ?thesis using scannable_cong [of m' m p h] by simp
  next
    case False
    then have ca: "cur' \<le> a" by simp
    have "unat hi - unat cur' < unat hi - unat cur" using lc in_range by (simp add: word_less_nat_alt)
    moreover have "4096 dvd unat cur'"
    proof -
      have "unat cur' < unat hi" using ca less.prems(6) by (simp add: word_le_nat_alt word_less_nat_alt)
      then have "unat cur' = unat cur + unat (RegionSize m)" using c(2,6) base by simp
      then show ?thesis using less.prems(2) qd(2) by simp
    qed
    moreover have "virtual_query api (long_to_handle h) b w \<noteq> None" if "cur' \<le> b" "b < hi" for b
      using less.prems(4) [of b] that lc by (simp add: word_le_nat_alt)
    ultimately have "covered rs' a \<longleftrightarrow> (\<exists>m. virtual_query api (long_to_handle h) a w = Some m \<and> scannable p (new_region m h))"
      using less.hyps [of cur' _ rs'] lo' rs'(1) ca less.prems(6) by blast
    moreover have "covered rs a = covered rs' a"
      using end1 ca by (auto simp: covered_def rs word_le_nat_alt)
    ultimately show ?thesis by simp
  qed
qed


subsection \<open>Properties\<close>

text \<open>
  C14: the walk ends and what it returns is usable. With the documented results of
  \<open>VirtualQueryEx\<close>, for every range, \<open>get_regions\<close> returns; the regions come in strictly ascending
  order of their bases, each of them is not empty, lies in the range, has a wanted protection
  flag, is committed and is not a file mapping.
\<close>

theorem get_regions_returns:
  assumes "query_docs api"
  shows "\<exists>rs. get_regions api h (lo, hi) protect w = Some rs
    \<and> sorted_wrt (\<lambda>r r'. region_base r < region_base r') rs
    \<and> (\<forall>r \<in> set rs. lo \<le> region_base r \<and> unat (region_base r) + unat (region_size r) \<le> unat hi
         \<and> region_size r \<noteq> 0 \<and> Protect (region_mbi r) AND protect \<noteq> 0
         \<and> State (region_mbi r) = MEM_COMMIT \<and> MemType (region_mbi r) \<noteq> MEM_MAPPED)"
proof -
  obtain rs where rs: "region_walk api h lo hi protect w lo [] = Some ([] @ rs)" "walk_ok h lo hi protect lo rs"
    using region_walk_spec [OF assms order_refl] by blast
  then have "get_regions api h (lo, hi) protect w = Some rs" by (simp add: get_regions_def)
  moreover have "region_size r \<noteq> 0" if "r \<in> set rs" for r
    using rs(2) that by (fastforce simp: walk_ok_def)
  moreover have "scannable protect r \<and> lo \<le> region_base r \<and> region_end r \<le> unat hi" if "r \<in> set rs" for r
    using rs(2) that by (simp add: walk_ok_def)
  moreover have "sorted_wrt (\<lambda>r r'. region_base r < region_base r') rs" using rs(2) by (simp add: walk_ok_def)
  ultimately show ?thesis
    by (auto simp: scannable_def has_protection_flags_def is_commited_def is_memmapped_def region_end_def)
qed

theorem get_regions_returns_witness:
  "\<exists>rs. get_regions sample_api 7 (0x10000, 0x20000) 4 (sample_world [sample_mbi] ucast) = Some rs
    \<and> sorted_wrt (\<lambda>r r'. region_base r < region_base r') rs"
  using get_regions_returns [OF sample_query_docs, of 7 "0x10000" "0x20000" 4 "sample_world [sample_mbi] ucast"]
  by blast

text \<open>
  C15: nothing is missed and nothing is added. For a range that starts at a page, all of whose
  addresses can be queried, the regions cover exactly the addresses of the range whose pages
  have a wanted protection flag, are committed and are not a file mapping.
\<close>

theorem get_regions_covers:
  assumes "query_docs api" and "query_consistent api (long_to_handle h) w" and "4096 dvd unat lo"
    and "\<And>a. lo \<le> a \<Longrightarrow> a < hi \<Longrightarrow> virtual_query api (long_to_handle h) a w \<noteq> None"
    and "get_regions api h (lo, hi) protect w = Some rs" and "lo \<le> a" and "a < hi"
  shows "(\<exists>r \<in> set rs. unat (region_base r) \<le> unat a \<and> unat a < unat (region_base r) + unat (region_size r))
    \<longleftrightarrow> (\<exists>m. virtual_query api (long_to_handle h) a w = Some m \<and> Protect m AND protect \<noteq> 0
         \<and> State m = MEM_COMMIT \<and> MemType m \<noteq> MEM_MAPPED)"
proof -
  have "region_walk api h lo hi protect w lo [] = Some ([] @ rs)"
    using assms(5) by (simp add: get_regions_def)
  from region_walk_covers [OF assms(1,2) order_refl assms(3) this assms(4,6,7)]
  show ?thesis
    by (simp add: covered_def region_end_def scannable_def has_protection_flags_def is_commited_def is_memmapped_def)
qed

lemma sample_mbi_fields [simp]:
  "BaseAddress sample_mbi = 0x10000" "RegionSize sample_mbi = 0x1000" "State sample_mbi = MEM_COMMIT"
  "Protect sample_mbi = 4" "MemType sample_mbi = 0x20000"
  by (simp_all add: sample_mbi_def)

lemma sample_query_sample_mbi:
  "virtual_query sample_api h a (sample_world [sample_mbi] mem) =
    (if 0x10000 \<le> a \<and> a < 0x11000 then Some sample_mbi else None)"
proof (cases "(0x10000 :: u64) \<le> a \<and> a < 0x11000")
  case True
  then have a: "0x10000 \<le> unat a" "unat a < 0x11000" by (simp_all add: word_le_nat_alt word_less_nat_alt)
  then have "unat a div 4096 = 16" by (intro div_nat_eqI) simp_all
  with True a show ?thesis
    by (simp add: sample_api_fields sample_query_def sample_world_def sample_mbi_def)
next
  case False
  then show ?thesis
    by (auto simp: sample_api_fields sample_query_def sample_world_def sample_mbi_def word_le_nat_alt word_less_nat_alt)
qed

theorem get_regions_covers_witness:
  "\<exists>rs r. get_regions sample_api 7 (0x10000, 0x11000) 4 (sample_world [sample_mbi] ucast) = Some rs
    \<and> r \<in> set rs \<and> unat (region_base r) \<le> 0x10800 \<and> 0x10800 < unat (region_base r) + unat (region_size r)"
proof -
  let ?w = "sample_world [sample_mbi] ucast"
  obtain rs where rs: "get_regions sample_api 7 (0x10000, 0x11000) 4 ?w = Some rs"
    using get_regions_returns [OF sample_query_docs] by blast
  have "query_consistent sample_api (long_to_handle 7) ?w"
    by (auto simp: query_consistent_def sample_query_sample_mbi word_le_nat_alt word_less_nat_alt split: if_splits)
  from get_regions_covers [OF sample_query_docs this _ _ rs, of "0x10800"]
  have "\<exists>r \<in> set rs. unat (region_base r) \<le> unat (0x10800 :: u64)
      \<and> unat (0x10800 :: u64) < unat (region_base r) + unat (region_size r)"
    by (simp add: sample_query_sample_mbi MEM_MAPPED_def)
  then show ?thesis using rs by auto
qed



end
