(* ===== verification/Still_Target.thy ===== *)
theory Still_Target
  imports Scan_Set Region_Walk
begin

text \<open>
  A second concrete instance of the platform parameter, for the witnesses about what is read: the
  sample platform with a target whose memory stands still. It models no code of the repository.
\<close>

lemma sample_query_world:
  "target w = [sample_mbi] \<Longrightarrow> virtual_query sample_api h a w = virtual_query sample_api h a (sample_world [sample_mbi] ucast)"
  by (simp add: sample_api_fields sample_query_def sample_world_def)

lemma sample_sys_target [simp]: "target (world (sample_sys regions mem)) = regions"
  by (simp add: sample_write_defs)

text \<open>Each byte of the memory of the target is the low byte of its address.\<close>

definition still_api :: "sample win32" where
  "still_api = sample_api\<lparr>read_process_memory :=
     (\<lambda>h a n w. ((True, map (\<lambda>i. ucast (a + of_nat i)) [0..<unat n]), w))\<rparr>"

lemma still_api_fields:
  "delete_file still_api = delete_file sample_api"
  "create_file_a still_api = create_file_a sample_api"
  "create_file_w still_api = create_file_w sample_api"
  "multi_byte_to_wide still_api = multi_byte_to_wide sample_api"
  "get_file_size still_api = get_file_size sample_api"
  "set_file_pointer still_api = set_file_pointer sample_api"
  "set_end_of_file still_api = set_end_of_file sample_api"
  "close_handle still_api = close_handle sample_api"
  "create_file_mapping still_api = create_file_mapping sample_api"
  "map_view_of_file still_api = map_view_of_file sample_api"
  "unmap_view_of_file still_api = unmap_view_of_file sample_api"
  "flush_view_of_file still_api = flush_view_of_file sample_api"
  "flush_file_buffers still_api = flush_file_buffers sample_api"
  "get_last_error still_api = get_last_error sample_api"
  "allocation_granularity still_api = allocation_granularity sample_api"
  "virtual_query still_api = virtual_query sample_api"
  "load_byte still_api = load_byte sample_api"
  "store_byte still_api = store_byte sample_api"
  "view_of still_api = view_of sample_api"
  "read_process_memory still_api h a n w = ((True, map (\<lambda>i. ucast (a + of_nat i)) [0..<unat n]), w)"
  by (simp_all add: still_api_def)

lemma still_docs: "query_docs still_api" "rpm_docs still_api" "memory_docs still_api" "disk_ok still_api"
proof -
  show "query_docs still_api" using sample_query_docs unfolding query_docs_def still_api_fields .
  show "rpm_docs still_api" by (simp add: rpm_docs_def still_api_fields)
  show "disk_ok still_api" using sample_disk_ok by (simp add: disk_ok_def still_api_fields)
  have k: "keeps still_api = keeps sample_api" by (simp add: keeps_def fun_eq_iff still_api_fields)
  show "memory_docs still_api"
    using sample_memory_docs
    by (simp add: memory_docs_def quiet_docs_def store_docs_def map_docs_def unmap_docs_def still_api_fields k)
qed

lemma still_view_docs: "view_docs still_api"
proof -
  have "bases still_api = bases sample_api" by (simp add: bases_def fun_eq_iff still_api_fields)
  then show ?thesis
    using sample_view_docs unfolding view_docs_def still_api_fields snd_conv by (simp only:) blast
qed

lemma still_dump_inv: "dump_inv still_api (sample_sys regions mem, no_refs)"
proof -
  have "store_inv still_api no_refs (sample_sys regions mem)"
    by (simp add: store_inv_def heap_ok_def alive_def file_ok_def map_ok_def refs_ok_def no_refs_def sample_write_defs)
  then show ?thesis by (simp add: dump_inv_def still_docs)
qed

lemma still_regions_at:
  assumes "target w = [sample_mbi]"
  shows "get_regions still_api 7 (0x10000, 0x10008) 4 w = Some [sample_region]"
proof -
  let ?m = "sample_mbi\<lparr>RegionSize := 8\<rparr>"
  have "clip_region 0x10000 0x10008 sample_mbi = ?m" by (simp add: clip_region_def)
  moreover have "scannable 4 (new_region ?m 7)"
    by (simp add: scannable_def has_protection_flags_def is_commited_def is_memmapped_def MEM_MAPPED_def)
  moreover have "virtual_query still_api (long_to_handle 7) 0x10000 w = Some sample_mbi"
    by (simp add: still_api_fields(16) sample_query_world [OF assms] sample_query_sample_mbi)
  ultimately show ?thesis
    by (simp add: get_regions_def region_walk_step region_walk_stop sample_region_def)
qed

lemma still_regions:
  "get_regions still_api 7 (0x10000, 0x10008) 4 (world (sample_sys [sample_mbi] ucast)) = Some [sample_region]"
  by (rule still_regions_at) simp

lemma sample_room: "unat (foffset (dump_file (sample_sys regions mem))) + (\<Sum>r\<leftarrow>[sample_region]. unat (region_size r)) \<le> 2 ^ 60"
  by (simp add: sample_sys_inv)

lemma still_delivered:
  "delivered still_api sample_region ok bs \<longleftrightarrow> ok \<and> bs = [0, 1, 2, 3, 4, 5, 6, 7]"
proof -
  have "map (\<lambda>i. ucast (0x10000 + of_nat i :: u64)) [0..<8] = [0, 1, 2, 3, 4, 5, 6, 7 :: u8]" by code_simp
  then show ?thesis by (auto simp: delivered_def still_api_fields)
qed

lemma still_scans_ok: "scans_ok still_api (sample_sys regions mem) []"
  by (simp add: still_dump_inv)

lemma store_bytes_still [simp]: "store_bytes still_api a bs w = store_bytes sample_api a bs w"
  by (induction bs arbitrary: a w) (simp_all add: still_api_fields)

text \<open>The sample region can be read, and after that there is room for a second copy.\<close>

lemma still_read_twice:
  "case read_memory still_api sample_region (sample_sys [sample_mbi] ucast) of Inl _ \<Rightarrow> False
   | Inr (ok, r, s) \<Rightarrow> ok \<and> mem_reserved r \<and> target (world s) = [sample_mbi]
       \<and> (case reserve still_api sample_region s of Inl _ \<Rightarrow> False | Inr (ok', r', s') \<Rightarrow> ok')"
  by (simp add: read_memory_def reserve_def fetch_def alloc_f_def dump_def write_data_def sample_region_def
      new_region_def new_dumpable_def region_size_def region_base_def sample_mbi_def long_to_handle_def
      still_api_fields sample_write_defs)

end
