(* ===== verification/First_Scan.thy ===== *)
theory First_Scan
  imports Still_Target
begin

text \<open>
  \<open>slow_scanner::first_scan\<close> (\<open>src/slow_scanner.cpp\<close>). The tasks handed to the thread pool are state
  machines: reserve space for the region, read the region into it, search it. A schedule, a list
  of task numbers, says whose step is next; the steps of different tasks interleave freely, the
  order within a task is that of its code. Collecting the futures waits for the tasks, so what
  the schedule leaves undone is done at the end, task by task.

  The class itself (\<open>slow_scanner.h\<close>) holds the handle of the process beside the dump file.
\<close>

record 'w slow_scanner =
  sys_of :: "'w sys"
  target_handle :: u32

text \<open>The constructor makes the dump file; the pool has no state that the scans see.\<close>

definition new_slow_scanner :: "'w win32 \<Rightarrow> 'w \<Rightarrow> 'w slow_scanner" where
  "new_slow_scanner api w =
     (let (f, w1) = m_file_new api ''dump.bin'' w
      in \<lparr>sys_of = \<lparr>world = w1, heap = [], dump_file = f\<rparr>, target_handle = - 1\<rparr>)"

definition attach_to :: "u32 \<Rightarrow> 'w slow_scanner \<Rightarrow> 'w slow_scanner" where
  "attach_to handle sc = sc\<lparr>target_handle := handle\<rparr>"

datatype job = Start scan | Reserved scan | Loaded scan | Done scan

fun job_scan :: "job \<Rightarrow> scan" where
  "job_scan (Start sc) = sc"
| "job_scan (Reserved sc) = sc"
| "job_scan (Loaded sc) = sc"
| "job_scan (Done sc) = sc"

text \<open>
  One step of the lambda that \<open>first_scan\<close> enqueues. \<open>s->region()\<close> of a scan without a region would
  be a null dereference.
\<close>

fun job_step ::
  "'w win32 \<Rightarrow> comparator_fn \<Rightarrow> u64 \<Rightarrow> u64 option \<Rightarrow> job \<Rightarrow> 'w sys \<Rightarrow> (job \<times> 'w sys) res" where
  "job_step api cmp raw1 raw2 (Start sc) s =
     (case scan_region sc of
        None \<Rightarrow> Inl Null_deref
      | Some r \<Rightarrow>
          (case reserve api r s of
             Inl e \<Rightarrow> Inl e
           | Inr (ok, r1, s1) \<Rightarrow>
               let sc1 = sc\<lparr>scan_region := Some r1\<rparr>
               in if ok then Inr (Reserved sc1, s1) else Inr (Done sc1, s1)))"
| "job_step api cmp raw1 raw2 (Reserved sc) s =
     (case scan_region sc of
        None \<Rightarrow> Inl Null_deref
      | Some r \<Rightarrow>
          (case fetch api r s of
             Inl e \<Rightarrow> Inl e
           | Inr (success, s1) \<Rightarrow>
               if \<not> success then Inr (Done sc, s1)
               else if scan_mode sc = unknown_value then Inr (Done (set_valid sc), s1)
               else Inr (Loaded sc, s1)))"
| "job_step api cmp raw1 raw2 (Loaded sc) s = Inr (Done (snd (search_value api cmp raw1 raw2 sc s)), s)"
| "job_step api cmp raw1 raw2 (Done sc) s = Inr (Done sc, s)"

fun run_jobs ::
  "'w win32 \<Rightarrow> comparator_fn \<Rightarrow> u64 \<Rightarrow> u64 option \<Rightarrow> nat list \<Rightarrow> job list \<Rightarrow> 'w sys \<Rightarrow> (job list \<times> 'w sys) res" where
  "run_jobs api cmp raw1 raw2 [] jobs s = Inr (jobs, s)"
| "run_jobs api cmp raw1 raw2 (k # ks) jobs s =
     (if k < length jobs
      then case job_step api cmp raw1 raw2 (jobs ! k) s of
             Inl e \<Rightarrow> Inl e
           | Inr (j, s1) \<Rightarrow> run_jobs api cmp raw1 raw2 ks (jobs[k := j]) s1
      else run_jobs api cmp raw1 raw2 ks jobs s)"

text \<open>What the futures wait for: three steps take any task to its end.\<close>

definition finish_schedule :: "nat \<Rightarrow> nat list" where
  "finish_schedule n = concat (map (\<lambda>k. [k, k, k]) [0..<n])"

fun make_jobs :: "scan_type \<Rightarrow> u64 \<Rightarrow> memory_region list \<Rightarrow> job list res" where
  "make_jobs type es [] = Inr []"
| "make_jobs type es (r # rs) =
     (case new_scan (Some r) type es of
        Inl e \<Rightarrow> Inl e
      | Inr sc \<Rightarrow> (case make_jobs type es rs of Inl e \<Rightarrow> Inl e | Inr js \<Rightarrow> Inr (Start sc # js)))"

text \<open>Collecting: the valid scans are kept, the others destroyed as their pointer goes out of scope.\<close>

fun collect :: "'w win32 \<Rightarrow> scan list \<Rightarrow> scan list \<Rightarrow> 'w sys \<Rightarrow> scan list \<times> 'w sys" where
  "collect api [] found s = (found, s)"
| "collect api (sc # scs) found s =
     (if scan_valid sc then collect api scs (found @ [sc]) s
      else collect api scs found (scan_destroy api sc s))"

definition first_scan ::
  "'w win32 \<Rightarrow> nat list \<Rightarrow> u32 \<Rightarrow> u64 \<times> u64 \<Rightarrow> u32 \<Rightarrow> scan_type \<Rightarrow> element_type \<Rightarrow> u64 \<Rightarrow> u64 option \<Rightarrow> 'w sys
   \<Rightarrow> (scan list \<times> 'w sys) res option" where
  "first_scan api schedule handle rng protect type elem_type raw1 raw2 s =
     (case get_regions api handle rng protect (world s) of
        None \<Rightarrow> None
      | Some regions \<Rightarrow>
          (case make_jobs type (element_size elem_type) regions of
             Inl e \<Rightarrow> Some (Inl e)
           | Inr jobs \<Rightarrow>
               (case run_jobs api (make_comparator type elem_type) raw1 raw2
                       (schedule @ finish_schedule (length jobs)) jobs s of
                  Inl e \<Rightarrow> Some (Inl e)
                | Inr (jobs1, s1) \<Rightarrow>
                    let (found, s2) = collect api (map job_scan jobs1) [] s1
                    in Some (Inr (sort_key scan_base found, s2)))))"


subsection \<open>The invariant of the tasks\<close>

text \<open>
  What a finished scan holds, in terms of the bytes its region holds: nothing when the region
  could not be read, and otherwise every match in the bytes that were delivered.
\<close>

definition outcome :: "'w win32 \<Rightarrow> (u64 \<Rightarrow> bool) \<Rightarrow> scan \<Rightarrow> memory_region \<Rightarrow> u8 list \<Rightarrow> bool" where
  "outcome api acc sc r bs \<longleftrightarrow>
     (\<not> scan_valid sc \<and> results sc = [] \<and> (\<exists>part. delivered api r False part))
   \<or> (delivered api r True bs \<and>
       (if scan_mode sc = unknown_value then scan_valid sc \<and> results sc = []
        else results sc = accepted acc (unat (elem_size sc)) bs \<and> scan_valid sc = (results sc \<noteq> [])))"

fun stage_ok :: "'w win32 \<Rightarrow> (u64 \<Rightarrow> bool) \<Rightarrow> memory_region \<Rightarrow> u8 list option \<Rightarrow> job \<Rightarrow> bool" where
  "stage_ok api acc r c (Start sc) = (\<not> mem_reserved r \<and> \<not> scan_valid sc \<and> results sc = [])"
| "stage_ok api acc r c (Reserved sc) = (mem_reserved r \<and> \<not> scan_valid sc \<and> results sc = [])"
| "stage_ok api acc r c (Loaded sc) = (mem_reserved r \<and> scan_mode sc \<noteq> unknown_value
     \<and> (\<exists>bs. c = Some bs \<and> delivered api r True bs))"
| "stage_ok api acc r c (Done sc) = (mem_reserved r \<and> (\<exists>bs. c = Some bs \<and> outcome api acc sc r bs))"

definition job_ok :: "'w win32 \<Rightarrow> (u64 \<Rightarrow> bool) \<Rightarrow> job \<Rightarrow> u8 list option \<Rightarrow> bool" where
  "job_ok api acc j c \<longleftrightarrow> (\<exists>r. scan_region (job_scan j) = Some r \<and> region_ok r \<and> region_size r \<noteq> 0
     \<and> 0 < unat (elem_size (job_scan j)) \<and> stage_ok api acc r c j)"

definition job_range :: "job \<Rightarrow> range option" where
  "job_range j = scan_range (job_scan j)"

text \<open>The ranges of the tasks, by number, and of older holders behind them.\<close>

definition job_ranges :: "(nat \<Rightarrow> range option) \<Rightarrow> job list \<Rightarrow> nat \<Rightarrow> range option" where
  "job_ranges old jobs k = (if k < length jobs then job_range (jobs ! k) else old k)"

fun pending :: "job \<Rightarrow> nat" where
  "pending (Start sc) = (case scan_region sc of None \<Rightarrow> 0 | Some r \<Rightarrow> unat (region_size r))"
| "pending _ = 0"

definition pending_size :: "job list \<Rightarrow> nat" where
  "pending_size jobs = sum_list (map pending jobs)"

text \<open>How many of the tasks hold a pointer to map \<open>i\<close>.\<close>

definition job_uses :: "job list \<Rightarrow> nat \<Rightarrow> nat" where
  "job_uses jobs i = (\<Sum>j\<leftarrow>jobs. range_uses (job_range j) i)"

definition jobs_ok ::
  "'w win32 \<Rightarrow> (u64 \<Rightarrow> bool) \<Rightarrow> (nat \<Rightarrow> range option) \<Rightarrow> (nat \<Rightarrow> u8 list option) \<Rightarrow> (nat \<Rightarrow> nat) \<Rightarrow> nat
   \<Rightarrow> job list \<Rightarrow> 'w sys \<times> (nat \<Rightarrow> nat) \<Rightarrow> bool" where
  "jobs_ok api acc old old_c old_r cap jobs st \<longleftrightarrow> dump.holds api st (job_ranges old jobs)
     \<and> (\<forall>k < length jobs. job_ok api acc (jobs ! k) (dump.contents api st (job_ranges old jobs) k))
     \<and> (\<forall>k. length jobs \<le> k \<longrightarrow> dump.contents api st (job_ranges old jobs) k = old_c k)
     \<and> (\<forall>i. snd st i = old_r i + job_uses jobs i)
     \<and> cap \<le> 2 ^ 60 \<and> unat (foffset (dump_file (fst st))) + pending_size jobs \<le> cap"

text \<open>What no step changes.\<close>

definition job_static :: "job \<Rightarrow> mbi option \<times> u32 option \<times> scan_type \<times> u64" where
  "job_static j = (let sc = job_scan j in (map_option region_mbi (scan_region sc),
     map_option process_handle (scan_region sc), scan_mode sc, elem_size sc))"

definition reserve_failed :: "job \<Rightarrow> bool" where
  "reserve_failed j \<longleftrightarrow> (\<exists>sc r. j = Done sc \<and> scan_region sc = Some r \<and> \<not> mem_reserved r)"

lemma pending_size_update:
  "k < length jobs \<Longrightarrow> pending_size (jobs[k := j]) + pending (jobs ! k) = pending_size jobs + pending j"
  by (simp add: pending_size_def sum_list_map_update)

lemma job_uses_update:
  "k < length jobs \<Longrightarrow> job_uses (jobs[k := j]) i + range_uses (job_range (jobs ! k)) i = job_uses jobs i + range_uses (job_range j) i"
  using sum_list_map_update [of k jobs "\<lambda>j. range_uses (job_range j) i" j] by (simp add: job_uses_def)

lemma job_ranges_update: "k < length jobs \<Longrightarrow> job_ranges old (jobs[k := j]) = (job_ranges old jobs)(k := job_range j)"
  by (auto simp: job_ranges_def fun_eq_iff)

text \<open>One changed task, all the others as before.\<close>

lemma jobs_ok_update:
  assumes "jobs_ok api acc old old_c old_r cap jobs st" and "k < length jobs"
    and "dump.holds api st' ((job_ranges old jobs)(k := job_range j))"
    and "dump.contents api st' ((job_ranges old jobs)(k := job_range j))
      = (dump.contents api st (job_ranges old jobs))(k := c)"
    and "job_ok api acc j c"
    and "\<And>i. snd st' i + range_uses (job_range (jobs ! k)) i = snd st i + range_uses (job_range j) i"
    and "unat (foffset (dump_file (fst st'))) + pending_size (jobs[k := j]) \<le> cap"
  shows "jobs_ok api acc old old_c old_r cap (jobs[k := j]) st'"
proof -
  have "snd st' i = old_r i + job_uses (jobs[k := j]) i" for i
    using assms(1) assms(6) [of i] job_uses_update [OF assms(2), of j i] unfolding jobs_ok_def by fastforce
  with assms(1-5,7) show ?thesis
    unfolding jobs_ok_def job_ranges_update [OF assms(2)] by (auto simp: nth_list_update)
qed

lemma job_start_step:
  assumes inv: "jobs_ok api acc old old_c old_r cap jobs (s, refs)" and k: "k < length jobs" and j: "jobs ! k = Start sc"
  shows "\<exists>j' s'. job_step api cmp raw1 raw2 (Start sc) s = Inr (j', s') \<and> job_static j' = job_static (Start sc)
    \<and> (reserve_failed j' \<or> (\<exists>refs'. jobs_ok api acc old old_c old_r cap (jobs[k := j']) (s', refs')))"
proof -
  from inv k j obtain r where r: "scan_region sc = Some r" "region_ok r" "region_size r \<noteq> 0" "\<not> mem_reserved r"
    "0 < unat (elem_size sc)" "\<not> scan_valid sc" "results sc = []"
    by (fastforce simp: jobs_ok_def job_ok_def)
  have h: "dump.holds api (s, refs) (job_ranges old jobs)" using inv by (simp add: jobs_ok_def)
  then have di: "dump_inv api (s, refs)" by (simp add: dump.holds_def)
  have none: "job_ranges old jobs k = None"
    using k j r by (simp add: job_ranges_def job_range_def scan_range_def region_range_def)
  have "unat (region_size r) \<le> pending_size jobs"
    using pending_size_update [OF k, of "Done sc"] j r(1) by simp
  moreover have "0 < unat (region_size r)" using r(3) by (simp add: unat_gt_0)
  ultimately have room: "dump_room (s, refs) (unat (region_size r))"
    using inv by (simp add: jobs_ok_def dump_room_def)
  obtain ok r' s' where rs: "reserve api r s = Inr (ok, r', s')" "region_ok r'" "region_mbi r' = region_mbi r"
    "process_handle r' = process_handle r" "mem_reserved r' = ok"
    and al: "ok \<Longrightarrow> \<exists>x refs'. region_range r' = Some x
         \<and> dump_alloc api (unat (region_size r)) (s, refs) = Some (x, s', refs')"
    using reserve_spec [OF di room r(2,4)] by blast
  define sc' where "sc' = sc\<lparr>scan_region := Some r'\<rparr>"
  show ?thesis
  proof (cases ok)
    case False
    then have "job_step api cmp raw1 raw2 (Start sc) s = Inr (Done sc', s')" using r(1) rs(1) by (simp add: sc'_def)
    moreover have "reserve_failed (Done sc')" using False rs(5) by (simp add: reserve_failed_def sc'_def)
    ultimately show ?thesis using rs(3,4) r(1) by (auto simp: job_static_def sc'_def)
  next
    case True
    then have run: "job_step api cmp raw1 raw2 (Start sc) s = Inr (Reserved sc', s')" using r(1) rs(1) by (simp add: sc'_def)
    from al [OF True] obtain x refs' where x: "region_range r' = Some x"
      "dump_alloc api (unat (region_size r)) (s, refs) = Some (x, s', refs')" by blast
    have sz: "region_size r' = region_size r" using rs(3) by (simp add: region_size_def)
    have jr: "job_range (Reserved sc') = Some x" using x(1) by (simp add: job_range_def scan_range_def sc'_def)
    note ha = dump.holds_alloc [OF h room x(2) none]
    have "jobs_ok api acc old old_c old_r cap (jobs[k := Reserved sc']) (s', refs')"
    proof (rule jobs_ok_update [OF inv k])
      show "dump.holds api (s', refs') ((job_ranges old jobs)(k := job_range (Reserved sc')))" using ha(1) by (simp add: jr)
      show "dump.contents api (s', refs') ((job_ranges old jobs)(k := job_range (Reserved sc')))
        = (dump.contents api (s, refs) (job_ranges old jobs))(k := Some (replicate (unat (region_size r)) 0))"
        using ha(2) by (simp add: jr)
      show "job_ok api acc (Reserved sc') (Some (replicate (unat (region_size r)) 0))"
        using rs r True sz by (simp add: job_ok_def sc'_def)
      show "snd (s', refs') i + range_uses (job_range (jobs ! k)) i = snd (s, refs) i + range_uses (job_range (Reserved sc')) i" for i
      proof -
        obtain m p n where xx: "x = (m, p, n)" by (metis prod_cases3)
        have "job_range (jobs ! k) = None" using j r by (simp add: job_range_def scan_range_def region_range_def)
        with dump_alloc_wrote(3) [OF di room x(2) [unfolded xx]] show ?thesis by (simp add: jr xx range_uses_def)
      qed
      show "unat (foffset (dump_file (fst (s', refs')))) + pending_size (jobs[k := Reserved sc']) \<le> cap"
        using pending_size_update [OF k, of "Reserved sc'"] j r(1) inv dump_alloc_foffset [OF di room x(2)]
        by (simp add: jobs_ok_def)
    qed
    then show ?thesis using run rs(3,4) r(1) by (auto simp: job_static_def sc'_def)
  qed
qed

lemma job_reserved_step:
  assumes inv: "jobs_ok api acc old old_c old_r cap jobs (s, refs)" and k: "k < length jobs" and j: "jobs ! k = Reserved sc"
    and rpm: "rpm_docs api"
  shows "\<exists>j' s'. job_step api cmp raw1 raw2 (Reserved sc) s = Inr (j', s') \<and> job_static j' = job_static (Reserved sc)
    \<and> jobs_ok api acc old old_c old_r cap (jobs[k := j']) (s', refs)"
proof -
  from inv k j obtain r where r: "scan_region sc = Some r" "region_ok r" "region_size r \<noteq> 0" "mem_reserved r"
    "0 < unat (elem_size sc)" "\<not> scan_valid sc" "results sc = []"
    by (fastforce simp: jobs_ok_def job_ok_def)
  have h: "dump.holds api (s, refs) (job_ranges old jobs)" using inv by (simp add: jobs_ok_def)
  obtain x where x: "region_range r = Some x" using r(4) by (simp add: region_range_def)
  have jx: "job_ranges old jobs k = Some x" using k j r(1) x by (simp add: job_ranges_def job_range_def scan_range_def)
  have di: "dump_inv api (s, refs)" and lv: "dump_live api (s, refs) x"
    using h jx unfolding dump.holds_def by blast+
  obtain success bs s1 s' where f: "fetch api r s = Inr (success, s')" "dump_env api (s, refs) (s1, refs)"
    "(s', refs) = dump_fill api x bs (s1, refs)" "length bs \<le> unat (region_size r)"
    "success \<longrightarrow> length bs = unat (region_size r)"
    "fst (read_process_memory api (long_to_handle (process_handle r)) (region_base r) (region_size r) (world s))
        = (success, bs)"
    using fetch_spec [OF di rpm r(2) x lv] by blast
  obtain i p n where xx: "x = (i, p, n)" by (metis prod_cases3)
  have lc: "length (dump_content api (s, refs) x) = unat (region_size r)"
    using region_range_ok(4) [OF r(2) x [unfolded xx]] by (simp add: dump_content_def xx)
  then have len: "length bs \<le> length (dump_content api (s, refs) x)" using f(4) by simp
  note hf = shared_dump.holds_env_fill [OF h f(2) jx len, folded f(3)]
  define c where "c = overwrite bs (dump_content api (s, refs) x)"
  have same: "(job_ranges old jobs)(k := job_range j') = job_ranges old jobs"
    if "scan_region (job_scan j') = Some r" for j'
    using that jx x by (auto simp: job_range_def scan_range_def)
  have dl: "delivered api r success bs" using f(6) by (auto simp: delivered_def)
  have full: "success \<Longrightarrow> c = bs" using f(5) lc by (simp add: c_def overwrite_def)
  have df: "dump_file s' = dump_file s"
    using f(2,3) by (simp add: dump_fill_def xx dump_env_def)
  have upd: "jobs_ok api acc old old_c old_r cap (jobs[k := j']) (s', refs)"
    if "scan_region (job_scan j') = Some r" "job_ok api acc j' (Some c)" "pending j' = 0" for j'
  proof (rule jobs_ok_update [OF inv k])
    show "dump.holds api (s', refs) ((job_ranges old jobs)(k := job_range j'))"
      using hf(1) by (simp only: same [OF that(1)])
    show "dump.contents api (s', refs) ((job_ranges old jobs)(k := job_range j'))
      = (dump.contents api (s, refs) (job_ranges old jobs))(k := Some c)"
      using hf(2) by (simp only: same [OF that(1)] c_def)
    show "job_ok api acc j' (Some c)" by (rule that(2))
    show "snd (s', refs) i + range_uses (job_range (jobs ! k)) i = snd (s, refs) i + range_uses (job_range j') i" for i
      using that(1) j r(1) by (simp add: job_range_def scan_range_def)
    show "unat (foffset (dump_file (fst (s', refs)))) + pending_size (jobs[k := j']) \<le> cap"
      using pending_size_update [OF k, of j'] that(3) j inv by (simp add: jobs_ok_def df)
  qed
  show ?thesis
  proof (cases success)
    case False
    have "job_ok api acc (Done sc) (Some c)"
      using r False dl by (auto simp: job_ok_def outcome_def)
    with upd [of "Done sc"] r(1) False f(1) show ?thesis by (simp add: job_static_def)
  next
    case True
    show ?thesis
    proof (cases "scan_mode sc = unknown_value")
      case True
      have "job_ok api acc (Done (set_valid sc)) (Some c)"
        using r True \<open>success\<close> dl full by (auto simp: job_ok_def outcome_def set_valid_def)
      with upd [of "Done (set_valid sc)"] r(1) True \<open>success\<close> f(1) show ?thesis
        by (simp add: job_static_def set_valid_def)
    next
      case False
      have "job_ok api acc (Loaded sc) (Some c)"
        using r False \<open>success\<close> dl full by (auto simp: job_ok_def)
      with upd [of "Loaded sc"] r(1) False \<open>success\<close> f(1) show ?thesis by (simp add: job_static_def)
    qed
  qed
qed

lemma job_loaded_step:
  assumes inv: "jobs_ok api (\<lambda>v. cmp v raw1 raw2) old old_c old_r cap jobs (s, refs)" and k: "k < length jobs"
    and j: "jobs ! k = Loaded sc"
  shows "\<exists>j'. job_step api cmp raw1 raw2 (Loaded sc) s = Inr (j', s) \<and> job_static j' = job_static (Loaded sc)
    \<and> jobs_ok api (\<lambda>v. cmp v raw1 raw2) old old_c old_r cap (jobs[k := j']) (s, refs)"
proof -
  let ?c = "dump.contents api (s, refs) (job_ranges old jobs)"
  from inv k j obtain r bs where r: "scan_region sc = Some r" "region_ok r" "region_size r \<noteq> 0" "mem_reserved r"
    "0 < unat (elem_size sc)" "scan_mode sc \<noteq> unknown_value" "?c k = Some bs" "delivered api r True bs"
    by (fastforce simp: jobs_ok_def job_ok_def)
  obtain i p n where x: "region_range r = Some (i, p, n)" using r(4) by (auto simp: region_range_def)
  note rr = region_range_ok [OF r(2) x]
  have jx: "job_ranges old jobs k = Some (i, p, n)" using k j r(1) x by (simp add: job_ranges_def job_range_def scan_range_def)
  have bs: "bs = load_bytes api (world s) p (unat (region_size r))"
    using r(7) jx rr(4) by (simp add: dump.contents_def dump_content_def)
  define es where "es = accepted (\<lambda>v. cmp v raw1 raw2) (unat (elem_size sc)) bs"
  define sc' where "sc' = sc\<lparr>results := es, scan_valid := (es \<noteq> [])\<rparr>"
  have run: "job_step api cmp raw1 raw2 (Loaded sc) s = Inr (Done sc', s)"
    using search_value_eq [OF r(1) rr(5) r(5), of api cmp raw1 raw2 s]
    by (simp add: bs [symmetric] es_def [symmetric] sc'_def Let_def)
  have same: "(job_ranges old jobs)(k := job_range (Done sc')) = job_ranges old jobs"
    using jx r(1) x by (auto simp: job_range_def scan_range_def sc'_def)
  have "jobs_ok api (\<lambda>v. cmp v raw1 raw2) old old_c old_r cap (jobs[k := Done sc']) (s, refs)"
  proof (rule jobs_ok_update [OF inv k])
    show "dump.holds api (s, refs) ((job_ranges old jobs)(k := job_range (Done sc')))"
      using inv by (simp only: same jobs_ok_def)
    show "dump.contents api (s, refs) ((job_ranges old jobs)(k := job_range (Done sc'))) = ?c(k := Some bs)"
      using r(7) by (auto simp: same fun_eq_iff)
    show "job_ok api (\<lambda>v. cmp v raw1 raw2) (Done sc') (Some bs)"
      using r by (auto simp: job_ok_def sc'_def outcome_def es_def)
    show "snd (s, refs) i + range_uses (job_range (jobs ! k)) i = snd (s, refs) i + range_uses (job_range (Done sc')) i" for i
      using j by (simp add: job_range_def scan_range_def sc'_def)
    show "unat (foffset (dump_file (fst (s, refs)))) + pending_size (jobs[k := Done sc']) \<le> cap"
      using pending_size_update [OF k, of "Done sc'"] j inv by (simp add: jobs_ok_def)
  qed
  with run show ?thesis by (simp add: job_static_def sc'_def)
qed

subsection \<open>Running the tasks\<close>

text \<open>
  Environment: every reservation made on the way succeeds (there is disk and address space for the
  copies). No prefix of the run leaves a task that could not reserve.
\<close>

definition allocs_succeed ::
  "'w win32 \<Rightarrow> comparator_fn \<Rightarrow> u64 \<Rightarrow> u64 option \<Rightarrow> nat list \<Rightarrow> job list \<Rightarrow> 'w sys \<Rightarrow> bool" where
  "allocs_succeed api cmp raw1 raw2 ks jobs s \<longleftrightarrow> (\<forall>n jobs' s'.
     run_jobs api cmp raw1 raw2 (take n ks) jobs s = Inr (jobs', s') \<longrightarrow> (\<forall>j \<in> set jobs'. \<not> reserve_failed j))"

lemma allocs_succeed_step:
  assumes "allocs_succeed api cmp raw1 raw2 (k # ks) jobs s" and "k < length jobs"
    and "job_step api cmp raw1 raw2 (jobs ! k) s = Inr (j, s1)"
  shows "allocs_succeed api cmp raw1 raw2 ks (jobs[k := j]) s1" and "\<not> reserve_failed j"
proof -
  have step: "run_jobs api cmp raw1 raw2 (take (Suc n) (k # ks)) jobs s
      = run_jobs api cmp raw1 raw2 (take n ks) (jobs[k := j]) s1" for n
    using assms(2,3) by simp
  show "allocs_succeed api cmp raw1 raw2 ks (jobs[k := j]) s1"
    unfolding allocs_succeed_def
  proof (intro allI impI)
    fix n jobs' s'
    assume "run_jobs api cmp raw1 raw2 (take n ks) (jobs[k := j]) s1 = Inr (jobs', s')"
    then have "run_jobs api cmp raw1 raw2 (take (Suc n) (k # ks)) jobs s = Inr (jobs', s')" by (simp only: step)
    with assms(1) show "\<forall>j \<in> set jobs'. \<not> reserve_failed j" unfolding allocs_succeed_def by blast
  qed
  have "run_jobs api cmp raw1 raw2 (take 1 (k # ks)) jobs s = Inr (jobs[k := j], s1)"
    using step [of 0] by simp
  with assms(1) have "\<forall>j' \<in> set (jobs[k := j]). \<not> reserve_failed j'" unfolding allocs_succeed_def by blast
  then show "\<not> reserve_failed j" using set_update_memI [OF assms(2), of j] by blast
qed

lemma allocs_succeed_skip:
  assumes "allocs_succeed api cmp raw1 raw2 (k # ks) jobs s" and "\<not> k < length jobs"
  shows "allocs_succeed api cmp raw1 raw2 ks jobs s"
proof -
  have "run_jobs api cmp raw1 raw2 (take (Suc n) (k # ks)) jobs s = run_jobs api cmp raw1 raw2 (take n ks) jobs s" for n
    using assms(2) by simp
  with assms(1) show ?thesis unfolding allocs_succeed_def by metis
qed

lemma job_step_spec:
  assumes "jobs_ok api (\<lambda>v. cmp v raw1 raw2) old old_c old_r cap jobs (s, refs)" and "k < length jobs" and "rpm_docs api"
  shows "\<exists>j' s'. job_step api cmp raw1 raw2 (jobs ! k) s = Inr (j', s') \<and> job_static j' = job_static (jobs ! k)
    \<and> (reserve_failed j' \<or> (\<exists>refs'. jobs_ok api (\<lambda>v. cmp v raw1 raw2) old old_c old_r cap (jobs[k := j']) (s', refs')))"
proof (cases "jobs ! k")
  case (Start sc)
  from job_start_step [OF assms(1,2) Start] show ?thesis unfolding Start .
next
  case (Reserved sc)
  from job_reserved_step [OF assms(1,2) Reserved assms(3)] show ?thesis unfolding Reserved by blast
next
  case (Loaded sc)
  from job_loaded_step [where cmp = cmp and ?raw1.0 = raw1 and ?raw2.0 = raw2, OF assms(1,2) Loaded] show ?thesis unfolding Loaded by blast
next
  case (Done sc)
  then have "jobs[k := Done sc] = jobs" by (metis list_update_id)
  with assms(1) show ?thesis by (auto simp: Done)
qed

lemma run_jobs_spec:
  assumes "jobs_ok api (\<lambda>v. cmp v raw1 raw2) old old_c old_r cap jobs (s, refs)" and "rpm_docs api"
    and "allocs_succeed api cmp raw1 raw2 ks jobs s"
  shows "\<exists>jobs' s' refs'. run_jobs api cmp raw1 raw2 ks jobs s = Inr (jobs', s')
    \<and> map job_static jobs' = map job_static jobs
    \<and> jobs_ok api (\<lambda>v. cmp v raw1 raw2) old old_c old_r cap jobs' (s', refs')"
  using assms(1,3)
proof (induction ks arbitrary: jobs s refs)
  case Nil
  then show ?case by auto
next
  case (Cons k ks)
  show ?case
  proof (cases "k < length jobs")
    case False
    with Cons.IH [OF Cons.prems(1) allocs_succeed_skip [OF Cons.prems(2) False]] show ?thesis by simp
  next
    case True
    obtain j s1 where st: "job_step api cmp raw1 raw2 (jobs ! k) s = Inr (j, s1)" "job_static j = job_static (jobs ! k)"
      "reserve_failed j \<or> (\<exists>refs'. jobs_ok api (\<lambda>v. cmp v raw1 raw2) old old_c old_r cap (jobs[k := j]) (s1, refs'))"
      using job_step_spec [where cmp = cmp and ?raw1.0 = raw1 and ?raw2.0 = raw2, OF Cons.prems(1) True assms(2)]
      by blast
    note al = allocs_succeed_step [OF Cons.prems(2) True st(1)]
    then obtain refs' where ok: "jobs_ok api (\<lambda>v. cmp v raw1 raw2) old old_c old_r cap (jobs[k := j]) (s1, refs')"
      using st(3) by blast
    have "map job_static (jobs[k := j]) = map job_static jobs"
      using st(2) True by (simp add: map_update list_update_same_conv)
    with Cons.IH [OF ok al(1)] st(1) True show ?thesis by simp
  qed
qed

text \<open>Three steps of a task bring it to its end, and steps of others do not undo it.\<close>

fun job_rank :: "job \<Rightarrow> nat" where
  "job_rank (Start _) = 3"
| "job_rank (Reserved _) = 2"
| "job_rank (Loaded _) = 1"
| "job_rank (Done _) = 0"

lemma job_step_rank:
  "job_step api cmp raw1 raw2 j s = Inr (j', s') \<Longrightarrow> job_rank j' \<le> job_rank j - 1"
  by (cases j) (auto simp: Let_def split: option.splits sum.splits prod.splits if_splits)

lemma run_jobs_rank:
  "run_jobs api cmp raw1 raw2 ks jobs s = Inr (jobs', s') \<Longrightarrow> k < length jobs \<Longrightarrow>
   length jobs' = length jobs \<and> job_rank (jobs' ! k) \<le> job_rank (jobs ! k) - count_list ks k"
proof (induction ks arbitrary: jobs s)
  case Nil
  then show ?case by simp
next
  case (Cons i ks)
  show ?case
  proof (cases "i < length jobs")
    case False
    with Cons.IH [of jobs s] Cons.prems show ?thesis by auto
  next
    case True
    with Cons.prems(1) obtain j s1 where st: "job_step api cmp raw1 raw2 (jobs ! i) s = Inr (j, s1)"
      "run_jobs api cmp raw1 raw2 ks (jobs[i := j]) s1 = Inr (jobs', s')"
      by (auto split: sum.splits)
    from job_step_rank [OF st(1)] Cons.IH [OF st(2)] Cons.prems(2) True show ?thesis
      by (cases "i = k") auto
  qed
qed

lemma count_finish_schedule: "k < n \<Longrightarrow> count_list (finish_schedule n) k = 3"
proof (induction n)
  case (Suc n)
  have nil: "count_list (finish_schedule n) n = 0"
    by (auto simp: finish_schedule_def count_list_0_iff)
  have "finish_schedule (Suc n) = finish_schedule n @ [n, n, n]" by (simp add: finish_schedule_def)
  with Suc nil show ?case by (cases "k = n") (auto simp: numeral_3_eq_3)
qed simp

lemma run_jobs_all_done:
  assumes "run_jobs api cmp raw1 raw2 (ks @ finish_schedule (length jobs)) jobs s = Inr (jobs', s')"
    and "j \<in> set jobs'"
  shows "\<exists>sc. j = Done sc"
proof -
  obtain k where k: "k < length jobs'" "j = jobs' ! k" using assms(2) by (metis in_set_conv_nth)
  have len: "length jobs' = length jobs"
  proof (cases "jobs = []")
    case True
    have "run_jobs api cmp raw1 raw2 xs [] s = Inr ([], s)" for xs by (induction xs) simp_all
    with assms(1) True show ?thesis by simp
  next
    case False
    then show ?thesis using run_jobs_rank [OF assms(1), of 0] by simp
  qed
  have "job_rank (jobs' ! k) \<le> job_rank (jobs ! k) - count_list (ks @ finish_schedule (length jobs)) k"
    using run_jobs_rank [OF assms(1), of k] k(1) len by simp
  moreover have "job_rank (jobs ! k) \<le> 3" by (cases "jobs ! k") simp_all
  ultimately have "job_rank j = 0" using count_finish_schedule [of k "length jobs"] k len by simp
  then show ?thesis by (cases j) simp_all
qed

subsection \<open>Collecting the futures\<close>

text \<open>Destroying the scans without results leaves the copies of the others as they are.\<close>

lemma collect_spec:
  assumes "scans_ok api s (found @ scs @ olds)"
  shows "\<exists>s'. collect api scs found s = (found @ filter scan_valid scs, s')
    \<and> scans_ok api s' (found @ filter scan_valid scs @ olds)
    \<and> snapshots_kept api s s' (found @ filter scan_valid scs @ olds) \<and> dump_file s' = dump_file s"
  using assms
proof (induction scs arbitrary: found s)
  case Nil
  then show ?case by simp
next
  case (Cons sc scs)
  show ?case
  proof (cases "scan_valid sc")
    case True
    with Cons.IH [of s "found @ [sc]"] Cons.prems show ?thesis by simp
  next
    case False
    define s1 where "s1 = scan_destroy api sc s"
    have "scans_ok api s (found @ sc # scs @ olds)" using Cons.prems by simp
    note d = scans_ok_destroy [OF this, folded s1_def]
    from Cons.IH [OF d(1)] obtain s' where "collect api scs found s1 = (found @ filter scan_valid scs, s')"
      "scans_ok api s' (found @ filter scan_valid scs @ olds)"
      "snapshots_kept api s1 s' (found @ filter scan_valid scs @ olds)" "dump_file s' = dump_file s1" by blast
    moreover have "snapshots_kept api s s1 (found @ filter scan_valid scs @ olds)"
      using d(2) by (auto simp: snapshots_kept_def)
    ultimately show ?thesis
      using False snapshots_kept_trans by (auto simp: s1_def)
  qed
qed

text \<open>The ranges of the older scans, behind those of the tasks.\<close>

definition older_ranges :: "nat \<Rightarrow> scan list \<Rightarrow> nat \<Rightarrow> range option" where
  "older_ranges n olds k = (if k < n then None else scan_ranges olds (k - n))"

lemma holds_older:
  assumes "scans_ok api s olds"
  shows "dump.holds api (s, scan_uses olds) (older_ranges n olds)"
proof (rule dump.holds_rekey)
  show "dump.holds api (s, scan_uses olds) (scan_ranges olds)" using assms by (simp add: scans_ok_def)
  show "inj_on (\<lambda>k. k - n) {k. older_ranges n olds k \<noteq> None}"
    by (auto simp: inj_on_def older_ranges_def split: if_splits)
  show "scan_ranges olds (k - n) = Some r" if "older_ranges n olds k = Some r" for k r
    using that by (simp add: older_ranges_def split: if_splits)
qed

text \<open>When every task is done, the scans of the tasks are held beside the older ones.\<close>

lemma jobs_done_scans:
  assumes ok: "jobs_ok api acc (older_ranges (length jobs) olds) c (scan_uses olds) cap jobs (s, refs)"
    and fin: "\<And>j. j \<in> set jobs \<Longrightarrow> \<exists>sc. j = Done sc" and cp: "\<And>sc. sc \<in> set olds \<Longrightarrow> copied sc"
  shows "scans_ok api s (map job_scan jobs @ olds)"
    and "job_ranges (older_ranges (length jobs) olds) jobs = scan_ranges (map job_scan jobs @ olds)"
    and "refs = scan_uses (map job_scan jobs @ olds)"
proof -
  let ?scs = "map job_scan jobs @ olds"
  show r: "job_ranges (older_ranges (length jobs) olds) jobs = scan_ranges ?scs"
    by (auto simp: job_ranges_def older_ranges_def scan_ranges_def job_range_def fun_eq_iff nth_append)
  show u: "refs = scan_uses ?scs"
    using ok by (auto simp: jobs_ok_def fun_eq_iff job_uses_def scan_uses_def job_range_def comp_def)
  have "copied sc" if "sc \<in> set (map job_scan jobs)" for sc
  proof -
    from that obtain k where k: "k < length jobs" "sc = job_scan (jobs ! k)" by (auto simp: in_set_conv_nth)
    with fin [of "jobs ! k"] have j: "jobs ! k = Done sc" by auto
    from ok k(1) j show ?thesis unfolding jobs_ok_def job_ok_def copied_def by fastforce
  qed
  with cp ok show "scans_ok api s ?scs" by (auto simp: scans_ok_def jobs_ok_def r u [symmetric])
qed

subsection \<open>The whole scan\<close>

definition start_scan :: "scan_type \<Rightarrow> u64 \<Rightarrow> memory_region \<Rightarrow> scan" where
  "start_scan type es r =
     \<lparr>scan_region = Some r, scan_mode = type, elem_size = es, scan_valid = False, results = []\<rparr>"

lemma element_size_cases: "element_size et = 1 \<or> element_size et = 2 \<or> element_size et = 4 \<or> element_size et = 8"
  by (cases et) simp_all

lemma element_size_pos [simp]: "0 < unat (element_size et)"
  by (cases et) simp_all

lemma make_jobs_eq: "make_jobs type (element_size et) rs = Inr (map (\<lambda>r. Start (start_scan type (element_size et) r)) rs)"
  using element_size_cases [of et] by (induction rs) (auto simp: new_scan_def start_scan_def)

lemma start_jobs_ok:
  assumes "scans_ok api s olds" and "fresh_regions rs" and "cap \<le> 2 ^ 60"
    and "unat (foffset (dump_file s)) + (\<Sum>r\<leftarrow>rs. unat (region_size r)) \<le> cap"
  shows "jobs_ok api acc (older_ranges (length rs) olds) (dump.contents api (s, scan_uses olds) (older_ranges (length rs) olds))
    (scan_uses olds) cap (map (\<lambda>r. Start (start_scan type (element_size et) r)) rs) (s, scan_uses olds)"
proof -
  let ?jobs = "map (\<lambda>r. Start (start_scan type (element_size et) r)) rs"
  let ?old = "older_ranges (length rs) olds"
  have jr: "job_range (Start (start_scan type (element_size et) r)) = None" if "r \<in> set rs" for r
    using assms(2) that by (simp add: job_range_def scan_range_def start_scan_def region_range_def fresh_regions_def)
  then have eq: "job_ranges ?old ?jobs = ?old"
    by (auto simp: job_ranges_def older_ranges_def fun_eq_iff)
  have "job_uses ?jobs i = 0" for i
  proof -
    have "map (\<lambda>j. range_uses (job_range j) i) ?jobs = map (\<lambda>_. 0) rs" using jr by (simp add: range_uses_def)
    then have "sum_list (map (\<lambda>j. range_uses (job_range j) i) ?jobs) = sum_list (map (\<lambda>_. 0::nat) rs)" by (rule arg_cong)
    then show ?thesis by (simp add: job_uses_def sum_list_triv)
  qed
  moreover have "pending_size ?jobs = (\<Sum>r\<leftarrow>rs. unat (region_size r))"
    by (simp add: pending_size_def comp_def start_scan_def)
  moreover have "job_ok api acc (?jobs ! k) c" if "k < length rs" for k c
    using assms(2) nth_mem [OF that] that by (auto simp: job_ok_def start_scan_def fresh_regions_def)
  ultimately show ?thesis using assms(3,4) holds_older [OF assms(1)] by (simp add: jobs_ok_def eq)
qed

text \<open>
  What a scan of the results holds, in a given state: the whole copy of its region, as it was
  delivered, and every match in it.
\<close>

definition scan_exact :: "'w win32 \<Rightarrow> (u64 \<Rightarrow> bool) \<Rightarrow> scan_type \<Rightarrow> u64 \<Rightarrow> 'w sys \<Rightarrow> memory_region \<Rightarrow> scan \<Rightarrow> bool" where
  "scan_exact api acc type es s r sc \<longleftrightarrow> (\<exists>r'. scan_region sc = Some r' \<and> region_mbi r' = region_mbi r
     \<and> scan_mode sc = type \<and> elem_size sc = es \<and> snd (raw_bytes r') = region_size r
     \<and> delivered api r True (load_bytes api (world s) (fst (raw_bytes r')) (unat (region_size r)))
     \<and> (if type = unknown_value then results sc = []
        else results sc \<noteq> [] \<and> results sc
          = accepted acc (unat es) (load_bytes api (world s) (fst (raw_bytes r')) (unat (region_size r)))))"

definition scan_missing :: "'w win32 \<Rightarrow> (u64 \<Rightarrow> bool) \<Rightarrow> scan_type \<Rightarrow> u64 \<Rightarrow> memory_region \<Rightarrow> bool" where
  "scan_missing api acc type es r \<longleftrightarrow> (\<exists>part. delivered api r False part)
     \<or> (type \<noteq> unknown_value \<and> (\<exists>bs. delivered api r True bs \<and> accepted acc (unat es) bs = []))"

lemma region_mbi_cong:
  "region_mbi r = region_mbi r' \<Longrightarrow> region_base r = region_base r' \<and> region_size r = region_size r'"
  by (simp add: region_base_def region_size_def)

lemma delivered_cong:
  "region_mbi r = region_mbi r' \<Longrightarrow> process_handle r = process_handle r' \<Longrightarrow> delivered api r = delivered api r'"
  using region_mbi_cong [of r r'] by (simp add: delivered_def fun_eq_iff)

text \<open>What is known of a finished task, by its number.\<close>

lemma finished_job:
  assumes ok: "jobs_ok api acc old c refs0 cap jobs (s, refs)" and k: "k < length jobs" and d: "jobs ! k = Done sc"
    and st: "job_static (Done sc) = job_static (Start (start_scan type es r))"
  shows "\<exists>r' x bs. scan_region sc = Some r' \<and> region_ok r' \<and> region_range r' = Some x
    \<and> region_mbi r' = region_mbi r \<and> process_handle r' = process_handle r
    \<and> scan_mode sc = type \<and> elem_size sc = es
    \<and> dump.contents api (s, refs) (job_ranges old jobs) k = Some bs \<and> outcome api acc sc r' bs"
proof -
  from ok k d obtain r' bs where r: "scan_region sc = Some r'" "region_ok r'" "mem_reserved r'"
    "dump.contents api (s, refs) (job_ranges old jobs) k = Some bs" "outcome api acc sc r' bs"
    unfolding jobs_ok_def job_ok_def by fastforce
  have "region_mbi r' = region_mbi r" "process_handle r' = process_handle r" "scan_mode sc = type" "elem_size sc = es"
    using st r(1) by (simp_all add: job_static_def start_scan_def)
  moreover obtain x where "region_range r' = Some x" using r(3) by (simp add: region_range_def)
  ultimately show ?thesis using r by blast
qed

lemma outcome_exact:
  assumes "scan_region sc = Some r'" and "region_ok r'" and "region_range r' = Some x" and "region_mbi r' = region_mbi r"
    and "process_handle r' = process_handle r" and "scan_mode sc = type" and "elem_size sc = es" and "outcome api acc sc r' bs"
    and "scan_valid sc \<Longrightarrow> scan_snapshot api s sc = bs"
  shows "if scan_valid sc then scan_exact api acc type es s r sc else scan_missing api acc type es r"
proof -
  obtain i p n where x: "x = (i, p, n)" by (metis prod_cases3)
  note rr = region_range_ok [OF assms(2) assms(3) [unfolded x]]
  note same = region_mbi_cong [OF assms(4)] delivered_cong [OF assms(4,5), of api]
  show ?thesis
  proof (cases "scan_valid sc")
    case True
    then have "load_bytes api (world s) p (unat (region_size r)) = bs"
      using assms(1,9) rr(5) same by (simp add: scan_snapshot_def)
    with True assms(1,4,6-8) rr(5) same show ?thesis by (auto simp: scan_exact_def outcome_def)
  next
    case False
    with assms(6-8) same show ?thesis by (auto simp: scan_missing_def outcome_def split: if_splits)
  qed
qed

lemma first_scan_spec:
  assumes "query_docs api" and rpm: "rpm_docs api" and olds: "scans_ok api s olds"
    and regions: "get_regions api h (lo, hi) protect (world s) = Some rs"
    and room: "unat (foffset (dump_file s)) + (\<Sum>r\<leftarrow>rs. unat (region_size r)) \<le> 2 ^ 60"
    and al: "allocs_succeed api (make_comparator type et) raw1 raw2 (ks @ finish_schedule (length rs))
      (map (\<lambda>r. Start (start_scan type (element_size et) r)) rs) s"
  shows "\<exists>scs s'. first_scan api ks h (lo, hi) protect type et raw1 raw2 s = Some (Inr (filter scan_valid scs, s'))
    \<and> length scs = length rs
    \<and> sorted_wrt (\<lambda>a b. scan_base a < scan_base b) (filter scan_valid scs)
    \<and> (\<forall>k < length rs. if scan_valid (scs ! k)
         then scan_exact api (\<lambda>v. make_comparator type et v raw1 raw2) type (element_size et) s' (rs ! k) (scs ! k)
         else scan_missing api (\<lambda>v. make_comparator type et v raw1 raw2) type (element_size et) (rs ! k))
    \<and> scans_ok api s' (filter scan_valid scs @ olds) \<and> snapshots_kept api s s' olds
    \<and> unat (foffset (dump_file s')) \<le> unat (foffset (dump_file s)) + (\<Sum>r\<leftarrow>rs. unat (region_size r))"
proof -
  let ?acc = "\<lambda>v. make_comparator type et v raw1 raw2" and ?old = "older_ranges (length rs) olds"
  let ?cap = "unat (foffset (dump_file s)) + (\<Sum>r\<leftarrow>rs. unat (region_size r))"
  let ?c = "dump.contents api (s, scan_uses olds) ?old"
  define jobs where "jobs = map (\<lambda>r. Start (start_scan type (element_size et) r)) rs"
  note fresh = get_regions_fresh [OF assms(1) regions]
  have "jobs_ok api ?acc ?old ?c (scan_uses olds) ?cap jobs (s, scan_uses olds)"
    unfolding jobs_def by (rule start_jobs_ok [OF olds fresh(1) room order_refl])
  from run_jobs_spec [OF this rpm al [folded jobs_def]] obtain jobs' s1 refs1 where
    run: "run_jobs api (make_comparator type et) raw1 raw2 (ks @ finish_schedule (length rs)) jobs s = Inr (jobs', s1)"
    and st: "map job_static jobs' = map job_static jobs"
    and ok: "jobs_ok api ?acc ?old ?c (scan_uses olds) ?cap jobs' (s1, refs1)"
    by blast
  have len: "length jobs' = length rs" using map_eq_imp_length_eq [OF st] by (simp add: jobs_def)
  have fin: "\<exists>sc. j = Done sc" if "j \<in> set jobs'" for j
    using run_jobs_all_done [of api _ raw1 raw2 ks jobs s jobs' s1 j] run that by (simp add: jobs_def)
  define scs where "scs = map job_scan jobs'"
  have scs: "length scs = length rs" by (simp add: scs_def len)
  have cp: "copied sc" if "sc \<in> set olds" for sc using olds that by (simp add: scans_ok_def)
  note held = jobs_done_scans [OF ok [folded len] fin cp, folded scs_def]
  obtain s' where col: "collect api scs [] s1 = (filter scan_valid scs, s')"
    and s': "scans_ok api s' (filter scan_valid scs @ olds)" "snapshots_kept api s1 s' (filter scan_valid scs @ olds)"
      "dump_file s' = dump_file s1"
    using collect_spec [of api s1 "[]" scs olds] held(1) by auto
  have info: "\<exists>r' x bs. scan_region (scs ! k) = Some r' \<and> region_ok r' \<and> region_range r' = Some x
      \<and> region_mbi r' = region_mbi (rs ! k) \<and> process_handle r' = process_handle (rs ! k)
      \<and> scan_mode (scs ! k) = type \<and> elem_size (scs ! k) = element_size et
      \<and> scan_snapshot api s1 (scs ! k) = bs \<and> outcome api ?acc (scs ! k) r' bs" if k: "k < length rs" for k
  proof -
    from fin [of "jobs' ! k"] k len obtain sc where sc: "jobs' ! k = Done sc" by auto
    have "job_static (jobs' ! k) = job_static (jobs ! k)" using st k len by (metis length_map nth_map)
    then have "job_static (Done sc) = job_static (Start (start_scan type (element_size et) (rs ! k)))"
      using k by (simp add: sc jobs_def)
    moreover have sck: "scs ! k = sc" using k len sc by (simp add: scs_def)
    moreover have kl: "k < length (scs @ olds)" "(scs @ olds) ! k = sc" using k scs sck by (simp_all add: nth_append)
    then have "copied ((scs @ olds) ! k)" using held(1) unfolding scans_ok_def by (metis nth_mem)
    then have "dump.contents api (s1, refs1) (job_ranges ?old jobs') k = Some (scan_snapshot api s1 sc)"
      using scan_snapshot_content [OF kl(1)] held(2) len kl(2) by metis
    ultimately show ?thesis using finished_job [OF ok _ sc] k len by force
  qed
  have base: "scan_base (scs ! k) = region_base (rs ! k)" if "k < length rs" for k
  proof -
    from info [OF that] obtain r' where "scan_region (scs ! k) = Some r'" "region_mbi r' = region_mbi (rs ! k)" by blast
    then show ?thesis using region_mbi_cong [of r' "rs ! k"] by (simp add: scan_base_def)
  qed
  have "map scan_base scs = map region_base rs" using base scs by (intro nth_equalityI) simp_all
  then have "sorted_wrt (<) (map scan_base scs)" using fresh(2) by (simp add: sorted_wrt_map)
  then have sorted: "sorted_wrt (\<lambda>a b. scan_base a < scan_base b) (filter scan_valid scs)"
    by (simp add: sorted_wrt_map sorted_wrt_filter)
  then have "sorted (map scan_base (filter scan_valid scs))"
    by (simp add: sorted_wrt_map sorted_wrt_mono_rel [where P = "\<lambda>a b. scan_base a < scan_base b"])
  then have "sort_key scan_base (filter scan_valid scs) = filter scan_valid scs" by (rule sort_key_id_if_sorted)
  then have fs: "first_scan api ks h (lo, hi) protect type et raw1 raw2 s = Some (Inr (filter scan_valid scs, s'))"
    using regions run col by (simp add: first_scan_def make_jobs_eq jobs_def [symmetric] scs_def) (simp add: jobs_def)
  have each: "if scan_valid (scs ! k) then scan_exact api ?acc type (element_size et) s' (rs ! k) (scs ! k)
      else scan_missing api ?acc type (element_size et) (rs ! k)" if k: "k < length rs" for k
  proof -
    from info [OF k] obtain r' x where i: "scan_region (scs ! k) = Some r'" "region_ok r'" "region_range r' = Some x"
      "region_mbi r' = region_mbi (rs ! k)" "process_handle r' = process_handle (rs ! k)"
      "scan_mode (scs ! k) = type" "elem_size (scs ! k) = element_size et"
      "outcome api ?acc (scs ! k) r' (scan_snapshot api s1 (scs ! k))" by blast
    have "scan_snapshot api s' (scs ! k) = scan_snapshot api s1 (scs ! k)" if "scan_valid (scs ! k)"
      using s'(2) that k scs by (auto simp: snapshots_kept_def)
    from outcome_exact [OF i this] show ?thesis .
  qed
  have kept: "snapshots_kept api s s1 olds"
    unfolding snapshots_kept_def
  proof
    fix sc
    assume "sc \<in> set olds"
    then obtain k where k: "k < length olds" "sc = olds ! k" by (metis in_set_conv_nth)
    let ?k = "length rs + k"
    have "copied ((scs @ olds) ! ?k)" using cp k scs by (simp add: nth_append)
    then have "dump.contents api (s1, refs1) (job_ranges ?old jobs') ?k = Some (scan_snapshot api s1 sc)"
      using scan_snapshot_content [of ?k "scs @ olds"] k scs held(2) len by (simp add: nth_append)
    moreover have "?c ?k = Some (scan_snapshot api s sc)"
      using scan_snapshot_content [of k olds api s] cp k by (simp add: dump.contents_def older_ranges_def)
    ultimately show "scan_snapshot api s1 sc = scan_snapshot api s sc"
      using ok len by (simp add: jobs_ok_def)
  qed
  have "unat (foffset (dump_file s')) \<le> ?cap" using ok s'(3) by (simp add: jobs_ok_def)
  with fs scs sorted each s' kept show ?thesis
    by (intro exI [of _ scs] exI [of _ s']) (auto intro: snapshots_kept_trans)
qed


subsection \<open>Properties\<close>

text \<open>
  C1: a first scan finds every match, whatever the interleaving of its tasks. With the copies of
  earlier scans (\<open>olds\<close>, perhaps none) in the dump file, for every schedule, \<open>first_scan\<close> returns; there is one scan per
  region of the range, in ascending order of the bases, less the scans without a hit. A scan that
  is kept holds a whole copy of its region and, except for an unknown first value, all the
  elements of the copy that the comparator accepts and no others; a scan that is left out is that
  of a region that could not be read or in whose bytes nothing is accepted. The reservations are
  assumed to succeed, and the dump file to stay below 2^60 bytes.
\<close>

theorem first_scan_exact:
  assumes "query_docs api" and "rpm_docs api" and "scans_ok api s olds"
    and "get_regions api h (lo, hi) protect (world s) = Some rs"
    and "unat (foffset (dump_file s)) + (\<Sum>r\<leftarrow>rs. unat (region_size r)) \<le> 2 ^ 60"
    and "allocs_succeed api (make_comparator type et) raw1 raw2 (ks @ finish_schedule (length rs))
      (map (\<lambda>r. Start (start_scan type (element_size et) r)) rs) s"
  shows "\<exists>scs s'. first_scan api ks h (lo, hi) protect type et raw1 raw2 s = Some (Inr (filter scan_valid scs, s'))
    \<and> length scs = length rs
    \<and> sorted_wrt (\<lambda>a b. scan_base a < scan_base b) (filter scan_valid scs)
    \<and> (\<forall>k < length rs. if scan_valid (scs ! k)
         then scan_exact api (\<lambda>v. make_comparator type et v raw1 raw2) type (element_size et) s' (rs ! k) (scs ! k)
         else scan_missing api (\<lambda>v. make_comparator type et v raw1 raw2) type (element_size et) (rs ! k))"
  using first_scan_spec [OF assms] by blast

lemma allocs_succeed_Nil: "\<forall>j \<in> set jobs. \<not> reserve_failed j \<Longrightarrow> allocs_succeed api cmp raw1 raw2 [] jobs s"
  by (simp add: allocs_succeed_def)

lemma allocs_succeed_Cons:
  assumes "allocs_succeed api cmp raw1 raw2 ks (jobs[k := j]) s1" and "k < length jobs"
    and "job_step api cmp raw1 raw2 (jobs ! k) s = Inr (j, s1)" and "\<forall>j \<in> set jobs. \<not> reserve_failed j"
  shows "allocs_succeed api cmp raw1 raw2 (k # ks) jobs s"
  unfolding allocs_succeed_def
proof (intro allI impI)
  fix n jobs' s'
  assume r: "run_jobs api cmp raw1 raw2 (take n (k # ks)) jobs s = Inr (jobs', s')"
  show "\<forall>j \<in> set jobs'. \<not> reserve_failed j"
  proof (cases n)
    case 0
    with r assms(4) show ?thesis by simp
  next
    case (Suc m)
    with r assms(2,3) have "run_jobs api cmp raw1 raw2 (take m ks) (jobs[k := j]) s1 = Inr (jobs', s')" by simp
    with assms(1) show ?thesis unfolding allocs_succeed_def by blast
  qed
qed

text \<open>Past the reservation nothing fails.\<close>

definition past_reserve :: "job \<Rightarrow> bool" where
  "past_reserve j \<longleftrightarrow> (\<forall>sc. j \<noteq> Start sc) \<and> (\<exists>r. scan_region (job_scan j) = Some r \<and> mem_reserved r)"

lemma past_reserve_step:
  "past_reserve j \<Longrightarrow> job_step api cmp raw1 raw2 j s = Inr (j', s') \<Longrightarrow> past_reserve j'"
  by (cases j)
    (auto simp: past_reserve_def set_valid_def search_value_def Let_def split: option.splits sum.splits prod.splits if_splits)

lemma past_reserve_not_failed: "past_reserve j \<Longrightarrow> \<not> reserve_failed j"
  by (auto simp: past_reserve_def reserve_failed_def)

lemma allocs_succeed_past:
  assumes "\<forall>j \<in> set jobs. past_reserve j"
  shows "allocs_succeed api cmp raw1 raw2 ks jobs s"
proof -
  have "\<forall>j \<in> set jobs'. past_reserve j"
    if "run_jobs api cmp raw1 raw2 xs jobs s = Inr (jobs', s')" "\<forall>j \<in> set jobs. past_reserve j" for xs jobs s jobs' s'
    using that
  proof (induction xs arbitrary: jobs s)
    case (Cons k xs)
    show ?case
    proof (cases "k < length jobs")
      case True
      with Cons.prems(1) obtain j s1 where st: "job_step api cmp raw1 raw2 (jobs ! k) s = Inr (j, s1)"
        "run_jobs api cmp raw1 raw2 xs (jobs[k := j]) s1 = Inr (jobs', s')"
        by (auto split: sum.splits)
      have "past_reserve j" using past_reserve_step [OF _ st(1)] Cons.prems(2) True by simp
      then have "\<forall>j' \<in> set (jobs[k := j]). past_reserve j'"
        using Cons.prems(2) set_update_subset_insert [of jobs k j] by blast
      with Cons.IH [OF st(2)] show ?thesis by blast
    qed (use Cons in simp)
  qed simp
  with assms past_reserve_not_failed show ?thesis unfolding allocs_succeed_def by blast
qed

text \<open>The sample target, and a scan for the byte 5 in its first eight bytes.\<close>

lemma sample_regions:
  "get_regions sample_api 7 (0x10000, 0x10008) 4 (world (sample_sys [sample_mbi] ucast)) = Some [sample_region]"
proof -
  let ?m = "sample_mbi\<lparr>RegionSize := 8\<rparr>"
  have "clip_region 0x10000 0x10008 sample_mbi = ?m" by (simp add: clip_region_def)
  moreover have "scannable 4 (new_region ?m 7)"
    by (simp add: scannable_def has_protection_flags_def is_commited_def is_memmapped_def MEM_MAPPED_def)
  moreover have "virtual_query sample_api (long_to_handle 7) 0x10000 (world (sample_sys [sample_mbi] ucast)) = Some sample_mbi"
    by (simp add: sample_query_world sample_query_sample_mbi)
  ultimately show ?thesis
    by (simp add: get_regions_def region_walk_step region_walk_stop sample_region_def)
qed

lemma sample_start:
  "case job_step sample_api cmp raw1 raw2 (Start (start_scan type (element_size et) sample_region))
      (sample_sys [sample_mbi] ucast) of
     Inr (Reserved sc, s) \<Rightarrow> past_reserve (Reserved sc) | _ \<Rightarrow> False"
  by (simp add: past_reserve_def start_scan_def reserve_def alloc_f_def dump_def write_data_def sample_region_def
      new_region_def new_dumpable_def region_size_def region_base_def sample_write_defs)

lemma sample_allocs_succeed:
  "allocs_succeed sample_api cmp raw1 raw2 (0 # ks)
     (map (\<lambda>r. Start (start_scan type (element_size et) r)) [sample_region]) (sample_sys [sample_mbi] ucast)"
proof -
  let ?j = "Start (start_scan type (element_size et) sample_region)"
  obtain j s where j: "job_step sample_api cmp raw1 raw2 ?j (sample_sys [sample_mbi] ucast) = Inr (j, s)" "past_reserve j"
    using sample_start [of cmp raw1 raw2 type et] by (auto split: sum.splits prod.splits job.splits)
  show ?thesis
    by (rule allocs_succeed_Cons [where j = j and ?s1.0 = s])
      (use j in \<open>simp_all add: allocs_succeed_past reserve_failed_def\<close>)
qed

lemma still_start:
  "case job_step still_api cmp raw1 raw2 (Start (start_scan type (element_size et) sample_region))
      (sample_sys [sample_mbi] ucast) of
     Inr (Reserved sc, s) \<Rightarrow> past_reserve (Reserved sc) | _ \<Rightarrow> False"
  by (simp add: past_reserve_def start_scan_def reserve_def alloc_f_def dump_def write_data_def sample_region_def
      new_region_def new_dumpable_def region_size_def region_base_def still_api_fields sample_write_defs)

lemma still_allocs_succeed:
  "allocs_succeed still_api cmp raw1 raw2 (0 # ks)
     (map (\<lambda>r. Start (start_scan type (element_size et) r)) [sample_region]) (sample_sys [sample_mbi] ucast)"
proof -
  let ?j = "Start (start_scan type (element_size et) sample_region)"
  obtain j s where j: "job_step still_api cmp raw1 raw2 ?j (sample_sys [sample_mbi] ucast) = Inr (j, s)" "past_reserve j"
    using still_start [of cmp raw1 raw2 type et] by (auto split: sum.splits prod.splits job.splits)
  show ?thesis
    by (rule allocs_succeed_Cons [where j = j and ?s1.0 = s])
      (use j in \<open>simp_all add: allocs_succeed_past reserve_failed_def\<close>)
qed

text \<open>A first scan of the eight bytes for the byte 5 finds it at index 5.\<close>

theorem first_scan_exact_witness:
  "\<exists>sc s. first_scan still_api [0, 0, 0] 7 (0x10000, 0x10008) 4 exact_value U8 5 None (sample_sys [sample_mbi] ucast)
      = Some (Inr ([sc], s))
    \<and> results sc = [\<lparr>entry_value = 5, snapshot_value = 5, element_index = 5\<rparr>]"
proof -
  let ?acc = "\<lambda>v. make_comparator exact_value U8 v 5 None"
  obtain scs s' where f: "first_scan still_api [0, 0, 0] 7 (0x10000, 0x10008) 4 exact_value U8 5 None (sample_sys [sample_mbi] ucast)
      = Some (Inr (filter scan_valid scs, s'))" and len: "length scs = length [sample_region]"
    and ex: "\<forall>k < length [sample_region]. if scan_valid (scs ! k)
         then scan_exact still_api ?acc exact_value (element_size U8) s' ([sample_region] ! k) (scs ! k)
         else scan_missing still_api ?acc exact_value (element_size U8) ([sample_region] ! k)"
    using first_scan_exact [OF still_docs(1,2) still_scans_ok still_regions sample_room, of exact_value U8 5 None "[0, 0, 0]"]
      still_allocs_succeed by (simp only: append_Cons) blast
  have hits: "accepted ?acc 1 [0, 1, 2, 3, 4, 5, 6, 7] = [\<lparr>entry_value = 5, snapshot_value = 5, element_index = 5\<rparr>]"
    by code_simp
  obtain sc where sc: "scs = [sc]" using len by (auto simp: length_Suc_conv)
  have "scan_valid sc"
  proof (rule ccontr)
    assume "\<not> scan_valid sc"
    with ex sc have "scan_missing still_api ?acc exact_value 1 sample_region" by simp
    then show False using hits by (auto simp: scan_missing_def still_delivered)
  qed
  moreover from this ex sc have "scan_exact still_api ?acc exact_value 1 s' sample_region sc" by simp
  then have "results sc = [\<lparr>entry_value = 5, snapshot_value = 5, element_index = 5\<rparr>]"
    using hits by (auto simp: scan_exact_def still_delivered)
  ultimately show ?thesis using f sc by auto
qed

text \<open>What of a scan does not depend on where its copy lies.\<close>

definition scan_view :: "'w win32 \<Rightarrow> 'w sys \<Rightarrow> scan \<Rightarrow> mbi option \<times> scan_type \<times> u64 \<times> scan_entry list \<times> u8 list" where
  "scan_view api s sc =
     (map_option region_mbi (scan_region sc), scan_mode sc, elem_size sc, results sc, scan_snapshot api s sc)"

definition still_target :: "'w win32 \<Rightarrow> memory_region \<Rightarrow> bool" where
  "still_target api r \<longleftrightarrow> (\<forall>ok bs ok' bs'. delivered api r ok bs \<longrightarrow> delivered api r ok' bs' \<longrightarrow> ok = ok' \<and> bs = bs')"

lemma scan_exact_missing:
  "still_target api r \<Longrightarrow> scan_exact api acc type es s r sc \<Longrightarrow> \<not> scan_missing api acc type es r"
  unfolding still_target_def scan_exact_def scan_missing_def by (auto split: if_splits) (metis (full_types))+

lemma scan_exact_view:
  assumes "still_target api r" and "scan_exact api acc type es s r sc" and "scan_exact api acc type es s' r sc'"
  shows "scan_view api s sc = scan_view api s' sc'"
proof -
  from assms(2,3) obtain r1 r2 where
    r: "scan_region sc = Some r1" "scan_region sc' = Some r2" "region_mbi r1 = region_mbi r" "region_mbi r2 = region_mbi r"
      "snd (raw_bytes r1) = region_size r" "snd (raw_bytes r2) = region_size r"
    and d: "delivered api r True (load_bytes api (world s) (fst (raw_bytes r1)) (unat (region_size r)))"
      "delivered api r True (load_bytes api (world s') (fst (raw_bytes r2)) (unat (region_size r)))"
    by (auto simp: scan_exact_def)
  have eq: "load_bytes api (world s) (fst (raw_bytes r1)) (unat (region_size r))
      = load_bytes api (world s') (fst (raw_bytes r2)) (unat (region_size r))"
    using assms(1) d unfolding still_target_def by blast
  have m: "scan_mode sc = scan_mode sc'" "elem_size sc = elem_size sc'" using assms(2,3) by (auto simp: scan_exact_def)
  have "results sc = results sc'"
  proof (cases "type = unknown_value")
    case True
    with assms(2,3) show ?thesis by (auto simp: scan_exact_def)
  next
    case False
    with assms(2,3) r eq show ?thesis by (auto simp: scan_exact_def)
  qed
  then show ?thesis using r m eq by (simp add: scan_view_def scan_snapshot_def)
qed

lemma map_filter_nth_cong:
  assumes "length xs = length ys"
    and "\<And>k. k < length xs \<Longrightarrow> P (xs ! k) = P (ys ! k) \<and> (P (xs ! k) \<longrightarrow> f (xs ! k) = g (ys ! k))"
  shows "map f (filter P xs) = map g (filter P ys)"
  using assms
proof (induction xs ys rule: list_induct2)
  case (Cons x xs y ys)
  have "map f (filter P xs) = map g (filter P ys)"
    using Cons.prems [of "Suc _"] by (intro Cons.IH) auto
  with Cons.prems [of 0] show ?case by auto
qed simp

text \<open>
  C11: the interleaving of the tasks does not show. When the memory of the target stands still
  while it is scanned, two first scans from the same state, run under any two schedules, return
  the same list of scans: the same regions, entries and copied bytes in the same order.
\<close>

theorem first_scan_schedule_free:
  assumes "query_docs api" and "rpm_docs api" and "scans_ok api s olds"
    and "get_regions api h (lo, hi) protect (world s) = Some rs"
    and "unat (foffset (dump_file s)) + (\<Sum>r\<leftarrow>rs. unat (region_size r)) \<le> 2 ^ 60"
    and "\<And>ks. ks \<in> {ks1, ks2} \<Longrightarrow> allocs_succeed api (make_comparator type et) raw1 raw2
      (ks @ finish_schedule (length rs)) (map (\<lambda>r. Start (start_scan type (element_size et) r)) rs) s"
    and "\<And>r. r \<in> set rs \<Longrightarrow> still_target api r"
  shows "\<exists>found1 s1 found2 s2. first_scan api ks1 h (lo, hi) protect type et raw1 raw2 s = Some (Inr (found1, s1))
    \<and> first_scan api ks2 h (lo, hi) protect type et raw1 raw2 s = Some (Inr (found2, s2))
    \<and> map (scan_view api s1) found1 = map (scan_view api s2) found2"
proof -
  let ?acc = "\<lambda>v. make_comparator type et v raw1 raw2"
  have spec: "\<exists>scs s'. first_scan api ks h (lo, hi) protect type et raw1 raw2 s = Some (Inr (filter scan_valid scs, s'))
    \<and> length scs = length rs
    \<and> (\<forall>k < length rs. if scan_valid (scs ! k) then scan_exact api ?acc type (element_size et) s' (rs ! k) (scs ! k)
         else scan_missing api ?acc type (element_size et) (rs ! k))" if "ks \<in> {ks1, ks2}" for ks
    using first_scan_spec [OF assms(1-5) assms(6) [OF that]] by blast
  obtain scs1 s1 where 1: "first_scan api ks1 h (lo, hi) protect type et raw1 raw2 s = Some (Inr (filter scan_valid scs1, s1))"
    "length scs1 = length rs" "\<forall>k < length rs. if scan_valid (scs1 ! k)
       then scan_exact api ?acc type (element_size et) s1 (rs ! k) (scs1 ! k)
       else scan_missing api ?acc type (element_size et) (rs ! k)" using spec [of ks1] by blast
  obtain scs2 s2 where 2: "first_scan api ks2 h (lo, hi) protect type et raw1 raw2 s = Some (Inr (filter scan_valid scs2, s2))"
    "length scs2 = length rs" "\<forall>k < length rs. if scan_valid (scs2 ! k)
       then scan_exact api ?acc type (element_size et) s2 (rs ! k) (scs2 ! k)
       else scan_missing api ?acc type (element_size et) (rs ! k)" using spec [of ks2] by blast
  have "map (scan_view api s1) (filter scan_valid scs1) = map (scan_view api s2) (filter scan_valid scs2)"
  proof (rule map_filter_nth_cong)
    fix k
    assume "k < length scs1"
    then have k: "k < length rs" by (simp add: 1(2))
    then have st: "still_target api (rs ! k)" using assms(7) by simp
    have v: "scan_valid (scs1 ! k) = scan_valid (scs2 ! k)"
      using 1(3) 2(3) k scan_exact_missing [OF st] by metis
    moreover have "scan_view api s1 (scs1 ! k) = scan_view api s2 (scs2 ! k)" if "scan_valid (scs1 ! k)"
      using 1(3) 2(3) k that v scan_exact_view [OF st] by metis
    ultimately show "scan_valid (scs1 ! k) = scan_valid (scs2 ! k)
      \<and> (scan_valid (scs1 ! k) \<longrightarrow> scan_view api s1 (scs1 ! k) = scan_view api s2 (scs2 ! k))" by blast
  qed (simp add: 1(2) 2(2))
  with 1(1) 2(1) show ?thesis by blast
qed

theorem first_scan_schedule_free_witness:
  "\<exists>found1 s1 found2 s2. first_scan still_api [0] 7 (0x10000, 0x10008) 4 exact_value U8 5 None (sample_sys [sample_mbi] ucast)
      = Some (Inr (found1, s1))
    \<and> first_scan still_api [0, 0, 0, 0] 7 (0x10000, 0x10008) 4 exact_value U8 5 None (sample_sys [sample_mbi] ucast)
      = Some (Inr (found2, s2))
    \<and> map (scan_view still_api s1) found1 = map (scan_view still_api s2) found2"
  by (rule first_scan_schedule_free [OF still_docs(1,2) still_scans_ok still_regions sample_room])
    (use still_allocs_succeed [where et = U8] in \<open>auto simp: still_target_def still_delivered simp del: element_size.simps\<close>)

text \<open>
  C13: a first scan leaves the scans that a client holds alone. The copies of the earlier scans
  keep their bytes while the new ones are made, and afterwards the old and the new scans together
  satisfy the invariant again: every copy in its own part of the dump file, every pointer to a map
  counted; the file grows by no more than the sizes of the regions scanned.
\<close>

theorem first_scan_keeps_scans:
  assumes "query_docs api" and "rpm_docs api" and "scans_ok api s olds"
    and "get_regions api h (lo, hi) protect (world s) = Some rs"
    and "unat (foffset (dump_file s)) + (\<Sum>r\<leftarrow>rs. unat (region_size r)) \<le> 2 ^ 60"
    and "allocs_succeed api (make_comparator type et) raw1 raw2 (ks @ finish_schedule (length rs))
      (map (\<lambda>r. Start (start_scan type (element_size et) r)) rs) s"
  shows "\<exists>found s'. first_scan api ks h (lo, hi) protect type et raw1 raw2 s = Some (Inr (found, s'))
    \<and> scans_ok api s' (found @ olds) \<and> (\<forall>sc \<in> set olds. scan_snapshot api s' sc = scan_snapshot api s sc)
    \<and> unat (foffset (dump_file s')) \<le> unat (foffset (dump_file s)) + (\<Sum>r\<leftarrow>rs. unat (region_size r))"
  using first_scan_spec [OF assms] by (auto simp: snapshots_kept_def)

theorem first_scan_keeps_scans_witness:
  "\<exists>found s. first_scan still_api [0, 0, 0] 7 (0x10000, 0x10008) 4 exact_value U8 5 None (sample_sys [sample_mbi] ucast)
      = Some (Inr (found, s)) \<and> scans_ok still_api s found"
  using first_scan_keeps_scans [OF still_docs(1,2) still_scans_ok still_regions sample_room, of exact_value U8 5 None "[0, 0, 0]"]
    still_allocs_succeed by (simp only: append_Cons append_Nil2) blast

end
