(* ===== verification/Next_Scan.thy ===== *)
theory Next_Scan
  imports Scan_Set Region_Walk
begin

text \<open>
  \<open>slow_scanner::next_scan\<close> (\<open>src/slow_scanner.cpp\<close>): the walk over the regions found now and the
  scans of the previous round, both in ascending order, and the comparison of a region with the
  previous scan it overlaps: element by element of the two copies when the first value was
  unknown, entry by entry of the previous results otherwise.

  Reads of the two copies are checked against their bounds, so that the absence of
  \<open>Out_of_bounds\<close> is memory safety. The loop over the elements counts in \<open>size_t\<close>; that it ends is
  a theorem.
\<close>

definition read_span :: "'w win32 \<Rightarrow> 'w \<Rightarrow> byte_span \<Rightarrow> u64 \<Rightarrow> u64 \<Rightarrow> u64 res" where
  "read_span api w sp off n =
     (if unat (snd sp) < unat off + unat n then Inl Out_of_bounds
      else Inr (load_value api w (fst sp + off) n))"

partial_function (option) overlap_loop ::
  "'w win32 \<Rightarrow> comparator_fn \<Rightarrow> 'w \<Rightarrow> u64 option \<Rightarrow> u64 \<Rightarrow> u64 \<Rightarrow> byte_span \<Rightarrow> u64 \<Rightarrow> byte_span \<Rightarrow> u64 \<Rightarrow> u64 \<Rightarrow> scan
   \<Rightarrow> scan res option" where
  [code]: "overlap_loop api cmp w raw2 elem_sz overlap_bytes old_bytes p_off new_bytes r_off i sc =
     (if overlap_bytes < i + elem_sz then Some (Inr sc)
      else case read_span api w old_bytes (p_off + i) elem_sz of
             Inl e \<Rightarrow> Some (Inl e)
           | Inr old_v \<Rightarrow>
               (case read_span api w new_bytes (r_off + i) elem_sz of
                  Inl e \<Rightarrow> Some (Inl e)
                | Inr new_v \<Rightarrow>
                    overlap_loop api cmp w raw2 elem_sz overlap_bytes old_bytes p_off new_bytes r_off (i + elem_sz)
                      (if cmp new_v old_v raw2
                       then set_valid (add_result
                         \<lparr>entry_value = new_v, snapshot_value = new_v, element_index = (r_off + i) div elem_sz\<rparr> sc)
                       else sc)))"

text \<open>The modes that compare with the value an entry had, in place of the first value given.\<close>

definition from_snapshot :: "scan_type \<Rightarrow> bool" where
  "from_snapshot type \<longleftrightarrow> type = unchanged \<or> type = changed \<or> type = decreased_value \<or> type = increased_value"

text \<open>The loop over the previous results; \<open>raw1\<close> is the parameter of \<open>next_scan\<close>, which it overwrites.\<close>

fun remap_loop ::
  "'w win32 \<Rightarrow> comparator_fn \<Rightarrow> 'w \<Rightarrow> scan_type \<Rightarrow> u64 option \<Rightarrow> u64 \<Rightarrow> u64 \<Rightarrow> u64 \<Rightarrow> u64 \<Rightarrow> u64 \<Rightarrow> byte_span
   \<Rightarrow> scan_entry list \<Rightarrow> u64 \<Rightarrow> scan \<Rightarrow> (scan \<times> u64) res" where
  "remap_loop api cmp w type raw2 elem_sz p_start r_start ov_start ov_end new_bytes [] raw1 sc = Inr (sc, raw1)"
| "remap_loop api cmp w type raw2 elem_sz p_start r_start ov_start ov_end new_bytes (e # es) raw1 sc =
     (let e_addr = p_start + element_index e * elem_sz
      in if e_addr < ov_start \<or> ov_end < e_addr + elem_sz
         then remap_loop api cmp w type raw2 elem_sz p_start r_start ov_start ov_end new_bytes es raw1 sc
         else let new_index = (e_addr - r_start) div elem_sz
              in case read_span api w new_bytes (new_index * elem_sz) elem_sz of
                   Inl err \<Rightarrow> Inl err
                 | Inr v \<Rightarrow>
                     let raw1' = (if from_snapshot type then snapshot_value e else raw1)
                     in remap_loop api cmp w type raw2 elem_sz p_start r_start ov_start ov_end new_bytes es raw1'
                          (if cmp v raw1' raw2
                           then set_valid (add_result
                             \<lparr>entry_value = v, snapshot_value = v, element_index = new_index\<rparr> sc)
                           else sc))"

text \<open>The comparison of the copy of region \<open>r\<close> with the previous scan; the ends may wrap.\<close>

definition compare_overlap ::
  "'w win32 \<Rightarrow> comparator_fn \<Rightarrow> 'w \<Rightarrow> scan_type \<Rightarrow> u64 \<Rightarrow> u64 option \<Rightarrow> memory_region \<Rightarrow> scan \<Rightarrow> memory_region
   \<Rightarrow> u64 \<Rightarrow> scan \<Rightarrow> (scan \<times> u64) res option" where
  "compare_overlap api cmp w type elem_sz raw2 r prev pr raw1 sc =
     (let r_start = region_base r; r_end = r_start + region_size r;
          p_start = region_base pr; p_end = p_start + region_size pr;
          ov_start = max r_start p_start; ov_end = min r_end p_end;
          overlap_bytes = (if ov_start < ov_end then ov_end - ov_start else 0);
          r_off = ov_start - r_start; p_off = ov_start - p_start;
          new_bytes = raw_bytes r; old_bytes = raw_bytes pr
      in if scan_mode prev = unknown_value
         then map_option (map_sum id (\<lambda>sc. (sc, raw1)))
                (overlap_loop api cmp w raw2 elem_sz overlap_bytes old_bytes p_off new_bytes r_off 0 sc)
         else Some (remap_loop api cmp w type raw2 elem_sz p_start r_start ov_start ov_end new_bytes
                      (results prev) raw1 sc))"

text \<open>
  The body of the walk after the overlap is found. The scan that is not kept, and the region with
  it, is destroyed at the end of the iteration.
\<close>

definition scan_overlap ::
  "'w win32 \<Rightarrow> comparator_fn \<Rightarrow> scan_type \<Rightarrow> u64 \<Rightarrow> u64 option \<Rightarrow> memory_region \<Rightarrow> scan \<Rightarrow> memory_region \<Rightarrow> u64 \<Rightarrow> 'w sys
   \<Rightarrow> (scan list \<times> u64 \<times> 'w sys) res option" where
  "scan_overlap api cmp type elem_sz raw2 r prev pr raw1 s =
     (case new_scan (Some r) type elem_sz of
        Inl e \<Rightarrow> Some (Inl e)
      | Inr sc \<Rightarrow>
          (case read_memory api r s of
             Inl e \<Rightarrow> Some (Inl e)
           | Inr (success, r1, s1) \<Rightarrow>
               let sc1 = sc\<lparr>scan_region := Some r1\<rparr>
               in if \<not> success then Some (Inr ([], raw1, scan_destroy api sc1 s1))
                  else case compare_overlap api cmp (world s1) type elem_sz raw2 r1 prev pr raw1 sc1 of
                         None \<Rightarrow> None
                       | Some (Inl e) \<Rightarrow> Some (Inl e)
                       | Some (Inr (sc2, raw1')) \<Rightarrow>
                           if scan_valid sc2 then Some (Inr ([sc2], raw1', s1))
                           else Some (Inr ([], raw1', scan_destroy api sc2 s1))))"

fun next_loop ::
  "'w win32 \<Rightarrow> comparator_fn \<Rightarrow> scan_type \<Rightarrow> u64 \<Rightarrow> u64 option \<Rightarrow> memory_region list \<Rightarrow> scan list \<Rightarrow> u64 \<Rightarrow> scan list \<Rightarrow> 'w sys
   \<Rightarrow> (scan list \<times> 'w sys) res option" where
  "next_loop api cmp type elem_sz raw2 [] prevs raw1 found s = Some (Inr (found, s))"
| "next_loop api cmp type elem_sz raw2 (r # rs) [] raw1 found s = Some (Inr (found, s))"
| "next_loop api cmp type elem_sz raw2 (r # rs) (prev # prevs) raw1 found s =
     (case scan_region prev of
        None \<Rightarrow> Some (Inl Null_deref)
      | Some pr \<Rightarrow>
          if region_base r + region_size r \<le> region_base pr
          then next_loop api cmp type elem_sz raw2 rs (prev # prevs) raw1 found s
          else if region_base pr + region_size pr \<le> region_base r
          then next_loop api cmp type elem_sz raw2 (r # rs) prevs raw1 found s
          else case scan_overlap api cmp type elem_sz raw2 r prev pr raw1 s of
                 None \<Rightarrow> None
               | Some (Inl e) \<Rightarrow> Some (Inl e)
               | Some (Inr (scs, raw1', s1)) \<Rightarrow>
                   next_loop api cmp type elem_sz raw2 rs (prev # prevs) raw1' (found @ scs) s1)"

text \<open>\<open>prev_scans.clear()\<close>, the vector holding the only pointers to its scans.\<close>

fun clear_scans :: "'w win32 \<Rightarrow> scan list \<Rightarrow> 'w sys \<Rightarrow> 'w sys" where
  "clear_scans api [] s = s"
| "clear_scans api (sc # scs) s = clear_scans api scs (scan_destroy api sc s)"

definition next_scan ::
  "'w win32 \<Rightarrow> u32 \<Rightarrow> u64 \<times> u64 \<Rightarrow> u32 \<Rightarrow> scan_type \<Rightarrow> element_type \<Rightarrow> scan list \<Rightarrow> u64 \<Rightarrow> u64 option \<Rightarrow> 'w sys
   \<Rightarrow> (scan list \<times> 'w sys) res option" where
  "next_scan api handle rng protect type elem_type prev_scans raw1 raw2 s =
     (case get_regions api handle rng protect (world s) of
        None \<Rightarrow> None
      | Some regions \<Rightarrow>
          (case next_loop api (make_comparator type elem_type) type (element_size elem_type) raw2 regions
                  prev_scans raw1 [] s of
             None \<Rightarrow> None
           | Some (Inl e) \<Rightarrow> Some (Inl e)
           | Some (Inr (found, s1)) \<Rightarrow>
               Some (Inr (sort_key scan_base found, clear_scans api prev_scans s1))))"

subsection \<open>The comparison as a function of the bytes\<close>

definition hit :: "u64 \<Rightarrow> nat \<Rightarrow> scan_entry" where
  "hit v i = \<lparr>entry_value = v, snapshot_value = v, element_index = of_nat i\<rparr>"

text \<open>Element by element: \<open>n\<close> bytes of overlap, at these offsets of the new and the old copy.\<close>

definition element_hits ::
  "comparator_fn \<Rightarrow> u64 option \<Rightarrow> nat \<Rightarrow> u8 list \<Rightarrow> u8 list \<Rightarrow> nat \<Rightarrow> nat \<Rightarrow> nat \<Rightarrow> scan_entry list" where
  "element_hits cmp raw2 es new old r_off p_off n =
     map (\<lambda>k. hit (value_at es new (r_off + k * es)) ((r_off + k * es) div es))
       (filter (\<lambda>k. cmp (value_at es new (r_off + k * es)) (value_at es old (p_off + k * es)) raw2) [0..<n div es])"

text \<open>Entry by entry: the addresses of the previous entries that lie in the overlap.\<close>

definition entry_addr :: "nat \<Rightarrow> nat \<Rightarrow> scan_entry \<Rightarrow> nat" where
  "entry_addr es p_start e = p_start + unat (element_index e) * es"

definition reference_value :: "scan_type \<Rightarrow> u64 \<Rightarrow> scan_entry \<Rightarrow> u64" where
  "reference_value type raw1 e = (if from_snapshot type then snapshot_value e else raw1)"

definition entry_hits ::
  "comparator_fn \<Rightarrow> scan_type \<Rightarrow> u64 \<Rightarrow> u64 option \<Rightarrow> nat \<Rightarrow> u8 list \<Rightarrow> nat \<Rightarrow> nat \<Rightarrow> nat \<Rightarrow> nat \<Rightarrow> scan_entry list
   \<Rightarrow> scan_entry list" where
  "entry_hits cmp type raw1 raw2 es new r_start p_start ov_start ov_end entries =
     concat (map (\<lambda>e. let a = entry_addr es p_start e; i = (a - r_start) div es; v = value_at es new (i * es)
       in if ov_start \<le> a \<and> a + es \<le> ov_end \<and> cmp v (reference_value type raw1 e) raw2 then [hit v i] else []) entries)"

definition add_hits :: "scan_entry list \<Rightarrow> scan \<Rightarrow> scan" where
  "add_hits es sc = sc\<lparr>results := results sc @ es, scan_valid := (scan_valid sc \<or> es \<noteq> [])\<rparr>"

lemma add_hits_Nil [simp]: "add_hits [] sc = sc"
  by (simp add: add_hits_def)

lemma add_hits_add_hits [simp]: "add_hits ys (add_hits xs sc) = add_hits (xs @ ys) sc"
  by (simp add: add_hits_def)

lemma set_valid_add_result [simp]: "set_valid (add_result e sc) = add_hits [e] sc"
  by (simp add: add_hits_def set_valid_def add_result_def)

lemma add_hits_fields [simp]:
  "scan_region (add_hits es sc) = scan_region sc" "scan_mode (add_hits es sc) = scan_mode sc"
  "elem_size (add_hits es sc) = elem_size sc" "results (add_hits es sc) = results sc @ es"
  "scan_valid (add_hits es sc) = (scan_valid sc \<or> es \<noteq> [])"
  by (simp_all add: add_hits_def)

lemma read_span_eq:
  assumes "unat off + unat es \<le> unat n"
  shows "read_span api w (p, n) off es = Inr (value_at (unat es) (load_bytes api w p (unat n)) (unat off))"
proof -
  have "load_bytes api w (p + off) (unat es) = take (unat es) (drop (unat off) (load_bytes api w p (unat n)))"
    using load_bytes_slice [OF assms, of api w p] by simp
  with assms show ?thesis by (simp add: read_span_def load_value_def value_at_def not_less)
qed

text \<open>The loop over the elements ends, stays inside both copies and finds what the specification lists.\<close>

lemma overlap_loop_stop:
  "overlap_bytes < i + es \<Longrightarrow> overlap_loop api cmp w raw2 es overlap_bytes old p_off new r_off i sc = Some (Inr sc)"
  by (subst overlap_loop.simps) simp

lemma overlap_loop_step:
  "\<not> overlap_bytes < i + es \<Longrightarrow> read_span api w old (p_off + i) es = Inr old_v \<Longrightarrow>
   read_span api w new (r_off + i) es = Inr new_v \<Longrightarrow>
   overlap_loop api cmp w raw2 es overlap_bytes old p_off new r_off i sc =
     overlap_loop api cmp w raw2 es overlap_bytes old p_off new r_off (i + es)
       (if cmp new_v old_v raw2
        then add_hits [\<lparr>entry_value = new_v, snapshot_value = new_v, element_index = (r_off + i) div es\<rparr>] sc else sc)"
  by (subst overlap_loop.simps) simp

lemma overlap_loop_eq:
  fixes api :: "'w win32" and w :: 'w and pn po :: u64
  assumes es: "0 < unat es" and n: "unat overlap_bytes + unat es < 2 ^ 64"
    and po: "unat p_off + unat overlap_bytes \<le> unat no" and ro: "unat r_off + unat overlap_bytes \<le> unat nn"
  defines "new \<equiv> load_bytes api w pn (unat nn)" and "old \<equiv> load_bytes api w po (unat no)"
  shows "overlap_loop api cmp w raw2 es overlap_bytes (po, no) p_off (pn, nn) r_off 0 sc =
    Some (Inr (add_hits (element_hits cmp raw2 (unat es) new old (unat r_off) (unat p_off) (unat overlap_bytes)) sc))"
proof -
  let ?e = "unat es" and ?n = "unat overlap_bytes"
  let ?acc = "\<lambda>k. cmp (value_at ?e new (unat r_off + k * ?e)) (value_at ?e old (unat p_off + k * ?e)) raw2"
  let ?hit = "\<lambda>k. hit (value_at ?e new (unat r_off + k * ?e)) ((unat r_off + k * ?e) div ?e)"
  have "overlap_loop api cmp w raw2 es overlap_bytes (po, no) p_off (pn, nn) r_off (of_nat (k * ?e)) sc =
      Some (Inr (add_hits (map ?hit (filter ?acc [k..<?n div ?e])) sc))" if "k \<le> ?n div ?e" for k sc
    using that
  proof (induction "?n div ?e - k" arbitrary: k sc)
    case 0
    then have k: "k = ?n div ?e" by simp
    have lt: "?n < k * ?e + ?e" using dividend_less_div_times [OF es, of ?n] by (simp only: k add.commute)
    have "k * ?e \<le> ?n" by (simp add: k)
    then have "unat (of_nat (k * ?e) + es :: u64) = k * ?e + ?e"
      using n by (simp add: unat_add_no_wrap unat_of_nat_u64 del: of_nat_mult)
    with lt have "overlap_bytes < of_nat (k * ?e) + es" by (simp add: word_less_nat_alt del: of_nat_mult)
    then show ?case by (simp add: overlap_loop_stop k del: of_nat_mult)
  next
    case (Suc m)
    then have k: "k < ?n div ?e" by simp
    then have "Suc k * ?e \<le> ?n" using es by (metis Suc_leI less_eq_div_iff_mult_less_eq)
    then have le: "k * ?e + ?e \<le> ?n" by (simp add: add.commute)
    then have small: "k * ?e < 2 ^ 64" using n by linarith
    define i where "i = (of_nat (k * ?e) :: u64)"
    have ui: "unat i = k * ?e" unfolding i_def by (rule unat_of_nat_u64 [OF small])
    have uie: "unat (i + es) = k * ?e + ?e" using le n by (simp add: unat_add_no_wrap ui)
    have pu: "unat (p_off + i) = unat p_off + k * ?e"
      using le po by (intro trans [OF unat_add_no_wrap]) (simp_all add: ui, use u64_max [of no] in linarith)
    have ru: "unat (r_off + i) = unat r_off + k * ?e"
      using le ro by (intro trans [OF unat_add_no_wrap]) (simp_all add: ui, use u64_max [of nn] in linarith)
    have "\<not> overlap_bytes < i + es" using le by (simp add: word_less_nat_alt uie)
    moreover have "read_span api w (po, no) (p_off + i) es = Inr (value_at ?e old (unat p_off + k * ?e))"
      using le po read_span_eq [of "p_off + i" es no] by (simp add: pu old_def)
    moreover have "read_span api w (pn, nn) (r_off + i) es = Inr (value_at ?e new (unat r_off + k * ?e))"
      using le ro read_span_eq [of "r_off + i" es nn] by (simp add: ru new_def)
    ultimately have "overlap_loop api cmp w raw2 es overlap_bytes (po, no) p_off (pn, nn) r_off i sc =
      overlap_loop api cmp w raw2 es overlap_bytes (po, no) p_off (pn, nn) r_off (i + es)
        (if ?acc k then add_hits [\<lparr>entry_value = value_at ?e new (unat r_off + k * ?e),
           snapshot_value = value_at ?e new (unat r_off + k * ?e), element_index = (r_off + i) div es\<rparr>] sc else sc)"
      by (rule overlap_loop_step)
    moreover have "(r_off + i) div es = of_nat ((unat r_off + k * ?e) div ?e)"
    proof -
      have "unat ((r_off + i) div es) = (unat r_off + k * ?e) div ?e" by (simp only: unat_div ru)
      from arg_cong [OF this, of "of_nat :: nat \<Rightarrow> u64"] show ?thesis by simp
    qed
    moreover have "i + es = of_nat (Suc k * ?e)" by (simp add: i_def add.commute)
    moreover have "m = ?n div ?e - Suc k" "Suc k \<le> ?n div ?e" using Suc.hyps(2) k by simp_all
    ultimately have "overlap_loop api cmp w raw2 es overlap_bytes (po, no) p_off (pn, nn) r_off i sc =
      Some (Inr (add_hits (map ?hit (filter ?acc [Suc k..<?n div ?e])) (if ?acc k then add_hits [?hit k] sc else sc)))"
      using Suc.hyps(1) [of "Suc k"] by (simp add: hit_def)
    moreover have "[k..<?n div ?e] = k # [Suc k..<?n div ?e]" using k by (rule upt_conv_Cons)
    ultimately show ?case by (simp add: i_def)
  qed
  from this [of 0] show ?thesis by (simp add: element_hits_def)
qed


lemma remap_loop_eq:
  fixes api :: "'w win32" and w :: 'w and pn :: u64
  assumes es: "0 < unat es" "unat es \<le> 8" and base: "unat r_start \<le> unat ov_start" "unat ov_end \<le> unat r_start + unat nn"
    and small: "unat p_start \<le> 2 ^ 48" "unat ov_end \<le> 2 ^ 48"
    and idx: "\<And>e. e \<in> set entries \<Longrightarrow> unat (element_index e) \<le> 2 ^ 48"
  shows "\<exists>raw1'. remap_loop api cmp w type raw2 es p_start r_start ov_start ov_end (pn, nn) entries raw1 sc =
    Inr (add_hits (entry_hits cmp type raw1 raw2 (unat es) (load_bytes api w pn (unat nn)) (unat r_start) (unat p_start)
      (unat ov_start) (unat ov_end) entries) sc, raw1')
    \<and> (\<not> from_snapshot type \<longrightarrow> raw1' = raw1)"
  using idx
proof (induction entries arbitrary: raw1 sc)
  case Nil
  then show ?case by (simp add: entry_hits_def)
next
  case (Cons e entries)
  let ?e = "unat es" and ?new = "load_bytes api w pn (unat nn)"
  let ?hits = "\<lambda>raw1 entries. entry_hits cmp type raw1 raw2 ?e ?new (unat r_start) (unat p_start) (unat ov_start) (unat ov_end) entries"
  define a where "a = entry_addr ?e (unat p_start) e"
  define e_addr where "e_addr = p_start + element_index e * es"
  have "unat (element_index e) * ?e \<le> 2 ^ 48 * 8" using Cons.prems [of e] es(2) by (intro mult_le_mono) simp_all
  then have m: "unat (element_index e) * ?e \<le> 2 ^ 51" by simp
  then have "unat (element_index e * es) = unat (element_index e) * ?e" by (intro unat_mult_no_wrap) simp
  then have ea: "unat e_addr = a" and ab: "a \<le> 2 ^ 52"
    using m small(1) by (simp_all add: e_addr_def a_def entry_addr_def unat_add_no_wrap)
  have ee: "unat (e_addr + es) = a + ?e" using ab es(2) by (simp add: unat_add_no_wrap ea)
  have hits: "?hits raw1 (e # entries) = (let i = (a - unat r_start) div ?e; v = value_at ?e ?new (i * ?e)
       in if unat ov_start \<le> a \<and> a + ?e \<le> unat ov_end \<and> cmp v (reference_value type raw1 e) raw2 then [hit v i] else [])
       @ ?hits raw1 entries" for raw1
    by (simp add: entry_hits_def a_def Let_def)
  have IH: "\<exists>raw1'. remap_loop api cmp w type raw2 es p_start r_start ov_start ov_end (pn, nn) entries raw1 sc =
      Inr (add_hits (?hits raw1 entries) sc, raw1') \<and> (\<not> from_snapshot type \<longrightarrow> raw1' = raw1)" for raw1 sc
    by (rule Cons.IH) (rule Cons.prems, simp)
  show ?case
  proof (cases "unat ov_start \<le> a \<and> a + ?e \<le> unat ov_end")
    case False
    then have "e_addr < ov_start \<or> ov_end < e_addr + es" by (auto simp: word_less_nat_alt ea ee)
    moreover have "?hits raw1 (e # entries) = ?hits raw1 entries" using False unfolding hits by auto
    ultimately show ?thesis using IH [of raw1 sc] by (simp add: e_addr_def [symmetric] Let_def)
  next
    case True
    let ?i = "(a - unat r_start) div ?e"
    let ?v = "value_at ?e ?new (?i * ?e)" and ?raw1 = "reference_value type raw1 e"
    have win: "\<not> (e_addr < ov_start \<or> ov_end < e_addr + es)" using True by (auto simp: word_less_nat_alt ea ee)
    have ra: "unat r_start \<le> a" using True base by linarith
    have ui: "unat ((e_addr - r_start) div es) = ?i"
      using ra by (simp add: unat_div unat_sub word_le_nat_alt ea)
    have ie: "?i * ?e \<le> a - unat r_start" by simp
    also have "\<dots> < 2 ^ 64" using ab by simp
    finally have uo: "unat ((e_addr - r_start) div es * es) = ?i * ?e" by (simp add: unat_mult_no_wrap ui)
    have "?i * ?e + ?e \<le> unat nn" using True base ie ra by linarith
    then have rd: "read_span api w (pn, nn) ((e_addr - r_start) div es * es) es = Inr ?v"
      using read_span_eq [of "(e_addr - r_start) div es * es" es nn] by (simp add: uo)
    from arg_cong [OF ui, of "of_nat :: nat \<Rightarrow> u64"] have iw: "(e_addr - r_start) div es = of_nat ?i" by simp
    have "?hits ?raw1 entries = ?hits raw1 entries"
      by (simp add: entry_hits_def reference_value_def)
    then have "?hits raw1 (e # entries) = (if cmp ?v ?raw1 raw2 then [hit ?v ?i] else []) @ ?hits ?raw1 entries"
      using True unfolding hits by (simp add: Let_def)
    then show ?thesis
      using IH [of ?raw1 "if cmp ?v ?raw1 raw2 then add_hits [hit ?v ?i] sc else sc"] win rd
      by (auto simp: e_addr_def [symmetric] Let_def reference_value_def [symmetric] hit_def iw)
        (auto simp: reference_value_def)
  qed
qed

subsection \<open>One region against one previous scan\<close>

definition overlapping :: "memory_region \<Rightarrow> memory_region \<Rightarrow> bool" where
  "overlapping r p \<longleftrightarrow> unat (region_base p) < region_end r \<and> unat (region_base r) < region_end p"

definition overlap_hits ::
  "comparator_fn \<Rightarrow> scan_type \<Rightarrow> u64 \<Rightarrow> u64 option \<Rightarrow> nat \<Rightarrow> memory_region \<Rightarrow> scan \<Rightarrow> memory_region \<Rightarrow> u8 list \<Rightarrow> u8 list
   \<Rightarrow> scan_entry list" where
  "overlap_hits cmp type raw1 raw2 es r prev pr new old =
     (let r_start = unat (region_base r); p_start = unat (region_base pr);
          ov_start = max r_start p_start; ov_end = min (region_end r) (region_end pr)
      in if scan_mode prev = unknown_value
         then element_hits cmp raw2 es new old (ov_start - r_start) (ov_start - p_start) (ov_end - ov_start)
         else entry_hits cmp type raw1 raw2 es new r_start p_start ov_start ov_end (results prev))"

lemma compare_overlap_eq:
  fixes api :: "'w win32" and w :: 'w
  assumes es: "0 < unat es" "unat es \<le> 8"
    and raw: "raw_bytes r = (pn, region_size r)" "raw_bytes pr = (po, region_size pr)"
    and ends: "region_end r \<le> 2 ^ 48" "region_end pr \<le> 2 ^ 48" and ov: "overlapping r pr"
    and idx: "\<And>e. e \<in> set (results prev) \<Longrightarrow> unat (element_index e) < unat (region_size pr)"
  shows "\<exists>raw1'. compare_overlap api cmp w type es raw2 r prev pr raw1 sc =
    Some (Inr (add_hits (overlap_hits cmp type raw1 raw2 (unat es) r prev pr
      (load_bytes api w pn (unat (region_size r))) (load_bytes api w po (unat (region_size pr)))) sc, raw1'))
    \<and> (\<not> from_snapshot type \<longrightarrow> raw1' = raw1)"
proof -
  define rs re ps pe where "rs = region_base r" and "re = rs + region_size r"
    and "ps = region_base pr" and "pe = ps + region_size pr"
  have ure: "unat re = region_end r" and upe: "unat pe = region_end pr"
    using ends by (simp_all add: re_def rs_def pe_def ps_def region_end_def unat_add_no_wrap)
  define a b where "a = max rs ps" and "b = min re pe"
  have ua: "unat a = max (unat rs) (unat ps)" by (auto simp: a_def max_def word_le_nat_alt)
  have ub: "unat b = min (region_end r) (region_end pr)"
    by (auto simp: b_def min_def word_le_nat_alt ure upe)
  have sz: "unat (region_size r) = region_end r - unat rs" "unat (region_size pr) = region_end pr - unat ps"
    "unat rs \<le> region_end r" "unat ps \<le> region_end pr"
    by (simp_all add: region_end_def rs_def ps_def)
  have pos: "unat rs < region_end r" "unat ps < region_end pr"
    if "unat a < unat b" using that ua ub by auto
  have lt: "unat a \<le> unat b" using ov by (auto simp: ua ub overlapping_def rs_def ps_def region_end_def)
  have bytes: "unat (if a < b then b - a else 0) = unat b - unat a"
    using lt by (auto simp: word_less_nat_alt unat_sub word_le_nat_alt)
  have off: "unat (a - rs) = unat a - unat rs" "unat (a - ps) = unat a - unat ps"
    by (simp_all add: unat_sub word_le_nat_alt ua)
  have le: "unat (a - rs) + (unat b - unat a) \<le> unat (region_size r)"
    "unat (a - ps) + (unat b - unat a) \<le> unat (region_size pr)"
    using lt by (auto simp: off sz(1,2) ua ub)
  define ob where "ob = (if a < b then b - a else 0)"
  have co: "compare_overlap api cmp w type es raw2 r prev pr raw1 sc = (if scan_mode prev = unknown_value
      then map_option (map_sum id (\<lambda>sc. (sc, raw1)))
             (overlap_loop api cmp w raw2 es ob (po, region_size pr) (a - ps) (pn, region_size r) (a - rs) 0 sc)
      else Some (remap_loop api cmp w type raw2 es ps rs a b (pn, region_size r) (results prev) raw1 sc))"
    unfolding compare_overlap_def Let_def ob_def a_def b_def re_def pe_def rs_def ps_def raw ..
  have oh: "overlap_hits cmp type raw1 raw2 (unat es) r prev pr new old = (if scan_mode prev = unknown_value
      then element_hits cmp raw2 (unat es) new old (unat a - unat rs) (unat a - unat ps) (unat b - unat a)
      else entry_hits cmp type raw1 raw2 (unat es) new (unat rs) (unat ps) (unat a) (unat b) (results prev))" for new old
    unfolding overlap_hits_def Let_def ua ub rs_def ps_def ..
  show ?thesis
  proof (cases "scan_mode prev = unknown_value")
    case True
    have "unat b - unat a + unat es < 2 ^ 64" using ends es(2) by (simp add: ub)
    from overlap_loop_eq [of es ob "a - ps" "region_size pr" "a - rs" "region_size r" api cmp w raw2 po pn sc]
      es(1) this le
    have "overlap_loop api cmp w raw2 es ob (po, region_size pr) (a - ps) (pn, region_size r) (a - rs) 0 sc =
      Some (Inr (add_hits (element_hits cmp raw2 (unat es) (load_bytes api w pn (unat (region_size r)))
        (load_bytes api w po (unat (region_size pr))) (unat a - unat rs) (unat a - unat ps) (unat b - unat a)) sc))"
      unfolding bytes [folded ob_def] off by blast
    then show ?thesis
      using True by (simp add: co oh)
  next
    case False
    have "unat rs \<le> unat a" "unat b \<le> unat rs + unat (region_size r)" "unat ps \<le> 2 ^ 48" "unat b \<le> 2 ^ 48"
      using sz ends by (simp_all add: ua ub)
    moreover have "unat (element_index e) \<le> 2 ^ 48" if "e \<in> set (results prev)" for e
      using idx [OF that] ends(2) sz(2) by linarith
    ultimately obtain raw1' where r: "remap_loop api cmp w type raw2 es ps rs a b (pn, region_size r) (results prev) raw1 sc =
      Inr (add_hits (entry_hits cmp type raw1 raw2 (unat es) (load_bytes api w pn (unat (region_size r))) (unat rs) (unat ps)
        (unat a) (unat b) (results prev)) sc, raw1')" "\<not> from_snapshot type \<longrightarrow> raw1' = raw1"
      using remap_loop_eq [OF es, of rs a b "region_size r" ps "results prev" api cmp w type raw2 pn raw1 sc] by blast
    then show ?thesis
      using False by (simp add: co oh)
  qed
qed

text \<open>
  What is known of the scan made for region \<open>r\<close> against a previous scan, in terms of the bytes of
  the new copy and of the old one.
\<close>

definition next_exact ::
  "'w win32 \<Rightarrow> comparator_fn \<Rightarrow> scan_type \<Rightarrow> u64 \<Rightarrow> u64 option \<Rightarrow> u64 \<Rightarrow> memory_region \<Rightarrow> scan \<Rightarrow> u8 list \<Rightarrow> u8 list \<Rightarrow> scan \<Rightarrow> bool" where
  "next_exact api cmp type raw1 raw2 es r prev old new sc \<longleftrightarrow>
     (\<exists>r1 pr. scan_region sc = Some r1 \<and> region_mbi r1 = region_mbi r \<and> scan_region prev = Some pr
        \<and> scan_mode sc = type \<and> elem_size sc = es \<and> length new = unat (region_size r) \<and> delivered api r True new
        \<and> results sc \<noteq> [] \<and> results sc = overlap_hits cmp type raw1 raw2 (unat es) r prev pr new old)"

definition next_missing ::
  "'w win32 \<Rightarrow> comparator_fn \<Rightarrow> scan_type \<Rightarrow> u64 \<Rightarrow> u64 option \<Rightarrow> u64 \<Rightarrow> memory_region \<Rightarrow> scan \<Rightarrow> u8 list \<Rightarrow> bool" where
  "next_missing api cmp type raw1 raw2 es r prev old \<longleftrightarrow> (\<exists>part. delivered api r False part)
     \<or> (\<exists>new pr. scan_region prev = Some pr \<and> delivered api r True new
          \<and> overlap_hits cmp type raw1 raw2 (unat es) r prev pr new old = [])"

lemma overlap_hits_raw1:
  "(\<not> from_snapshot type \<Longrightarrow> raw1' = raw1) \<Longrightarrow> overlap_hits cmp type raw1' raw2 es r prev pr new old
    = overlap_hits cmp type raw1 raw2 es r prev pr new old"
  by (cases "from_snapshot type") (simp_all add: overlap_hits_def entry_hits_def reference_value_def Let_def)

lemma scan_overlap_spec:
  assumes ok: "scans_ok api s scs" and rpm: "rpm_docs api"
    and r: "region_ok r" "\<not> mem_reserved r" "region_size r \<noteq> 0" "region_end r \<le> 2 ^ 48"
    and room: "unat (foffset (dump_file s)) + unat (region_size r) \<le> 2 ^ 60"
    and prev: "prev \<in> set scs" "placed prev" "scan_region prev = Some pr" "overlapping r pr"
    and res: "\<forall>ok r1 s1. read_memory api r s = Inr (ok, r1, s1) \<longrightarrow> mem_reserved r1"
  shows "\<exists>sc raw1' s1. scan_overlap api cmp type (element_size et) raw2 r prev pr raw1 s
      = Some (Inr (filter scan_valid [sc], raw1', s1))
    \<and> (\<not> from_snapshot type \<longrightarrow> raw1' = raw1) \<and> scan_base sc = region_base r
    \<and> scans_ok api s1 (scs @ filter scan_valid [sc]) \<and> snapshots_kept api s s1 scs
    \<and> unat (foffset (dump_file s1)) = unat (foffset (dump_file s)) + unat (region_size r)
    \<and> (if scan_valid sc
       then next_exact api cmp type raw1 raw2 (element_size et) r prev (scan_snapshot api s prev) (scan_snapshot api s1 sc) sc
       else next_missing api cmp type raw1 raw2 (element_size et) r prev (scan_snapshot api s prev))"
proof -
  let ?es = "element_size et"
  define sc0 where "sc0 = \<lparr>scan_region = Some r, scan_mode = type, elem_size = ?es, scan_valid = False, results = []\<rparr>"
  have new: "new_scan (Some r) type ?es = Inr sc0" by (cases et) (simp_all add: new_scan_def sc0_def)
  obtain success r1 s1 where rd: "read_memory api r s = Inr (success, r1, s1)" "region_mbi r1 = region_mbi r"
    "process_handle r1 = process_handle r" "region_ok r1"
    and each: "mem_reserved r1 \<Longrightarrow> \<forall>sc. scan_region sc = Some r1 \<longrightarrow>
          scans_ok api s1 (scs @ [sc]) \<and> snapshots_kept api s s1 scs
          \<and> unat (foffset (dump_file s1)) = unat (foffset (dump_file s)) + unat (region_size r)
          \<and> (if success then delivered api r True (scan_snapshot api s1 sc) else (\<exists>part. delivered api r False part))"
    using scans_ok_read [OF ok rpm r(1-3) room] by blast
  have reserved: "mem_reserved r1" using res rd(1) by blast
  note each = each [OF reserved]
  define sc1 where "sc1 = sc0\<lparr>scan_region := Some r1\<rparr>"
  have f1: "scan_region sc1 = Some r1" "scan_mode sc1 = type" "elem_size sc1 = ?es" "results sc1 = []" "\<not> scan_valid sc1"
    by (simp_all add: sc1_def sc0_def)
  have size: "region_size r1 = region_size r" "region_base r1 = region_base r" "region_end r1 = region_end r"
    using rd(2) by (simp_all add: region_size_def region_base_def region_end_def)
  have dropped: "scans_ok api (scan_destroy api sc s1) scs \<and> snapshots_kept api s (scan_destroy api sc s1) scs
      \<and> unat (foffset (dump_file (scan_destroy api sc s1))) = unat (foffset (dump_file s)) + unat (region_size r)"
    if "scan_region sc = Some r1" for sc
    using each [rule_format, OF that] scans_ok_destroy [of api s1 scs sc "[]"]
    by (auto intro: snapshots_kept_trans)
  have base: "scan_base sc = region_base r" if "scan_region sc = Some r1" for sc
    using that size by (simp add: scan_base_def)
  show ?thesis
  proof (cases success)
    case False
    then have "scan_overlap api cmp type ?es raw2 r prev pr raw1 s = Some (Inr ([], raw1, scan_destroy api sc1 s1))"
      by (simp add: scan_overlap_def new rd(1) sc1_def)
    moreover have "next_missing api cmp type raw1 raw2 ?es r prev (scan_snapshot api s prev)"
      using each [rule_format, OF f1(1)] False by (auto simp: next_missing_def)
    ultimately show ?thesis
      using f1(1,5) dropped [OF f1(1)] base [OF f1(1)]
      by (intro exI [of _ sc1] exI [of _ raw1] exI [of _ "scan_destroy api sc1 s1"]) simp
  next
    case True
    have "copied sc1" using reserved f1(1) rd(4) by (auto simp: copied_def)
    then obtain pn where pn: "raw_bytes r1 = (pn, region_size r)" using copied_range f1(1) size by fastforce
    have "copied prev" using ok prev(1) by (simp add: scans_ok_def)
    then obtain po where po: "raw_bytes pr = (po, region_size pr)" using copied_range prev(3) by fastforce
    have pl: "region_end pr \<le> 2 ^ 48" "\<And>e. e \<in> set (results prev) \<Longrightarrow> unat (element_index e) < unat (region_size pr)"
      using prev(2,3) placed_index [OF prev(2,3)] by (auto simp: placed_def)
    have ov: "overlapping r1 pr" using prev(4) size by (simp add: overlapping_def)
    have es: "0 < unat ?es" "unat ?es \<le> 8" by (cases et; simp)+
    let ?new = "load_bytes api (world s1) pn (unat (region_size r))"
    let ?old = "load_bytes api (world s1) po (unat (region_size pr))"
    obtain raw1' where cmp: "compare_overlap api cmp (world s1) type ?es raw2 r1 prev pr raw1 sc1
        = Some (Inr (add_hits (overlap_hits cmp type raw1 raw2 (unat ?es) r1 prev pr ?new ?old) sc1, raw1'))"
      and raw1': "\<not> from_snapshot type \<longrightarrow> raw1' = raw1"
      using compare_overlap_eq [OF es, of r1 pn pr po prev api cmp "world s1" type raw2 raw1 sc1] pn po r(4) pl ov size
      by auto
    define hits where "hits = overlap_hits cmp type raw1 raw2 (unat ?es) r prev pr ?new ?old"
    have "overlap_hits cmp type raw1 raw2 (unat ?es) r1 prev pr ?new ?old = hits"
      by (simp add: hits_def overlap_hits_def size)
    note cmp = cmp [unfolded this]
    define sc2 where "sc2 = add_hits hits sc1"
    note cmp = cmp [folded sc2_def]
    have f2: "scan_region sc2 = Some r1" "scan_mode sc2 = type" "elem_size sc2 = ?es" "results sc2 = hits"
      "scan_valid sc2 = (hits \<noteq> [])"
      using f1 by (simp_all add: sc2_def)
    note e2 = each [rule_format, OF f2(1)]
    have sn: "scan_snapshot api s1 sc2 = ?new" using f2(1) pn by (simp add: scan_snapshot_def)
    have "scan_snapshot api s1 prev = ?old" using prev(3) po by (simp add: scan_snapshot_def)
    then have so: "scan_snapshot api s prev = ?old" using e2 prev(1) by (simp add: snapshots_kept_def)
    show ?thesis
    proof (cases "hits = []")
      case False
      have "scan_overlap api cmp type ?es raw2 r prev pr raw1 s = Some (Inr ([sc2], raw1', s1))"
        using True False cmp f2(5) by (simp add: scan_overlap_def new rd(1) sc1_def [symmetric])
      moreover have "next_exact api cmp type raw1 raw2 ?es r prev (scan_snapshot api s prev) (scan_snapshot api s1 sc2) sc2"
        using f2 rd(2) prev(3) e2 True False sn so by (simp add: next_exact_def hits_def)
      ultimately show ?thesis
        using False raw1' base [OF f2(1)] e2 f2(5)
        by (intro exI [of _ sc2] exI [of _ raw1'] exI [of _ s1]) simp
    next
      case none: True
      have "scan_overlap api cmp type ?es raw2 r prev pr raw1 s = Some (Inr ([], raw1', scan_destroy api sc2 s1))"
        using True none cmp f2(5) by (simp add: scan_overlap_def new rd(1) sc1_def [symmetric])
      moreover have "next_missing api cmp type raw1 raw2 ?es r prev (scan_snapshot api s prev)"
        using e2 True sn so prev(3) none by (auto simp: next_missing_def hits_def)
      ultimately show ?thesis
        using none raw1' base [OF f2(1)] dropped [OF f2(1)] f2(5)
        by (intro exI [of _ sc2] exI [of _ raw1'] exI [of _ "scan_destroy api sc2 s1"]) simp
    qed
  qed
qed


end
