(* ===== verification/Next_Walk.thy ===== *)
theory Next_Walk
  imports Next_Scan Still_Target
begin

text \<open>
  The correctness of \<open>next_scan\<close> as a whole: which region is compared with which previous scan,
  what is reported at which address, and what becomes of the copies.
\<close>

subsection \<open>The walk\<close>

text \<open>Which region is compared with which previous scan.\<close>

fun matches :: "memory_region list \<Rightarrow> scan list \<Rightarrow> (memory_region \<times> scan) list" where
  "matches [] prevs = []"
| "matches (r # rs) [] = []"
| "matches (r # rs) (prev # prevs) =
     (case scan_region prev of
        None \<Rightarrow> []
      | Some pr \<Rightarrow>
          if region_end r \<le> unat (region_base pr) then matches rs (prev # prevs)
          else if region_end pr \<le> unat (region_base r) then matches (r # rs) prevs
          else (r, prev) # matches rs (prev # prevs))"

text \<open>Environment: the reservations that the walk makes succeed.\<close>

fun next_reserves ::
  "'w win32 \<Rightarrow> comparator_fn \<Rightarrow> scan_type \<Rightarrow> u64 \<Rightarrow> u64 option \<Rightarrow> (memory_region \<times> scan) list \<Rightarrow> u64 \<Rightarrow> 'w sys \<Rightarrow> bool" where
  "next_reserves api cmp type elem_sz raw2 [] raw1 s = True"
| "next_reserves api cmp type elem_sz raw2 ((r, prev) # ms) raw1 s =
     ((case read_memory api r s of Inr (_, r1, _) \<Rightarrow> mem_reserved r1 | Inl _ \<Rightarrow> True)
      \<and> (case scan_region prev of None \<Rightarrow> True
         | Some pr \<Rightarrow> (case scan_overlap api cmp type elem_sz raw2 r prev pr raw1 s of
              Some (Inr (_, raw1', s1)) \<Rightarrow> next_reserves api cmp type elem_sz raw2 ms raw1' s1 | _ \<Rightarrow> True)))"

definition next_outcome ::
  "'w win32 \<Rightarrow> comparator_fn \<Rightarrow> scan_type \<Rightarrow> u64 \<Rightarrow> u64 option \<Rightarrow> u64 \<Rightarrow> 'w sys \<Rightarrow> 'w sys \<Rightarrow> memory_region \<times> scan \<Rightarrow> scan \<Rightarrow> bool" where
  "next_outcome api cmp type raw1 raw2 es s s' m sc \<longleftrightarrow> (case m of (r, prev) \<Rightarrow> scan_base sc = region_base r
     \<and> (if scan_valid sc
        then next_exact api cmp type raw1 raw2 es r prev (scan_snapshot api s prev) (scan_snapshot api s' sc) sc
        else next_missing api cmp type raw1 raw2 es r prev (scan_snapshot api s prev)))"

lemma next_outcome_raw1:
  "(\<not> from_snapshot type \<longrightarrow> raw1' = raw1) \<Longrightarrow>
   next_outcome api cmp type raw1' raw2 es s s' m sc = next_outcome api cmp type raw1 raw2 es s s' m sc"
  using overlap_hits_raw1 [of type raw1' raw1]
  by (simp add: next_outcome_def next_exact_def next_missing_def split: prod.splits)

lemma next_outcome_states:
  assumes "scan_snapshot api s1 (snd m) = scan_snapshot api s (snd m)"
    and "scan_valid sc \<Longrightarrow> scan_snapshot api s1' sc = scan_snapshot api s' sc"
  shows "next_outcome api cmp type raw1 raw2 es s1 s1' m sc = next_outcome api cmp type raw1 raw2 es s s' m sc"
  using assms by (auto simp: next_outcome_def split: prod.splits)

lemma ends_word:
  assumes "region_end r \<le> 2 ^ 48"
  shows "unat (region_base r + region_size r) = region_end r"
  using assms by (simp add: region_end_def unat_add_no_wrap)

lemma matches_subset: "(r, prev) \<in> set (matches rs prevs) \<Longrightarrow> r \<in> set rs \<and> prev \<in> set prevs"
proof (induction rs prevs rule: matches.induct)
  case (3 r' rs p prevs)
  then show ?case by (cases "scan_region p") (auto split: if_splits)
qed simp_all

lemma next_loop_spec:
  assumes "rpm_docs api" and "scans_ok api s (owned @ found)" and "set prevs \<subseteq> set owned" and "\<forall>p \<in> set prevs. placed p"
    and "\<forall>r \<in> set rs. region_ok r \<and> \<not> mem_reserved r \<and> region_size r \<noteq> 0 \<and> region_end r \<le> 2 ^ 48"
    and "unat (foffset (dump_file s)) + (\<Sum>r\<leftarrow>rs. unat (region_size r)) \<le> 2 ^ 60"
    and "next_reserves api cmp type (element_size et) raw2 (matches rs prevs) raw1 s"
  shows "\<exists>scs s'. next_loop api cmp type (element_size et) raw2 rs prevs raw1 found s
      = Some (Inr (found @ filter scan_valid scs, s'))
    \<and> list_all2 (next_outcome api cmp type raw1 raw2 (element_size et) s s') (matches rs prevs) scs
    \<and> scans_ok api s' (owned @ found @ filter scan_valid scs) \<and> snapshots_kept api s s' (owned @ found)
    \<and> unat (foffset (dump_file s')) \<le> unat (foffset (dump_file s)) + (\<Sum>r\<leftarrow>rs. unat (region_size r))"
  using assms(2-)
proof (induction rs prevs arbitrary: raw1 found s rule: matches.induct)
  case (1 prevs)
  then show ?case by (intro exI [of _ "[]"] exI [of _ s]) simp
next
  case (2 r rs)
  then show ?case by (intro exI [of _ "[]"] exI [of _ s]) simp
next
  case (3 r rs prev prevs)
  obtain pr where pr: "scan_region prev = Some pr" "region_end pr \<le> 2 ^ 48"
    using "3.prems"(3) by (auto simp: placed_def)
  have r: "region_ok r" "\<not> mem_reserved r" "region_size r \<noteq> 0" "region_end r \<le> 2 ^ 48"
    and rs: "\<forall>r \<in> set rs. region_ok r \<and> \<not> mem_reserved r \<and> region_size r \<noteq> 0 \<and> region_end r \<le> 2 ^ 48"
    using "3.prems"(4) by simp_all
  note ends = ends_word [OF r(4)] ends_word [OF pr(2)]
  show ?case
  proof (cases "region_end r \<le> unat (region_base pr)")
    case True
    then have w: "region_base r + region_size r \<le> region_base pr" by (simp add: word_le_nat_alt ends)
    have "unat (foffset (dump_file s)) + (\<Sum>r\<leftarrow>rs. unat (region_size r)) \<le> 2 ^ 60" using "3.prems"(5) by simp
    from "3.IH"(1) [OF pr(1) True "3.prems"(1-3) rs this] "3.prems"(6) pr(1) True w
    show ?thesis by fastforce
  next
    case below: False
    then have w1: "\<not> region_base r + region_size r \<le> region_base pr" by (simp add: word_le_nat_alt ends)
    show ?thesis
    proof (cases "region_end pr \<le> unat (region_base r)")
      case True
      then have w: "region_base pr + region_size pr \<le> region_base r" by (simp add: word_le_nat_alt ends)
      have "set prevs \<subseteq> set owned" "\<forall>p \<in> set prevs. placed p" using "3.prems"(2,3) by simp_all
      from "3.IH"(2) [OF pr(1) below True "3.prems"(1) this "3.prems"(4,5)] "3.prems"(6) pr(1) below True w w1
      show ?thesis by simp
    next
      case False
      then have w2: "\<not> region_base pr + region_size pr \<le> region_base r" by (simp add: word_le_nat_alt ends)
      have m: "matches (r # rs) (prev # prevs) = (r, prev) # matches rs (prev # prevs)"
        using pr(1) below False by simp
      have ov: "overlapping r pr" using below False by (simp add: overlapping_def)
      have room: "unat (foffset (dump_file s)) + unat (region_size r) \<le> 2 ^ 60" using "3.prems"(5) by simp
      have owned: "prev \<in> set (owned @ found)" "placed prev" using "3.prems"(2,3) by simp_all
      have res: "\<forall>ok r1 s1. read_memory api r s = Inr (ok, r1, s1) \<longrightarrow> mem_reserved r1"
        using "3.prems"(6) unfolding m by auto
      obtain sc raw1' s1 where st: "scan_overlap api cmp type (element_size et) raw2 r prev pr raw1 s
          = Some (Inr (filter scan_valid [sc], raw1', s1))"
        and raw: "\<not> from_snapshot type \<longrightarrow> raw1' = raw1" and base: "scan_base sc = region_base r"
        and ok: "scans_ok api s1 ((owned @ found) @ filter scan_valid [sc])" and kept: "snapshots_kept api s s1 (owned @ found)"
        and fo: "unat (foffset (dump_file s1)) = unat (foffset (dump_file s)) + unat (region_size r)"
        and out: "if scan_valid sc
           then next_exact api cmp type raw1 raw2 (element_size et) r prev (scan_snapshot api s prev) (scan_snapshot api s1 sc) sc
           else next_missing api cmp type raw1 raw2 (element_size et) r prev (scan_snapshot api s prev)"
        using scan_overlap_spec [OF "3.prems"(1) assms(1) r room owned pr(1) ov res] by blast
      let ?found = "found @ filter scan_valid [sc]"
      have "next_reserves api cmp type (element_size et) raw2 (matches rs (prev # prevs)) raw1' s1"
        using "3.prems"(6) pr(1) st unfolding m by simp
      moreover have "scans_ok api s1 (owned @ ?found)" using ok by simp
      moreover have "unat (foffset (dump_file s1)) + (\<Sum>r\<leftarrow>rs. unat (region_size r)) \<le> 2 ^ 60"
        using "3.prems"(5) fo by simp
      ultimately obtain scs s' where ih: "next_loop api cmp type (element_size et) raw2 rs (prev # prevs) raw1' ?found s1
          = Some (Inr (?found @ filter scan_valid scs, s'))"
        "list_all2 (next_outcome api cmp type raw1' raw2 (element_size et) s1 s') (matches rs (prev # prevs)) scs"
        "scans_ok api s' (owned @ ?found @ filter scan_valid scs)" "snapshots_kept api s1 s' (owned @ ?found)"
        "unat (foffset (dump_file s')) \<le> unat (foffset (dump_file s1)) + (\<Sum>r\<leftarrow>rs. unat (region_size r))"
        using "3.IH"(3) [OF pr(1) below False _ "3.prems"(2,3) rs] by blast
      have run: "next_loop api cmp type (element_size et) raw2 (r # rs) (prev # prevs) raw1 found s
          = Some (Inr (found @ filter scan_valid (sc # scs), s'))"
        using pr(1) w1 w2 st ih(1) by simp
      have old: "scan_snapshot api s1 p = scan_snapshot api s p" if "p \<in> set owned" for p
        using kept that by (simp add: snapshots_kept_def)
      have "next_outcome api cmp type raw1 raw2 (element_size et) s s' m sc'"
        if "m \<in> set (matches rs (prev # prevs))" "next_outcome api cmp type raw1' raw2 (element_size et) s1 s' m sc'" for m sc'
      proof -
        have "snd m \<in> set owned"
          using that(1) matches_subset [of "fst m" "snd m" rs "prev # prevs"] "3.prems"(2) by auto
        from next_outcome_states [of api s1 m s sc' s' s'] old [OF this] that(2) next_outcome_raw1 [OF raw]
        show ?thesis by metis
      qed
      then have rest: "list_all2 (next_outcome api cmp type raw1 raw2 (element_size et) s s') (matches rs (prev # prevs)) scs"
        using ih(2) by (auto simp: list_all2_conv_all_nth)
      have "scan_snapshot api s' sc = scan_snapshot api s1 sc" if "scan_valid sc"
        using ih(4) that by (simp add: snapshots_kept_def)
      then have "next_outcome api cmp type raw1 raw2 (element_size et) s s' (r, prev) sc"
        using out base by (simp add: next_outcome_def)
      with rest have all: "list_all2 (next_outcome api cmp type raw1 raw2 (element_size et) s s')
          (matches (r # rs) (prev # prevs)) (sc # scs)" unfolding m by simp
      have "snapshots_kept api s s' (owned @ found)"
        using kept ih(4) by (auto intro: snapshots_kept_trans)
      moreover have "scans_ok api s' (owned @ found @ filter scan_valid (sc # scs))"
        using ih(3) by (cases "scan_valid sc") simp_all
      moreover have "unat (foffset (dump_file s')) \<le> unat (foffset (dump_file s)) + (\<Sum>r\<leftarrow>r # rs. unat (region_size r))"
        using ih(5) fo by simp
      ultimately show ?thesis using run all by blast
    qed
  qed
qed

subsection \<open>The whole scan\<close>

lemma clear_scans_spec:
  "scans_ok api s (prevs @ rest) \<Longrightarrow> scans_ok api (clear_scans api prevs s) rest
    \<and> snapshots_kept api s (clear_scans api prevs s) rest \<and> dump_file (clear_scans api prevs s) = dump_file s"
proof (induction prevs arbitrary: s)
  case (Cons sc prevs)
  then have "scans_ok api s ([] @ sc # (prevs @ rest))" by simp
  from scans_ok_destroy [OF this] have d: "scans_ok api (scan_destroy api sc s) (prevs @ rest)"
    "snapshots_kept api s (scan_destroy api sc s) rest" by simp_all
  from Cons.IH [OF d(1)] d(2) show ?case by (auto intro: snapshots_kept_trans)
qed simp

lemma matches_bases:
  "sorted_wrt (\<lambda>r r'. region_base r < region_base r') rs \<Longrightarrow>
   sorted_wrt (\<lambda>m m'. region_base (fst m) < region_base (fst m')) (matches rs prevs)"
proof (induction rs prevs rule: matches.induct)
  case (3 r rs p prevs)
  then show ?case
    by (cases "scan_region p") (auto dest: matches_subset)
qed simp_all

text \<open>Every entry made denotes an element of the new region.\<close>

lemma index_in_region:
  assumes "off + es \<le> n" and "0 < (es :: nat)"
  shows "off div es < n div es"
proof -
  have "off div es * es \<le> off" by simp
  then have "Suc (off div es) * es \<le> n" using assms(1) unfolding mult_Suc by linarith
  then show ?thesis using assms(2) by (metis Suc_le_lessD less_eq_div_iff_mult_less_eq)
qed

lemma overlap_hits_entries:
  assumes "0 < unat es" and "unat es \<le> 8" and "overlapping r pr"
  shows "entries_ok es r (overlap_hits cmp type raw1 raw2 (unat es) r prev pr new old)"
proof -
  let ?e = "unat es" and ?s = "unat (region_size r)"
  have hit: "unat (element_index (hit v (off div ?e))) < ?s div ?e" if "off + ?e \<le> ?s" for off v
  proof -
    note l = index_in_region [OF that assms(1)]
    then have "off div ?e < 18446744073709551616"
      using u64_max [of "region_size r"] div_le_dividend [of ?s ?e] by linarith
    with l show ?thesis by (simp add: hit_def unat_of_nat_u64)
  qed
  have el: "e \<in> set (element_hits cmp raw2 ?e new old ro po n) \<Longrightarrow> ro + n \<le> ?s \<Longrightarrow>
      unat (element_index e) < ?s div ?e \<and> unat (entry_value e) < 2 ^ (8 * ?e)" for e ro po n
  proof -
    assume "e \<in> set (element_hits cmp raw2 ?e new old ro po n)" and ro: "ro + n \<le> ?s"
    then obtain k where k: "k < n div ?e" "e = hit (value_at ?e new (ro + k * ?e)) ((ro + k * ?e) div ?e)"
      by (auto simp: element_hits_def)
    have "Suc k * ?e \<le> n" using k(1) assms(1) by (metis Suc_leI less_eq_div_iff_mult_less_eq)
    then have "ro + k * ?e + ?e \<le> ?s" using ro by (simp add: add.commute)
    from hit [OF this] value_at_bound [OF assms(2)] show ?thesis by (simp add: k(2)) (simp add: hit_def)
  qed
  have en: "e \<in> set (entry_hits cmp type raw1 raw2 ?e new rs ps a b entries) \<Longrightarrow> rs \<le> a \<Longrightarrow> b \<le> rs + ?s \<Longrightarrow>
      unat (element_index e) < ?s div ?e \<and> unat (entry_value e) < 2 ^ (8 * ?e)" for e rs ps a b entries
  proof -
    assume "e \<in> set (entry_hits cmp type raw1 raw2 ?e new rs ps a b entries)" and ab: "rs \<le> a" "b \<le> rs + ?s"
    then obtain e0 where e0: "a \<le> entry_addr ?e ps e0" "entry_addr ?e ps e0 + ?e \<le> b"
      "e = hit (value_at ?e new ((entry_addr ?e ps e0 - rs) div ?e * ?e)) ((entry_addr ?e ps e0 - rs) div ?e)"
      by (auto simp: entry_hits_def Let_def split: if_splits)
    have "entry_addr ?e ps e0 - rs + ?e \<le> ?s" using e0(1,2) ab by linarith
    from hit [OF this] value_at_bound [OF assms(2)] show ?thesis by (simp add: e0(3)) (simp add: hit_def)
  qed
  have b: "max (unat (region_base r)) (unat (region_base pr)) \<le> min (region_end r) (region_end pr)"
    using assms(3) by (auto simp: overlapping_def region_end_def)
  show ?thesis
    unfolding entries_ok_def
  proof
    fix e
    assume e: "e \<in> set (overlap_hits cmp type raw1 raw2 ?e r prev pr new old)"
    show "unat (element_index e) < ?s div ?e \<and> unat (entry_value e) < 2 ^ (8 * ?e)"
    proof (cases "scan_mode prev = unknown_value")
      case True
      with e el [of e] b show ?thesis by (simp add: overlap_hits_def Let_def region_end_def)
    next
      case False
      with e en [of e] show ?thesis by (simp add: overlap_hits_def Let_def region_end_def)
    qed
  qed
qed

lemma matches_overlapping:
  "(r, p) \<in> set (matches rs prevs) \<Longrightarrow> \<exists>pr. scan_region p = Some pr \<and> overlapping r pr"
proof (induction rs prevs rule: matches.induct)
  case (3 r' rs p' prevs)
  then show ?case by (cases "scan_region p'") (auto simp: overlapping_def split: if_splits)
qed simp_all

lemma next_outcome_base:
  "next_outcome api cmp type raw1 raw2 es s s' m sc \<Longrightarrow> scan_base sc = region_base (fst m)"
  by (simp add: next_outcome_def split: prod.splits)

lemma next_scan_spec:
  assumes "query_docs api" and "rpm_docs api" and ok: "scans_ok api s (prevs @ others)" and pl: "\<forall>p \<in> set prevs. placed p"
    and regions: "get_regions api h (lo, hi) protect (world s) = Some rs"
    and room: "unat (foffset (dump_file s)) + (\<Sum>r\<leftarrow>rs. unat (region_size r)) \<le> 2 ^ 60"
    and res: "next_reserves api (make_comparator type et) type (element_size et) raw2 (matches rs prevs) raw1 s"
  shows "\<exists>scs s'. next_scan api h (lo, hi) protect type et prevs raw1 raw2 s = Some (Inr (filter scan_valid scs, s'))
    \<and> list_all2 (next_outcome api (make_comparator type et) type raw1 raw2 (element_size et) s s') (matches rs prevs) scs
    \<and> sorted_wrt (\<lambda>a b. scan_base a < scan_base b) scs
    \<and> scans_ok api s' (others @ filter scan_valid scs) \<and> snapshots_kept api s s' others
    \<and> (\<forall>sc \<in> set scs. scan_valid sc \<longrightarrow> placed sc)
    \<and> unat (foffset (dump_file s')) \<le> unat (foffset (dump_file s)) + (\<Sum>r\<leftarrow>rs. unat (region_size r))"
proof -
  let ?cmp = "make_comparator type et" and ?es = "element_size et"
  note fresh = get_regions_fresh [OF assms(1) regions]
  have "scans_ok api s ((prevs @ others) @ [])" using ok by simp
  moreover have "\<forall>r \<in> set rs. region_ok r \<and> \<not> mem_reserved r \<and> region_size r \<noteq> 0 \<and> region_end r \<le> 2 ^ 48"
    using fresh(1) by (simp add: fresh_regions_def)
  ultimately obtain scs s1 where loop: "next_loop api ?cmp type ?es raw2 rs prevs raw1 [] s = Some (Inr (filter scan_valid scs, s1))"
    and out: "list_all2 (next_outcome api ?cmp type raw1 raw2 ?es s s1) (matches rs prevs) scs"
    and ok1: "scans_ok api s1 ((prevs @ others) @ filter scan_valid scs)" and kept: "snapshots_kept api s s1 (prevs @ others)"
    and fo: "unat (foffset (dump_file s1)) \<le> unat (foffset (dump_file s)) + (\<Sum>r\<leftarrow>rs. unat (region_size r))"
    using next_loop_spec [OF assms(2) _ _ pl _ room res, of "prevs @ others" "[]"] by auto
  define s' where "s' = clear_scans api prevs s1"
  have "scans_ok api s1 (prevs @ (others @ filter scan_valid scs))" using ok1 by simp
  note cl = clear_scans_spec [OF this, folded s'_def]
  have "map scan_base scs = map (region_base \<circ> fst) (matches rs prevs)"
    using out by (intro nth_equalityI) (auto simp: list_all2_conv_all_nth dest!: next_outcome_base)
  moreover have "sorted_wrt (<) (map (region_base \<circ> fst) (matches rs prevs))"
    using matches_bases [OF fresh(2)] by (simp add: sorted_wrt_map)
  ultimately have sorted: "sorted_wrt (\<lambda>a b. scan_base a < scan_base b) scs" by (metis sorted_wrt_map)
  then have "sorted (map scan_base (filter scan_valid scs))"
    by (simp add: sorted_wrt_map sorted_wrt_filter sorted_wrt_mono_rel [where P = "\<lambda>a b. scan_base a < scan_base b"])
  then have "sort_key scan_base (filter scan_valid scs) = filter scan_valid scs" by (rule sort_key_id_if_sorted)
  then have run: "next_scan api h (lo, hi) protect type et prevs raw1 raw2 s = Some (Inr (filter scan_valid scs, s'))"
    using regions loop by (simp add: next_scan_def s'_def)
  have "next_outcome api ?cmp type raw1 raw2 ?es s s' m sc"
    if "next_outcome api ?cmp type raw1 raw2 ?es s s1 m sc" "sc \<in> set scs" for m sc
  proof -
    have "scan_snapshot api s' sc = scan_snapshot api s1 sc" if "scan_valid sc"
      using cl that \<open>sc \<in> set scs\<close> by (simp add: snapshots_kept_def)
    with next_outcome_states [of api s m s sc s' s1] that(1) show ?thesis by simp
  qed
  with out have out': "list_all2 (next_outcome api ?cmp type raw1 raw2 ?es s s') (matches rs prevs) scs"
    by (auto simp: list_all2_conv_all_nth)
  have "placed sc" if sc: "sc \<in> set scs" "scan_valid sc" for sc
  proof -
    from sc(1) obtain k where k: "k < length scs" "sc = scs ! k" by (metis in_set_conv_nth)
    obtain r prev where m: "matches rs prevs ! k = (r, prev)" by force
    have kl: "k < length (matches rs prevs)" using out k(1) by (simp add: list_all2_lengthD)
    then have mem: "(r, prev) \<in> set (matches rs prevs)" using m by (metis nth_mem)
    then obtain pr where pr: "scan_region prev = Some pr" "overlapping r pr" using matches_overlapping by blast
    have re: "region_end r \<le> 2 ^ 48" using matches_subset [OF mem] fresh(1) by (simp add: fresh_regions_def)
    have "next_outcome api ?cmp type raw1 raw2 ?es s s1 (r, prev) sc"
      using out k kl m by (auto simp: list_all2_conv_all_nth)
    with sc(2) obtain r1 new old where x: "scan_region sc = Some r1" "region_mbi r1 = region_mbi r" "elem_size sc = ?es"
      "results sc = overlap_hits ?cmp type raw1 raw2 (unat ?es) r prev pr new old"
      using pr(1) by (auto simp: next_outcome_def next_exact_def)
    have es: "0 < unat ?es" "unat ?es \<le> 8" by (cases et; simp)+
    have "region_size r1 = region_size r" "region_end r1 = region_end r"
      using x(2) by (simp_all add: region_size_def region_end_def region_base_def)
    with x es re overlap_hits_entries [OF es pr(2)] show ?thesis by (simp add: placed_def entries_ok_def)
  qed
  moreover have "scans_ok api s' (others @ filter scan_valid scs)" using cl by simp
  moreover have "snapshots_kept api s s' others" using kept cl by (auto intro: snapshots_kept_trans)
  ultimately show ?thesis using run out' sorted fo cl by (intro exI [of _ scs] exI [of _ s']) simp
qed

subsection \<open>The first overlap\<close>

definition first_overlap :: "scan list \<Rightarrow> memory_region \<Rightarrow> scan option" where
  "first_overlap prevs r =
     find (\<lambda>p. case scan_region p of None \<Rightarrow> False | Some pr \<Rightarrow> overlapping r pr) prevs"

lemma matches_first_overlap:
  assumes "sorted_wrt (\<lambda>r r'. region_base r < region_base r') rs"
    and "sorted_wrt (\<lambda>p q. scan_base p \<le> scan_base q) prevs" and "\<forall>p \<in> set prevs. scan_region p \<noteq> None"
  shows "(r, p) \<in> set (matches rs prevs) \<longleftrightarrow> r \<in> set rs \<and> first_overlap prevs r = Some p"
  using assms
proof (induction rs prevs rule: matches.induct)
  case (3 r' rs p' prevs)
  obtain pr where pr: "scan_region p' = Some pr" using "3.prems"(3) by auto
  have srs: "sorted_wrt (\<lambda>r r'. region_base r < region_base r') rs" and above: "\<forall>q \<in> set rs. region_base r' < region_base q"
    using "3.prems"(1) by simp_all
  have later: "unat (region_base pr) \<le> unat (region_base qr)" if "q \<in> set prevs" "scan_region q = Some qr" for q qr
    using "3.prems"(2) that pr by (auto simp: scan_base_def word_le_nat_alt)
  show ?case
  proof (cases "region_end r' \<le> unat (region_base pr)")
    case True
    have "\<not> overlapping r' qr" if "q \<in> set (p' # prevs)" "scan_region q = Some qr" for q qr
      using that pr later [of q qr] True by (auto simp: overlapping_def)
    then have none: "first_overlap (p' # prevs) r' = None"
      unfolding first_overlap_def find_None_iff by (auto split: option.splits)
    with "3.IH"(1) [OF pr True srs "3.prems"(2,3)] show ?thesis using pr True by auto
  next
    case below: False
    show ?thesis
    proof (cases "region_end pr \<le> unat (region_base r')")
      case True
      have "\<not> overlapping q pr" if "q \<in> set (r' # rs)" for q
        using that above True by (auto simp: overlapping_def word_less_nat_alt)
      then have skip: "first_overlap (p' # prevs) q = first_overlap prevs q" if "q \<in> set (r' # rs)" for q
        using that pr by (simp add: first_overlap_def)
      have "sorted_wrt (\<lambda>p q. scan_base p \<le> scan_base q) prevs" "\<forall>p \<in> set prevs. scan_region p \<noteq> None"
        using "3.prems"(2,3) by simp_all
      from "3.IH"(2) [OF pr below True "3.prems"(1) this] skip pr below True show ?thesis by auto
    next
      case False
      then have "first_overlap (p' # prevs) r' = Some p'"
        using pr below by (simp add: first_overlap_def overlapping_def)
      with "3.IH"(3) [OF pr below False srs "3.prems"(2,3)] pr below False show ?thesis by auto
    qed
  qed
qed (simp_all add: first_overlap_def)

lemma strictly_sorted_inj:
  "sorted_wrt (\<lambda>x y. f x < (f y :: u64)) xs \<Longrightarrow> x \<in> set xs \<Longrightarrow> y \<in> set xs \<Longrightarrow> f x = f y \<Longrightarrow> x = y"
  by (induction xs) (simp, metis less_irrefl set_ConsD sorted_wrt.simps(2))

lemma next_scan_sources:
  assumes "query_docs api" and "rpm_docs api" and "scans_ok api s (prevs @ others)" and "\<forall>p \<in> set prevs. placed p"
    and "sorted_wrt (\<lambda>p q. scan_base p \<le> scan_base q) prevs"
    and "get_regions api h (lo, hi) protect (world s) = Some rs"
    and "unat (foffset (dump_file s)) + (\<Sum>r\<leftarrow>rs. unat (region_size r)) \<le> 2 ^ 60"
    and "next_reserves api (make_comparator type et) type (element_size et) raw2 (matches rs prevs) raw1 s"
  shows "\<exists>found s'. next_scan api h (lo, hi) protect type et prevs raw1 raw2 s = Some (Inr (found, s'))
    \<and> sorted_wrt (\<lambda>a b. scan_base a < scan_base b) found
    \<and> (\<forall>sc \<in> set found. \<exists>r \<in> set rs. scan_base sc = region_base r)
    \<and> (\<forall>r \<in> set rs. case first_overlap prevs r of
         None \<Rightarrow> \<forall>sc \<in> set found. scan_base sc \<noteq> region_base r
       | Some p \<Rightarrow>
           (\<exists>sc \<in> set found. scan_base sc = region_base r
              \<and> next_exact api (make_comparator type et) type raw1 raw2 (element_size et) r p
                  (scan_snapshot api s p) (scan_snapshot api s' sc) sc)
         \<or> ((\<forall>sc \<in> set found. scan_base sc \<noteq> region_base r)
              \<and> next_missing api (make_comparator type et) type raw1 raw2 (element_size et) r p (scan_snapshot api s p)))"
proof -
  let ?cmp = "make_comparator type et" and ?es = "element_size et" and ?ms = "matches rs prevs"
  obtain scs s' where run: "next_scan api h (lo, hi) protect type et prevs raw1 raw2 s = Some (Inr (filter scan_valid scs, s'))"
    and out: "list_all2 (next_outcome api ?cmp type raw1 raw2 ?es s s') ?ms scs"
    and sorted: "sorted_wrt (\<lambda>a b. scan_base a < scan_base b) scs"
    using next_scan_spec [OF assms(1-4,6-8)] by blast
  note fresh = get_regions_fresh [OF assms(1,6)]
  have "\<forall>p \<in> set prevs. scan_region p \<noteq> None" using assms(4) by (auto simp: placed_def)
  note mf = matches_first_overlap [OF fresh(2) assms(5) this]
  note base = next_outcome_base
  have inj: "sc = sc'" if "sc \<in> set scs" "sc' \<in> set scs" "scan_base sc = scan_base sc'" for sc sc'
    using sorted that by (induction scs) auto
  have source_of: "\<exists>m \<in> set ?ms. next_outcome api ?cmp type raw1 raw2 ?es s s' m sc" if "sc \<in> set scs" for sc
    using out that by (metis in_set_conv_nth list_all2_conv_all_nth)
  have target_of: "\<exists>sc \<in> set scs. next_outcome api ?cmp type raw1 raw2 ?es s s' m sc" if "m \<in> set ?ms" for m
    using out that by (metis in_set_conv_nth list_all2_conv_all_nth)
  have regs: "\<exists>r \<in> set rs. scan_base sc = region_base r" if "sc \<in> set scs" for sc
    using source_of [OF that] base matches_subset by (metis prod.collapse)
  have none: "scan_base sc \<noteq> region_base r" if r: "r \<in> set rs" "first_overlap prevs r = None" and sc: "sc \<in> set scs" for r sc
  proof
    assume eq: "scan_base sc = region_base r"
    from source_of [OF sc] obtain r' p where m: "(r', p) \<in> set ?ms" "next_outcome api ?cmp type raw1 raw2 ?es s s' (r', p) sc"
      by (metis prod.collapse)
    have "r' = r" using strictly_sorted_inj [OF fresh(2)] base [OF m(2)] matches_subset [OF m(1)] r(1) eq by simp
    with m(1) r(2) mf show False by simp
  qed
  have some: "(\<exists>sc \<in> set (filter scan_valid scs). scan_base sc = region_base r
        \<and> next_exact api ?cmp type raw1 raw2 ?es r p (scan_snapshot api s p) (scan_snapshot api s' sc) sc)
      \<or> ((\<forall>sc \<in> set (filter scan_valid scs). scan_base sc \<noteq> region_base r)
        \<and> next_missing api ?cmp type raw1 raw2 ?es r p (scan_snapshot api s p))"
    if r: "r \<in> set rs" "first_overlap prevs r = Some p" for r p
  proof -
    from r mf have "(r, p) \<in> set ?ms" by blast
    from target_of [OF this] obtain sc where sc: "sc \<in> set scs" "next_outcome api ?cmp type raw1 raw2 ?es s s' (r, p) sc" by blast
    then have b: "scan_base sc = region_base r" using base by fastforce
    show ?thesis
    proof (cases "scan_valid sc")
      case True
      with sc b show ?thesis by (auto simp: next_outcome_def)
    next
      case False
      then have "scan_base sc' \<noteq> region_base r" if "sc' \<in> set (filter scan_valid scs)" for sc'
        using that inj [OF sc(1), of sc'] b by auto
      with sc(2) False show ?thesis by (auto simp: next_outcome_def)
    qed
  qed
  have "sorted_wrt (\<lambda>a b. scan_base a < scan_base b) (filter scan_valid scs)" using sorted by (rule sorted_wrt_filter)
  moreover have "\<forall>sc \<in> set (filter scan_valid scs). \<exists>r \<in> set rs. scan_base sc = region_base r" using regs by simp
  moreover have "case first_overlap prevs r of None \<Rightarrow> \<forall>sc \<in> set (filter scan_valid scs). scan_base sc \<noteq> region_base r
       | Some p \<Rightarrow> (\<exists>sc \<in> set (filter scan_valid scs). scan_base sc = region_base r
              \<and> next_exact api ?cmp type raw1 raw2 ?es r p (scan_snapshot api s p) (scan_snapshot api s' sc) sc)
         \<or> ((\<forall>sc \<in> set (filter scan_valid scs). scan_base sc \<noteq> region_base r)
              \<and> next_missing api ?cmp type raw1 raw2 ?es r p (scan_snapshot api s p))" if "r \<in> set rs" for r
    using none [OF that] some [OF that] by (cases "first_overlap prevs r") simp_all
  ultimately show ?thesis using run by blast
qed


subsection \<open>Properties\<close>

text \<open>
  C2: each region is compared with the first previous scan it overlaps, and nothing is missed or
  added there. For previous scans in the order of their bases, with their copies in the dump
  file, \<open>next_scan\<close> returns and reads no byte outside the copies (there is no fault). The scans
  come in ascending order of their bases and each belongs to a region of the range. A region that
  overlaps no previous scan has no scan; one that does has a scan with exactly the entries that
  the comparison with that first scan yields (\<open>overlap_hits\<close> of the bytes delivered and of the old
  copy), or has none, because it could not be read or because there are no such entries.
\<close>

theorem next_scan_first_overlap:
  assumes "query_docs api" and "rpm_docs api" and "scans_ok api s (prevs @ others)" and "\<forall>p \<in> set prevs. placed p"
    and "sorted_wrt (\<lambda>p q. scan_base p \<le> scan_base q) prevs"
    and "get_regions api h (lo, hi) protect (world s) = Some rs"
    and "unat (foffset (dump_file s)) + (\<Sum>r\<leftarrow>rs. unat (region_size r)) \<le> 2 ^ 60"
    and "next_reserves api (make_comparator type et) type (element_size et) raw2 (matches rs prevs) raw1 s"
  shows "\<exists>found s'. next_scan api h (lo, hi) protect type et prevs raw1 raw2 s = Some (Inr (found, s'))
    \<and> sorted_wrt (\<lambda>a b. scan_base a < scan_base b) found
    \<and> (\<forall>sc \<in> set found. \<exists>r \<in> set rs. scan_base sc = region_base r)
    \<and> (\<forall>r \<in> set rs. case first_overlap prevs r of
         None \<Rightarrow> \<forall>sc \<in> set found. scan_base sc \<noteq> region_base r
       | Some p \<Rightarrow>
           (\<exists>sc \<in> set found. scan_base sc = region_base r
              \<and> next_exact api (make_comparator type et) type raw1 raw2 (element_size et) r p
                  (scan_snapshot api s p) (scan_snapshot api s' sc) sc)
         \<or> ((\<forall>sc \<in> set found. scan_base sc \<noteq> region_base r)
              \<and> next_missing api (make_comparator type et) type raw1 raw2 (element_size et) r p (scan_snapshot api s p)))"
  by (rule next_scan_sources [OF assms])
subsection \<open>A second round on the sample platform\<close>

text \<open>The state after a first scan of the sample region for the byte 5, and its one scan.\<close>

definition hit5 :: scan_entry where
  "hit5 = \<lparr>entry_value = 5, snapshot_value = 5, element_index = 5\<rparr>"

definition scan5 :: "memory_region \<Rightarrow> scan" where
  "scan5 r = \<lparr>scan_region = Some r, scan_mode = exact_value, elem_size = 1, scan_valid = True, results = [hit5]\<rparr>"

lemma scan5_region [simp]: "scan_region (scan5 r) = Some r"
  by (simp add: scan5_def)

lemma still_second_round:
  "\<exists>r s. scans_ok still_api s [scan5 r] \<and> placed (scan5 r) \<and> region_base r = 0x10000 \<and> region_end r = 0x10008
    \<and> scan_snapshot still_api s (scan5 r) = [0, 1, 2, 3, 4, 5, 6, 7]
    \<and> get_regions still_api 7 (0x10000, 0x10008) 4 (world s) = Some [sample_region]
    \<and> unat (foffset (dump_file s)) + (\<Sum>r\<leftarrow>[sample_region]. unat (region_size r)) \<le> 2 ^ 60
    \<and> next_reserves still_api cmp type es raw2 (matches [sample_region] [scan5 r]) raw1 s
    \<and> unat (foffset (dump_file s)) = 8"
proof -
  let ?s0 = "sample_sys [sample_mbi] ucast"
  obtain ok r s where rd: "read_memory still_api sample_region ?s0 = Inr (ok, r, s)" "ok" "mem_reserved r"
    "target (world s) = [sample_mbi]"
    and again: "case reserve still_api sample_region s of Inl _ \<Rightarrow> False | Inr (ok', r', s') \<Rightarrow> ok'"
  proof (cases "read_memory still_api sample_region ?s0")
    case (Inr x)
    then show ?thesis using still_read_twice that by (cases x) simp
  qed (use still_read_twice in simp)
  have room: "unat (foffset (dump_file ?s0)) + unat (region_size sample_region) \<le> 2 ^ 60" by (simp add: sample_sys_inv)
  have ne: "region_size sample_region \<noteq> 0" by simp
  from scans_ok_read [OF still_scans_ok still_docs(2) sample_region_simps(1,2) ne room] rd
  have r: "region_mbi r = region_mbi sample_region" "region_ok r" "scans_ok still_api s [scan5 r]"
    "unat (foffset (dump_file s)) = 8" "delivered still_api sample_region True (scan_snapshot still_api s (scan5 r))"
    by (auto simp: sample_sys_inv dest!: spec [of _ "scan5 r"])
  then have size: "region_base r = 0x10000" "region_size r = 8" "region_end r = 0x10008"
    using sample_region_simps(3,4) by (simp_all add: region_base_def region_size_def region_end_def)
  have "placed (scan5 r)" by (simp add: placed_def scan5_def size entries_ok_def hit5_def)
  moreover have "scan_snapshot still_api s (scan5 r) = [0, 1, 2, 3, 4, 5, 6, 7]" using r(5) by (simp add: still_delivered)
  moreover have "get_regions still_api 7 (0x10000, 0x10008) 4 (world s) = Some [sample_region]"
    by (rule still_regions_at [OF rd(4)])
  moreover have "next_reserves still_api cmp type es raw2 (matches [sample_region] [scan5 r]) raw1 s"
  proof -
    have "case read_memory still_api sample_region s of Inr (_, r1, _) \<Rightarrow> mem_reserved r1 | Inl _ \<Rightarrow> True"
      using again by (auto simp: read_memory_def reserve_def split: sum.splits prod.splits if_splits)
    moreover have "matches [sample_region] [scan5 r] = [(sample_region, scan5 r)]"
      by (simp add: scan5_def size region_end_def)
    ultimately show ?thesis by (auto split: option.splits sum.splits)
  qed
  ultimately show ?thesis using r(3,4) size by (intro exI [of _ r] exI [of _ s]) simp
qed

lemma sorted_single:
  "sorted_wrt (\<lambda>a b. f a < (f b :: u64)) xs \<Longrightarrow> x \<in> set xs \<Longrightarrow> \<forall>y \<in> set xs. f y = f x \<Longrightarrow> xs = [x]"
  by (cases xs; cases "tl xs") auto

lemma sample_region_end [simp]: "region_end sample_region = 0x10008"
  by (simp add: region_end_def)

lemma still_hits:
  assumes "region_base r = 0x10000" and "region_end r = 0x10008"
  shows "overlap_hits (make_comparator unchanged U8) unchanged 0 None 1 sample_region (scan5 r) r
    [0, 1, 2, 3, 4, 5, 6, 7] [0, 1, 2, 3, 4, 5, 6, 7] = [hit5]"
proof -
  have "unat (region_base r) = 0x10000" by (simp add: assms(1))
  then show ?thesis
    by (simp add: overlap_hits_def scan5_def hit5_def entry_hits_def entry_addr_def reference_value_def from_snapshot_def
        value_at_def assms compare_int_def hit_def Let_def)
qed

theorem next_scan_first_overlap_witness:
  "\<exists>r s sc s'. scan_snapshot still_api s (scan5 r) = [0, 1, 2, 3, 4, 5, 6, 7]
    \<and> next_scan still_api 7 (0x10000, 0x10008) 4 unchanged U8 [scan5 r] 0 None s = Some (Inr ([sc], s'))
    \<and> results sc = [hit5]"
proof -
  let ?cmp = "make_comparator unchanged U8"
  obtain r s where w: "scans_ok still_api s [scan5 r]" "placed (scan5 r)" "region_base r = 0x10000" "region_end r = 0x10008"
    "scan_snapshot still_api s (scan5 r) = [0, 1, 2, 3, 4, 5, 6, 7]"
    "get_regions still_api 7 (0x10000, 0x10008) 4 (world s) = Some [sample_region]"
    "unat (foffset (dump_file s)) + (\<Sum>r\<leftarrow>[sample_region]. unat (region_size r)) \<le> 2 ^ 60"
    "next_reserves still_api ?cmp unchanged (element_size U8) None (matches [sample_region] [scan5 r]) 0 s"
    using still_second_round by blast
  have pre: "scans_ok still_api s ([scan5 r] @ [])" "\<forall>p \<in> set [scan5 r]. placed p"
    "sorted_wrt (\<lambda>p q. scan_base p \<le> scan_base q) [scan5 r]" using w(1,2) by simp_all
  have first: "first_overlap [scan5 r] sample_region = Some (scan5 r)"
    using w(3,4) by (simp add: first_overlap_def overlapping_def scan5_def)
  note hits = still_hits [OF w(3,4)]
  have here: "\<not> next_missing still_api ?cmp unchanged 0 None (element_size U8) sample_region (scan5 r) [0, 1, 2, 3, 4, 5, 6, 7]"
    using hits by (auto simp: next_missing_def still_delivered scan5_def)
  from next_scan_first_overlap [OF still_docs(1,2) pre w(6-8)] obtain found s' sc where
    run: "next_scan still_api 7 (0x10000, 0x10008) 4 unchanged U8 [scan5 r] 0 None s = Some (Inr (found, s'))"
    and sorted: "sorted_wrt (\<lambda>a b. scan_base a < scan_base b) found"
    and base: "\<forall>sc \<in> set found. scan_base sc = region_base sample_region"
    and sc: "sc \<in> set found" "next_exact still_api ?cmp unchanged 0 None (element_size U8) sample_region (scan5 r)
      [0, 1, 2, 3, 4, 5, 6, 7] (scan_snapshot still_api s' sc) sc"
    using here by (auto simp: first w(5) simp del: sample_region_simps)
  have "found = [sc]" using sorted_single [OF sorted sc(1)] base sc(1) by simp
  moreover have "results sc = [hit5]" using sc(2) hits by (auto simp: next_exact_def still_delivered scan5_def)
  ultimately show ?thesis using w(5) run by blast
qed

text \<open>
  C12: \<open>next_scan\<close> maintains the invariant of the scanner. The scans given to it are destroyed, the
  scans found take their place beside those of other clients: every copy in its own part of the
  dump file, every pointer to a map counted, the copies of the others unchanged, and every entry
  found denotes an element of its region with a value of the element's width.
\<close>

theorem next_scan_keeps_scans:
  assumes "query_docs api" and "rpm_docs api" and "scans_ok api s (prevs @ others)" and "\<forall>p \<in> set prevs. placed p"
    and "get_regions api h (lo, hi) protect (world s) = Some rs"
    and "unat (foffset (dump_file s)) + (\<Sum>r\<leftarrow>rs. unat (region_size r)) \<le> 2 ^ 60"
    and "next_reserves api (make_comparator type et) type (element_size et) raw2 (matches rs prevs) raw1 s"
  shows "\<exists>found s'. next_scan api h (lo, hi) protect type et prevs raw1 raw2 s = Some (Inr (found, s'))
    \<and> scans_ok api s' (others @ found) \<and> (\<forall>sc \<in> set found. placed sc)
    \<and> (\<forall>sc \<in> set others. scan_snapshot api s' sc = scan_snapshot api s sc)
    \<and> unat (foffset (dump_file s')) \<le> unat (foffset (dump_file s)) + (\<Sum>r\<leftarrow>rs. unat (region_size r))"
proof -
  from next_scan_spec [OF assms] obtain scs s' where
    "next_scan api h (lo, hi) protect type et prevs raw1 raw2 s = Some (Inr (filter scan_valid scs, s'))"
    "scans_ok api s' (others @ filter scan_valid scs)" "snapshots_kept api s s' others"
    "\<forall>sc \<in> set scs. scan_valid sc \<longrightarrow> placed sc"
    "unat (foffset (dump_file s')) \<le> unat (foffset (dump_file s)) + (\<Sum>r\<leftarrow>rs. unat (region_size r))" by blast
  then show ?thesis by (intro exI [of _ "filter scan_valid scs"] exI [of _ s']) (simp add: snapshots_kept_def)
qed

theorem next_scan_keeps_scans_witness:
  "\<exists>r s found s'. next_scan still_api 7 (0x10000, 0x10008) 4 unchanged U8 [scan5 r] 0 None s = Some (Inr (found, s'))
    \<and> scans_ok still_api s' found"
proof -
  obtain r s where w: "scans_ok still_api s [scan5 r]" "placed (scan5 r)"
    "get_regions still_api 7 (0x10000, 0x10008) 4 (world s) = Some [sample_region]"
    "unat (foffset (dump_file s)) + (\<Sum>r\<leftarrow>[sample_region]. unat (region_size r)) \<le> 2 ^ 60"
    "next_reserves still_api (make_comparator unchanged U8) unchanged (element_size U8) None
       (matches [sample_region] [scan5 r]) 0 s"
    using still_second_round by blast
  have "scans_ok still_api s ([scan5 r] @ [])" "\<forall>p \<in> set [scan5 r]. placed p" using w(1,2) by simp_all
  from next_scan_keeps_scans [OF still_docs(1,2) this w(3-5)] show ?thesis by auto
qed

end
