(* ===== verification/Next_Reference.thy ===== *)
theory Next_Reference
  imports Next_Walk
begin

text \<open>
  What \<open>next_scan\<close> compares with what: which of its parameters matter, and, in terms of addresses
  of the target, which elements are reported.
\<close>

subsection \<open>The first value\<close>

lemma remap_loop_raw1:
  "from_snapshot type \<Longrightarrow>
   map_sum id fst (remap_loop api cmp w type raw2 es ps rs a b new entries raw1 sc)
     = map_sum id fst (remap_loop api cmp w type raw2 es ps rs a b new entries raw1' sc)"
  by (induction entries arbitrary: raw1 raw1' sc) (auto simp: Let_def split: sum.splits)

text \<open>Two results that differ at most in the value of \<open>raw1\<close> they pass on.\<close>

definition same_but_raw1 :: "('a \<times> u64 \<times> 'b) res option \<Rightarrow> ('a \<times> u64 \<times> 'b) res option \<Rightarrow> bool" where
  "same_but_raw1 x y \<longleftrightarrow> map_option (map_sum id (map_prod id snd)) x = map_option (map_sum id (map_prod id snd)) y"

lemma compare_overlap_raw1:
  assumes "from_snapshot type \<or> scan_mode prev = unknown_value"
  shows "map_option (map_sum id fst) (compare_overlap api cmp w type es raw2 r prev pr raw1 sc)
    = map_option (map_sum id fst) (compare_overlap api cmp w type es raw2 r prev pr raw1' sc)"
proof (cases "scan_mode prev = unknown_value")
  case True
  then show ?thesis
    by (simp add: compare_overlap_def Let_def option.map_comp comp_def sum.map_comp)
next
  case False
  with assms have "from_snapshot type" by simp
  from False remap_loop_raw1 [OF this, where ?raw1.0 = raw1 and raw1' = raw1'] show ?thesis
    by (simp add: compare_overlap_def Let_def)
qed

lemma scan_overlap_raw1:
  assumes "from_snapshot type \<or> scan_mode prev = unknown_value"
  shows "same_but_raw1 (scan_overlap api cmp type es raw2 r prev pr raw1 s)
    (scan_overlap api cmp type es raw2 r prev pr raw1' s)"
proof -
  have eq: "map_option (map_sum id fst) (compare_overlap api cmp w type es raw2 r1 prev pr raw1 sc)
    = map_option (map_sum id fst) (compare_overlap api cmp w type es raw2 r1 prev pr raw1' sc)" for w r1 sc
    using assms by (rule compare_overlap_raw1)
  have split: "(\<exists>v'. y = Some (Inr (sc, v'))) \<or> y \<noteq> Some (Inr (sc, v))" for y :: "(scan \<times> u64) res option" and sc v by blast
  show ?thesis
  proof (cases "new_scan (Some r) type es")
    case (Inr sc0)
    show ?thesis
    proof (cases "read_memory api r s")
      case (Inr rd)
      obtain success r1 s1 where rd: "rd = (success, r1, s1)" by (metis prod_cases3)
      let ?c = "\<lambda>raw1. compare_overlap api cmp (world s1) type es raw2 r1 prev pr raw1 (sc0\<lparr>scan_region := Some r1\<rparr>)"
      from eq [of "world s1" r1 "sc0\<lparr>scan_region := Some r1\<rparr>"]
      consider "?c raw1 = None" "?c raw1' = None" | e where "?c raw1 = Some (Inl e)" "?c raw1' = Some (Inl e)"
        | sc v v' where "?c raw1 = Some (Inr (sc, v))" "?c raw1' = Some (Inr (sc, v'))"
        by (cases "?c raw1"; cases "?c raw1'"; cases "the (?c raw1)"; cases "the (?c raw1')") auto
      then show ?thesis
        by cases (simp_all add: scan_overlap_def \<open>new_scan _ _ _ = _\<close> Inr rd same_but_raw1_def Let_def)
    qed (simp add: scan_overlap_def Inr same_but_raw1_def)
  qed (simp add: scan_overlap_def same_but_raw1_def)
qed

lemma same_but_raw1_cases:
  assumes "same_but_raw1 x y"
  obtains "x = None" "y = None" | e where "x = Some (Inl e)" "y = Some (Inl e)"
    | a v v' b where "x = Some (Inr (a, v, b))" "y = Some (Inr (a, v', b))"
  using assms unfolding same_but_raw1_def
  by (cases x; cases y; cases "the x"; cases "the y") auto

lemma next_loop_raw1:
  "from_snapshot type \<or> (\<forall>p \<in> set prevs. scan_mode p = unknown_value) \<Longrightarrow>
   next_loop api cmp type es raw2 rs prevs raw1 found s = next_loop api cmp type es raw2 rs prevs raw1' found s"
proof (induction api cmp type es raw2 rs prevs raw1 found s arbitrary: raw1' rule: next_loop.induct)
  case (3 api cmp type es raw2 r rs prev prevs raw1 found s)
  have mode: "from_snapshot type \<or> scan_mode prev = unknown_value" using "3.prems" by auto
  have tl: "from_snapshot type \<or> (\<forall>p \<in> set prevs. scan_mode p = unknown_value)" using "3.prems" by auto
  show ?case
  proof (cases "scan_region prev")
    case (Some pr)
    show ?thesis
    proof (cases "region_base r + region_size r \<le> region_base pr")
      case True
      with "3.IH"(1) [OF Some True "3.prems"] Some show ?thesis by simp
    next
      case l: False
      show ?thesis
      proof (cases "region_base pr + region_size pr \<le> region_base r")
        case True
        with "3.IH"(2) [OF Some l True tl] Some l show ?thesis by simp
      next
        case False
        from scan_overlap_raw1 [OF mode, of api cmp es raw2 r pr raw1 s raw1'] show ?thesis
        proof (cases rule: same_but_raw1_cases)
          case (3 a v v' b)
          from "3.IH"(3) [OF Some l False 3(1) refl refl refl "3.prems", of v'] 3 Some l False show ?thesis by simp
        qed (use Some l False in simp_all)
      qed
    qed
  qed simp
qed simp_all

text \<open>
  C36: the first value given to \<open>next_scan\<close> has no effect in the modes \<open>changed\<close>, \<open>unchanged\<close>,
  \<open>increased_value\<close> and \<open>decreased_value\<close>, nor, in any mode, when all the previous scans were made
  for an unknown value.
\<close>

theorem next_scan_ignores_raw1:
  assumes "type = unchanged \<or> type = changed \<or> type = increased_value \<or> type = decreased_value
    \<or> (\<forall>p \<in> set prevs. scan_mode p = unknown_value)"
  shows "next_scan api h rng protect type et prevs raw1 raw2 s = next_scan api h rng protect type et prevs raw1' raw2 s"
proof -
  have "from_snapshot type \<or> (\<forall>p \<in> set prevs. scan_mode p = unknown_value)"
    using assms by (auto simp: from_snapshot_def)
  have "next_loop api cmp type es raw2 rs prevs raw1 found s = next_loop api cmp type es raw2 rs prevs raw1' found s"
    for cmp es rs found by (rule next_loop_raw1) fact
  then show ?thesis
    unfolding next_scan_def by (simp only:)
qed

theorem next_scan_ignores_raw1_witness:
  "\<forall>r s. next_scan still_api 7 (0x10000, 0x10008) 4 unchanged U8 [scan5 r] 5 None s
    = next_scan still_api 7 (0x10000, 0x10008) 4 unchanged U8 [scan5 r] 6 None s"
  by (intro allI, rule next_scan_ignores_raw1) simp

subsection \<open>The addresses reported\<close>

text \<open>The elements a scan reports: where they are in the target and the value they had.\<close>

definition reported :: "nat \<Rightarrow> nat \<Rightarrow> scan_entry list \<Rightarrow> (nat \<times> u64) set" where
  "reported es start entries = (\<lambda>e. (entry_addr es start e, entry_value e)) ` set entries"

text \<open>
  The elements at address \<open>a\<close> that a comparison with a previous scan considers, with the value
  each is compared with.
\<close>

definition considered :: "scan_type \<Rightarrow> u64 \<Rightarrow> nat \<Rightarrow> scan \<Rightarrow> memory_region \<Rightarrow> u8 list \<Rightarrow> nat \<Rightarrow> u64 \<Rightarrow> bool" where
  "considered type raw1 es prev pr old a ref \<longleftrightarrow>
     (if scan_mode prev = unknown_value then es dvd a \<and> ref = value_at es old (a - unat (region_base pr))
      else \<exists>e \<in> set (results prev). entry_addr es (unat (region_base pr)) e = a \<and> ref = reference_value type raw1 e)"

lemma element_offsets:
  assumes "0 < es" and "es dvd (o1 :: nat)"
  shows "(\<exists>k < (b - o1) div es. a = o1 + k * es) \<longleftrightarrow> o1 \<le> a \<and> a + es \<le> b \<and> es dvd a"
proof
  assume "\<exists>k < (b - o1) div es. a = o1 + k * es"
  then obtain k where k: "k < (b - o1) div es" "a = o1 + k * es" by blast
  from k(1) have "Suc k * es \<le> b - o1" using assms(1) by (metis Suc_leI less_eq_div_iff_mult_less_eq)
  then show "o1 \<le> a \<and> a + es \<le> b \<and> es dvd a" using k(2) assms by auto
next
  assume a: "o1 \<le> a \<and> a + es \<le> b \<and> es dvd a"
  define k where "k = (a - o1) div es"
  have k: "k * es = a - o1" using a assms(2) by (simp add: k_def)
  have "Suc k * es = k * es + es" by simp
  with a k have "Suc k * es \<le> b - o1" by linarith
  then have "k < (b - o1) div es" using assms(1) by (metis Suc_le_lessD less_eq_div_iff_mult_less_eq)
  with a k show "\<exists>k < (b - o1) div es. a = o1 + k * es" by (intro exI [of _ k]) simp
qed

lemma reported_hit:
  assumes "i * es = a - start" and "start \<le> a" and "i < 18446744073709551616"
  shows "(entry_addr es start (hit v i), entry_value (hit v i)) = (a, v)"
  using assms by (simp add: entry_addr_def hit_def unat_of_nat_u64)

lemma reported_element_hits:
  assumes es: "0 < es" and al: "es dvd rs" "es dvd ps" and o1: "rs \<le> o1" "ps \<le> o1" "es dvd o1" and b: "b < rs + 18446744073709551616"
  shows "reported es rs (element_hits cmp raw2 es new old (o1 - rs) (o1 - ps) (b - o1))
    = {(a, v). o1 \<le> a \<and> a + es \<le> b \<and> es dvd a \<and> v = value_at es new (a - rs) \<and> cmp v (value_at es old (a - ps)) raw2}"
proof -
  have one: "(entry_addr es rs (hit v ((o1 - rs + k * es) div es)), entry_value (hit v ((o1 - rs + k * es) div es))) = (o1 + k * es, v)"
    if k: "k < (b - o1) div es" for k v
  proof (rule reported_hit)
    have d: "es dvd o1 - rs + k * es" using al(1) o1 by (simp add: dvd_diff_nat)
    then show "(o1 - rs + k * es) div es * es = o1 + k * es - rs" using o1(1) by simp
    have "o1 + k * es + es \<le> b" using element_offsets [OF es o1(3), of b "o1 + k * es"] k by blast
    then have "o1 - rs + k * es < 18446744073709551616" using b o1(1) es by linarith
    then show "(o1 - rs + k * es) div es < 18446744073709551616" using div_le_dividend [of "o1 - rs + k * es" es] by linarith
  qed (use o1 in simp)
  have "reported es rs (element_hits cmp raw2 es new old (o1 - rs) (o1 - ps) (b - o1))
    = (\<lambda>k. (o1 + k * es, value_at es new (o1 - rs + k * es))) ` {k. k < (b - o1) div es
        \<and> cmp (value_at es new (o1 - rs + k * es)) (value_at es old (o1 - ps + k * es)) raw2}"
    unfolding reported_def element_hits_def set_map set_filter image_image by (intro image_cong) (auto simp: one)
  also have "\<dots> = {(a, v). (\<exists>k < (b - o1) div es. a = o1 + k * es) \<and> v = value_at es new (a - rs)
        \<and> cmp v (value_at es old (a - ps)) raw2}"
    using o1(1,2) by (auto simp: image_iff)
  finally show ?thesis unfolding element_offsets [OF es o1(3)] by (simp only: conj_assoc)
qed

lemma reported_entry_hits:
  assumes es: "0 < es" and al: "es dvd rs" "es dvd ps" and o1: "rs \<le> o1" and b: "b < rs + 18446744073709551616"
  shows "reported es rs (entry_hits cmp type raw1 raw2 es new rs ps o1 b entries)
    = {(a, v). o1 \<le> a \<and> a + es \<le> b \<and> v = value_at es new (a - rs)
        \<and> (\<exists>e \<in> set entries. entry_addr es ps e = a \<and> cmp v (reference_value type raw1 e) raw2)}"
proof -
  have whole: "(entry_addr es ps e - rs) div es * es = entry_addr es ps e - rs" for e
    using al by (simp add: entry_addr_def dvd_diff_nat)
  have one: "(entry_addr es rs (hit v ((entry_addr es ps e - rs) div es)), entry_value (hit v ((entry_addr es ps e - rs) div es)))
      = (entry_addr es ps e, v)" if "o1 \<le> entry_addr es ps e" "entry_addr es ps e + es \<le> b" for e v
  proof (rule reported_hit)
    have "entry_addr es ps e - rs < 18446744073709551616" using that b es by linarith
    then show "(entry_addr es ps e - rs) div es < 18446744073709551616"
      using div_le_dividend [of "entry_addr es ps e - rs" es] by linarith
  qed (use that o1 whole in simp_all)
  have "reported es rs (entry_hits cmp type raw1 raw2 es new rs ps o1 b entries)
    = (\<lambda>e. (entry_addr es ps e, value_at es new (entry_addr es ps e - rs))) ` {e \<in> set entries. o1 \<le> entry_addr es ps e
        \<and> entry_addr es ps e + es \<le> b
        \<and> cmp (value_at es new (entry_addr es ps e - rs)) (reference_value type raw1 e) raw2}"
    (is "_ = ?f ` ?S")
  proof -
    have "set (entry_hits cmp type raw1 raw2 es new rs ps o1 b entries)
      = (\<lambda>e. hit (value_at es new (entry_addr es ps e - rs)) ((entry_addr es ps e - rs) div es)) ` ?S"
      by (auto simp: entry_hits_def Let_def whole split: if_splits)
    then show ?thesis unfolding reported_def by (simp only: image_image) (intro image_cong, auto simp: one)
  qed
  also have "\<dots> = {(a, v). o1 \<le> a \<and> a + es \<le> b \<and> v = value_at es new (a - rs)
        \<and> (\<exists>e \<in> set entries. entry_addr es ps e = a \<and> cmp v (reference_value type raw1 e) raw2)}"
    by (auto simp: image_iff)
  finally show ?thesis .
qed

lemma reported_overlap_hits:
  assumes es: "0 < es" and al: "es dvd unat (region_base r)" "es dvd unat (region_base pr)"
  shows "reported es (unat (region_base r)) (overlap_hits cmp type raw1 raw2 es r prev pr new old)
    = {(a, v). unat (region_base r) \<le> a \<and> unat (region_base pr) \<le> a \<and> a + es \<le> region_end r \<and> a + es \<le> region_end pr
        \<and> v = value_at es new (a - unat (region_base r)) \<and> (\<exists>ref. considered type raw1 es prev pr old a ref \<and> cmp v ref raw2)}"
proof -
  let ?rs = "unat (region_base r)" and ?ps = "unat (region_base pr)"
  let ?o = "max ?rs ?ps" and ?b = "min (region_end r) (region_end pr)"
  have o1: "?rs \<le> ?o" "?ps \<le> ?o" "es dvd ?o" using al by (simp_all add: max_def)
  have "region_end r < ?rs + 18446744073709551616" using u64_max [of "region_size r"] by (simp add: region_end_def)
  then have b: "?b < ?rs + 18446744073709551616" by linarith
  show ?thesis
  proof (cases "scan_mode prev = unknown_value")
    case True
    have eq: "overlap_hits cmp type raw1 raw2 es r prev pr new old = element_hits cmp raw2 es new old (?o - ?rs) (?o - ?ps) (?b - ?o)"
      by (simp only: overlap_hits_def True simp_thms if_True Let_def)
    show ?thesis
      unfolding eq reported_element_hits [OF es al o1 b] considered_def
      by (rule set_eqI) (simp only: split_paired_all mem_Collect_eq prod.case max.bounded_iff min.bounded_iff True simp_thms if_True, blast)
  next
    case False
    have eq: "overlap_hits cmp type raw1 raw2 es r prev pr new old = entry_hits cmp type raw1 raw2 es new ?rs ?ps ?o ?b (results prev)"
      by (simp only: overlap_hits_def False simp_thms if_False Let_def)
    show ?thesis
      unfolding eq reported_entry_hits [OF es al o1(1) b] considered_def
      by (rule set_eqI) (simp only: split_paired_all mem_Collect_eq prod.case max.bounded_iff min.bounded_iff False simp_thms if_False, blast)
  qed
qed

text \<open>
  C3: what \<open>next_scan\<close> reports, in terms of addresses of the target. When the regions found now
  and before start at multiples of the element size, every scan found belongs to a region and the
  first previous scan that overlaps it, and it reports exactly the elements in the overlap that
  the comparison considers and accepts: all the aligned addresses, each compared with its old
  value, when the previous scan was for an unknown value; otherwise the addresses of the previous
  entries, each compared with the snapshot value of its entry (\<open>changed\<close>, \<open>unchanged\<close>, \<open>increased\<close>,
  \<open>decreased\<close>) or with the value given. The value reported for an address is the one the new copy
  has there.
\<close>

theorem next_scan_addresses:
  assumes "query_docs api" and "rpm_docs api" and "scans_ok api s (prevs @ others)" and "\<forall>p \<in> set prevs. placed p"
    and "sorted_wrt (\<lambda>p q. scan_base p \<le> scan_base q) prevs"
    and "get_regions api h (lo, hi) protect (world s) = Some rs"
    and "unat (foffset (dump_file s)) + (\<Sum>r\<leftarrow>rs. unat (region_size r)) \<le> 2 ^ 60"
    and "next_reserves api (make_comparator type et) type (element_size et) raw2 (matches rs prevs) raw1 s"
    and "\<forall>r \<in> set rs. unat (element_size et) dvd unat (region_base r)"
    and "\<forall>p \<in> set prevs. unat (element_size et) dvd unat (scan_base p)"
  shows "\<exists>found s'. next_scan api h (lo, hi) protect type et prevs raw1 raw2 s = Some (Inr (found, s'))
    \<and> (\<forall>sc \<in> set found. \<exists>r \<in> set rs. \<exists>p \<in> set prevs. \<exists>pr. first_overlap prevs r = Some p \<and> scan_region p = Some pr
         \<and> scan_base sc = region_base r
         \<and> reported (unat (element_size et)) (unat (scan_base sc)) (results sc) =
             {(a, v). unat (region_base r) \<le> a \<and> unat (region_base pr) \<le> a
                \<and> a + unat (element_size et) \<le> region_end r \<and> a + unat (element_size et) \<le> region_end pr
                \<and> v = value_at (unat (element_size et)) (scan_snapshot api s' sc) (a - unat (region_base r))
                \<and> (\<exists>ref. considered type raw1 (unat (element_size et)) p pr (scan_snapshot api s p) a ref
                     \<and> make_comparator type et v ref raw2)})"
proof -
  let ?es = "unat (element_size et)"
  from next_scan_sources [OF assms(1-8)] obtain found s' where
    run: "next_scan api h (lo, hi) protect type et prevs raw1 raw2 s = Some (Inr (found, s'))"
    and sorted: "sorted_wrt (\<lambda>a b. scan_base a < scan_base b) found"
    and region: "\<forall>sc \<in> set found. \<exists>r \<in> set rs. scan_base sc = region_base r"
    and each: "\<forall>r \<in> set rs. case first_overlap prevs r of
         None \<Rightarrow> \<forall>sc \<in> set found. scan_base sc \<noteq> region_base r
       | Some p \<Rightarrow>
           (\<exists>sc \<in> set found. scan_base sc = region_base r
              \<and> next_exact api (make_comparator type et) type raw1 raw2 (element_size et) r p
                  (scan_snapshot api s p) (scan_snapshot api s' sc) sc)
         \<or> ((\<forall>sc \<in> set found. scan_base sc \<noteq> region_base r)
              \<and> next_missing api (make_comparator type et) type raw1 raw2 (element_size et) r p (scan_snapshot api s p))"
    by blast
  have "\<exists>r \<in> set rs. \<exists>p \<in> set prevs. \<exists>pr. first_overlap prevs r = Some p \<and> scan_region p = Some pr
         \<and> scan_base sc = region_base r
         \<and> reported ?es (unat (scan_base sc)) (results sc) =
             {(a, v). unat (region_base r) \<le> a \<and> unat (region_base pr) \<le> a \<and> a + ?es \<le> region_end r \<and> a + ?es \<le> region_end pr
                \<and> v = value_at ?es (scan_snapshot api s' sc) (a - unat (region_base r))
                \<and> (\<exists>ref. considered type raw1 ?es p pr (scan_snapshot api s p) a ref \<and> make_comparator type et v ref raw2)}"
    if sc: "sc \<in> set found" for sc
  proof -
    from region sc obtain r where r: "r \<in> set rs" "scan_base sc = region_base r" by blast
    from each r sc obtain p where p: "first_overlap prevs r = Some p"
      by (cases "first_overlap prevs r") auto
    from each r sc p obtain sc' where sc': "sc' \<in> set found" "scan_base sc' = region_base r"
      "next_exact api (make_comparator type et) type raw1 raw2 (element_size et) r p
         (scan_snapshot api s p) (scan_snapshot api s' sc') sc'" by fastforce
    have "sc' = sc" using strictly_sorted_inj [OF sorted sc'(1) sc] sc'(2) r(2) by simp
    with sc'(3) obtain pr where pr: "scan_region p = Some pr"
      "results sc = overlap_hits (make_comparator type et) type raw1 raw2 ?es r p pr (scan_snapshot api s' sc) (scan_snapshot api s p)"
      by (auto simp: next_exact_def)
    have mem: "p \<in> set prevs" using p by (auto simp: first_overlap_def find_Some_iff)
    have al: "?es dvd unat (region_base r)" "?es dvd unat (region_base pr)"
      using assms(9,10) r(1) mem pr(1) by (auto simp: scan_base_def)
    have "0 < ?es" by (cases et) simp_all
    from reported_overlap_hits [OF this al, of "make_comparator type et" type raw1 raw2 p "scan_snapshot api s' sc" "scan_snapshot api s p"]
    show ?thesis using r p pr mem by (intro bexI [of _ r] bexI [of _ p] exI [of _ pr]) simp_all
  qed
  with run show ?thesis by blast
qed

theorem next_scan_addresses_witness:
  "\<exists>r s found s'. next_scan still_api 7 (0x10000, 0x10008) 4 unchanged U8 [scan5 r] 0 None s = Some (Inr (found, s'))
    \<and> (\<forall>sc \<in> set found. reported 1 0x10000 (results sc) \<subseteq> {(0x10005, 5)})"
proof -
  let ?cmp = "make_comparator unchanged U8"
  obtain r s where w: "scans_ok still_api s [scan5 r]" "placed (scan5 r)" "region_base r = 0x10000" "region_end r = 0x10008"
    "scan_snapshot still_api s (scan5 r) = [0, 1, 2, 3, 4, 5, 6, 7]"
    "get_regions still_api 7 (0x10000, 0x10008) 4 (world s) = Some [sample_region]"
    "unat (foffset (dump_file s)) + (\<Sum>r\<leftarrow>[sample_region]. unat (region_size r)) \<le> 2 ^ 60"
    "next_reserves still_api ?cmp unchanged (element_size U8) None (matches [sample_region] [scan5 r]) 0 s"
    using still_second_round by blast
  have pre: "scans_ok still_api s ([scan5 r] @ [])" "\<forall>p \<in> set [scan5 r]. placed p"
    "sorted_wrt (\<lambda>p q. scan_base p \<le> scan_base q) [scan5 r]" using w(1,2) by simp_all
  have al: "\<forall>r \<in> set [sample_region]. unat (element_size U8) dvd unat (region_base r)"
    "\<forall>p \<in> set [scan5 r]. unat (element_size U8) dvd unat (scan_base p)" by simp_all
  have one: "considered unchanged 0 1 (scan5 r) r old a ref \<longleftrightarrow> a = 0x10005 \<and> ref = 5" for old a ref
    by (auto simp: considered_def scan5_def hit5_def entry_addr_def w(3) reference_value_def from_snapshot_def)
  from next_scan_addresses [OF still_docs(1,2) pre w(6-8) al] obtain found s' where
    run: "next_scan still_api 7 (0x10000, 0x10008) 4 unchanged U8 [scan5 r] 0 None s = Some (Inr (found, s'))"
    and each: "\<forall>sc \<in> set found. \<exists>pr. reported 1 (unat (scan_base sc)) (results sc) =
        {(a, v). unat (region_base sample_region) \<le> a \<and> unat (region_base pr) \<le> a \<and> a + 1 \<le> region_end sample_region
          \<and> a + 1 \<le> region_end pr
          \<and> v = value_at 1 (scan_snapshot still_api s' sc) (a - unat (region_base sample_region))
          \<and> (\<exists>ref. considered unchanged 0 1 (scan5 r) pr (scan_snapshot still_api s (scan5 r)) a ref \<and> ?cmp v ref None)}
        \<and> scan_region (scan5 r) = Some pr \<and> scan_base sc = region_base sample_region"
    by (auto simp del: make_comparator.simps sample_region_simps sample_region_end cong: conj_cong)
  have "reported 1 0x10000 (results sc) \<subseteq> {(0x10005, 5)}" if "sc \<in> set found" for sc
  proof -
    have "unat (scan_base sc) = 0x10000" using each that by simp
    moreover have "reported 1 (unat (scan_base sc)) (results sc) \<subseteq> {(a, v). a = 0x10005 \<and> v = 5}"
      using bspec [OF each that] by (clarsimp simp: one [unfolded One_nat_def] compare_int_def)
    ultimately show ?thesis by auto
  qed
  with run show ?thesis by blast
qed

text \<open>
  C37: an entry whose address is not a multiple of the element size away from the new region (as
  when the range of the second scan starts inside the region of the first) is not skipped: the
  division rounds its index down, so the bytes compared and the entry reported belong to a lower
  address than the previous entry.
\<close>

theorem remap_rounds_down:
  assumes "0 < unat es" and "unat es \<le> 8" and "unat r_start \<le> unat ov_start" and "unat ov_end \<le> unat r_start + unat n"
    and "unat p_start \<le> 2 ^ 48" and "unat ov_end \<le> 2 ^ 48" and "unat (element_index e) \<le> 2 ^ 48"
    and "unat ov_start \<le> entry_addr (unat es) (unat p_start) e"
    and "entry_addr (unat es) (unat p_start) e + unat es \<le> unat ov_end"
    and "(entry_addr (unat es) (unat p_start) e - unat r_start) mod unat es \<noteq> 0"
    and "cmp (value_at (unat es) (load_bytes api w new (unat n))
               ((entry_addr (unat es) (unat p_start) e - unat r_start) div unat es * unat es))
           (reference_value type raw1 e) raw2"
  shows "\<exists>e' raw1'. remap_loop api cmp w type raw2 es p_start r_start ov_start ov_end (new, n) [e] raw1 sc
      = Inr (add_hits [e'] sc, raw1')
    \<and> entry_addr (unat es) (unat r_start) e' < entry_addr (unat es) (unat p_start) e"
proof -
  let ?es = "unat es" and ?a = "entry_addr (unat es) (unat p_start) e"
  define i where "i = (?a - unat r_start) div ?es"
  define v where "v = value_at ?es (load_bytes api w new (unat n)) (i * ?es)"
  from remap_loop_eq [OF assms(1-6), of "[e]" api cmp w type raw2 new raw1 sc] assms(7) obtain raw1' where
    run: "remap_loop api cmp w type raw2 es p_start r_start ov_start ov_end (new, n) [e] raw1 sc =
      Inr (add_hits (entry_hits cmp type raw1 raw2 ?es (load_bytes api w new (unat n)) (unat r_start) (unat p_start)
        (unat ov_start) (unat ov_end) [e]) sc, raw1')" by auto
  have "entry_hits cmp type raw1 raw2 ?es (load_bytes api w new (unat n)) (unat r_start) (unat p_start)
        (unat ov_start) (unat ov_end) [e] = [hit v i]"
    using assms(8,9,11) by (simp add: entry_hits_def Let_def i_def v_def)
  moreover have "i < 2 ^ 64"
  proof -
    have "?a - unat r_start \<le> 2 ^ 48" using assms(6,9) by linarith
    then have "i \<le> 2 ^ 48" unfolding i_def by (rule order_trans [OF div_le_dividend])
    then show ?thesis by simp
  qed
  moreover have "i * ?es < ?a - unat r_start"
  proof -
    have "i * ?es + (?a - unat r_start) mod ?es = ?a - unat r_start" unfolding i_def by (rule div_mult_mod_eq)
    with assms(10) show ?thesis by linarith
  qed
  ultimately show ?thesis
    using run by (intro exI [of _ "hit v i"] exI [of _ raw1']) (simp add: entry_addr_def hit_def unat_of_nat_u64)
qed

theorem remap_rounds_down_witness:
  "\<forall>w q raw1 sc. \<exists>e' raw1'. remap_loop still_api (make_comparator changed U16) w changed None 2 0x10001 0x10000 0x10001 0x10008 (q, 8)
      [\<lparr>entry_value = 0, snapshot_value = value_at 2 (load_bytes still_api w q 8) 2 + 1, element_index = 1\<rparr>] raw1 sc
      = Inr (add_hits [e'] sc, raw1') \<and> entry_addr 2 0x10000 e' < 0x10003"
proof (intro allI)
  fix w :: "sample" and q raw1 :: u64 and sc :: scan
  let ?e = "\<lparr>entry_value = 0, snapshot_value = value_at 2 (load_bytes still_api w q 8) 2 + 1, element_index = 1\<rparr>"
  have a: "entry_addr (unat (2 :: u64)) (unat (0x10001 :: u64)) ?e = 0x10003" by (simp add: entry_addr_def)
  from remap_rounds_down [where es = 2 and r_start = "0x10000" and ov_start = "0x10001" and ov_end = "0x10008" and n = 8 and p_start = "0x10001"
      and e = ?e and cmp = "make_comparator changed U16" and api = still_api and w = w and new = q and type = changed
      and ?raw1.0 = raw1 and ?raw2.0 = None and sc = sc]
  show "\<exists>e' raw1'. remap_loop still_api (make_comparator changed U16) w changed None 2 0x10001 0x10000 0x10001 0x10008 (q, 8)
      [?e] raw1 sc = Inr (add_hits [e'] sc, raw1') \<and> entry_addr 2 0x10000 e' < 0x10003"
    unfolding a by (simp add: reference_value_def from_snapshot_def compare_int_def)
qed

text \<open>
  The index of a previous entry is multiplied by the element size of the scan at hand, and nobody
  compares that with the size the previous scan was made for. Where the sizes differ, the entry
  stands for another address than the one it was found at.
\<close>

lemma remap_rescales_index:
  assumes "0 < unat es" and "unat es \<le> 8" and "unat base \<le> 2 ^ 47" and "unat n \<le> 2 ^ 47"
    and whole: "Suc (unat (element_index e)) * unat es \<le> unat n"
    and acc: "cmp (value_at (unat es) (load_bytes api w new (unat n)) (unat (element_index e) * unat es))
           (reference_value type raw1 e) raw2"
    and other: "unat old_size \<noteq> unat es" "element_index e \<noteq> 0"
  shows "\<exists>e' raw1'. remap_loop api cmp w type raw2 es base base base (base + n) (new, n) [e] raw1 sc
      = Inr (add_hits [e'] sc, raw1')
    \<and> entry_addr (unat es) (unat base) e' = unat base + unat (element_index e) * unat es
    \<and> entry_addr (unat es) (unat base) e' \<noteq> entry_addr (unat old_size) (unat base) e"
proof -
  let ?es = "unat es" and ?k = "unat (element_index e)"
  define v where "v = value_at ?es (load_bytes api w new (unat n)) (?k * ?es)"
  have e: "unat (base + n) = unat base + unat n" by (rule unat_add_no_wrap) (use assms(3,4) in simp)
  have "Suc ?k * 1 \<le> Suc ?k * ?es" using assms(1) by (intro mult_le_mono) simp_all
  from order_trans [OF this whole] have "Suc ?k \<le> unat n" by simp
  with assms(4) have k: "?k \<le> 2 ^ 48" by simp
  have "\<exists>raw1'. remap_loop api cmp w type raw2 es base base base (base + n) (new, n) [e] raw1 sc
      = Inr (add_hits (entry_hits cmp type raw1 raw2 ?es (load_bytes api w new (unat n)) (unat base) (unat base)
          (unat base) (unat (base + n)) [e]) sc, raw1')
      \<and> (\<not> from_snapshot type \<longrightarrow> raw1' = raw1)"
    by (rule remap_loop_eq [OF assms(1,2)]) (use assms(3,4) k e in simp_all)
  then obtain raw1' where
    run: "remap_loop api cmp w type raw2 es base base base (base + n) (new, n) [e] raw1 sc
      = Inr (add_hits (entry_hits cmp type raw1 raw2 ?es (load_bytes api w new (unat n)) (unat base) (unat base)
          (unat base) (unat (base + n)) [e]) sc, raw1')" by blast
  have "entry_hits cmp type raw1 raw2 ?es (load_bytes api w new (unat n)) (unat base) (unat base)
        (unat base) (unat (base + n)) [e] = [hit v ?k]"
    using assms(1) whole acc by (simp add: entry_hits_def entry_addr_def e v_def Let_def)
  moreover have "?k * ?es \<noteq> ?k * unat old_size" using other by (simp add: unat_eq_zero)
  ultimately show ?thesis
    using run by (intro exI [of _ "hit v ?k"] exI [of _ raw1']) (simp add: entry_addr_def hit_def)
qed

end
