(* ===== verification/Rounds.thy ===== *)
theory Rounds
  imports First_Scan Next_Reference
begin

text \<open>
  The rounds of a search as a specification over addresses: the scans a client holds stand for a
  set of candidates, an address with the value it is to be compared with. A first scan makes the
  candidates from the memory of the target, a next scan filters them by the new values; both are
  shown to implement this.
\<close>

definition in_region :: "nat \<Rightarrow> memory_region \<Rightarrow> nat \<Rightarrow> bool" where
  "in_region es r a \<longleftrightarrow> unat (region_base r) \<le> a \<and> a + es \<le> region_end r"

text \<open>The candidates that a scan stands for: everything in its region, or its entries.\<close>

definition scan_cells :: "'w win32 \<Rightarrow> 'w sys \<Rightarrow> scan \<Rightarrow> (nat \<times> u64) set" where
  "scan_cells api s sc = (case scan_region sc of None \<Rightarrow> {} | Some r \<Rightarrow>
     if scan_mode sc = unknown_value
     then {(a, ref). in_region (unat (elem_size sc)) r a \<and> unat (elem_size sc) dvd a
             \<and> ref = value_at (unat (elem_size sc)) (scan_snapshot api s sc) (a - unat (region_base r))}
     else (\<lambda>e. (entry_addr (unat (elem_size sc)) (unat (region_base r)) e, snapshot_value e)) ` set (results sc))"

definition cells :: "'w win32 \<Rightarrow> 'w sys \<Rightarrow> scan list \<Rightarrow> (nat \<times> u64) set" where
  "cells api s scs = (\<Union>sc \<in> set scs. scan_cells api s sc)"

text \<open>The two rounds, on candidates; \<open>mem\<close> is what the target delivered for each region.\<close>

definition first_round ::
  "comparator_fn \<Rightarrow> scan_type \<Rightarrow> u64 \<Rightarrow> u64 option \<Rightarrow> nat \<Rightarrow> memory_region list \<Rightarrow> (memory_region \<Rightarrow> u8 list) \<Rightarrow> (nat \<times> u64) set" where
  "first_round cmp type raw1 raw2 es rs mem = {(a, v). \<exists>r \<in> set rs. in_region es r a \<and> es dvd a
     \<and> v = value_at es (mem r) (a - unat (region_base r)) \<and> (type = unknown_value \<or> cmp v raw1 raw2)}"

definition next_round ::
  "comparator_fn \<Rightarrow> scan_type \<Rightarrow> bool \<Rightarrow> u64 \<Rightarrow> u64 option \<Rightarrow> nat \<Rightarrow> memory_region list \<Rightarrow> (memory_region \<Rightarrow> u8 list)
   \<Rightarrow> (nat \<times> u64) set \<Rightarrow> (nat \<times> u64) set" where
  "next_round cmp type first_unknown raw1 raw2 es rs mem cs = {(a, v). \<exists>r \<in> set rs. in_region es r a
     \<and> v = value_at es (mem r) (a - unat (region_base r))
     \<and> (\<exists>ref. (a, ref) \<in> cs \<and> cmp v (if first_unknown \<or> from_snapshot type then ref else raw1) raw2)}"

subsection \<open>First scans\<close>

lemma accepted_cells:
  assumes es: "0 < es" and al: "es dvd start" and n: "length bytes < 18446744073709551616"
  shows "(\<lambda>e. (entry_addr es start e, snapshot_value e)) ` set (accepted acc es bytes)
    = {(a, v). start \<le> a \<and> a + es \<le> start + length bytes \<and> es dvd a \<and> v = value_at es bytes (a - start) \<and> acc v}"
proof -
  have "(\<lambda>e. (entry_addr es start e, snapshot_value e)) ` set (accepted acc es bytes)
      = (\<lambda>k. (start + k * es, value_at es bytes (k * es))) ` {k. k < length bytes div es \<and> acc (value_at es bytes (k * es))}"
  proof -
    have "unat (of_nat k :: u64) = k" if "k < length bytes div es" for k
    proof -
      have "k < 18446744073709551616" using that n div_le_dividend [of "length bytes" es] by linarith
      then show ?thesis by (simp add: unat_of_nat_u64)
    qed
    then show ?thesis
      unfolding accepted_def set_map set_filter image_image
      by (intro image_cong) (auto simp: entry_addr_def element_value_def value_at_def)
  qed
  also have "\<dots> = {(a, v). (\<exists>k < length bytes div es. a = start + k * es) \<and> v = value_at es bytes (a - start) \<and> acc v}"
    by (auto simp: image_iff)
  also have "\<dots> = {(a, v). start \<le> a \<and> a + es \<le> start + length bytes \<and> es dvd a \<and> v = value_at es bytes (a - start) \<and> acc v}"
    using element_offsets [OF es al, of "start + length bytes"] by simp
  finally show ?thesis .
qed

lemma scan_exact_snapshot:
  assumes "scan_exact api acc type es s r sc"
  shows "delivered api r True (scan_snapshot api s sc)" and "length (scan_snapshot api s sc) = unat (region_size r)"
  using assms by (auto simp: scan_exact_def scan_snapshot_def)

lemma first_scan_cells:
  assumes x: "scan_exact api acc type es s r sc" and es: "0 < unat es" and al: "unat es dvd unat (region_base r)"
  shows "scan_cells api s sc = {(a, v). in_region (unat es) r a \<and> unat es dvd a
    \<and> v = value_at (unat es) (scan_snapshot api s sc) (a - unat (region_base r)) \<and> (type = unknown_value \<or> acc v)}"
proof -
  let ?e = "unat es" and ?b = "scan_snapshot api s sc"
  from x obtain r' where r': "scan_region sc = Some r'" "region_mbi r' = region_mbi r" "scan_mode sc = type" "elem_size sc = es"
    and res: "type \<noteq> unknown_value \<Longrightarrow> results sc = accepted acc ?e ?b"
    by (auto simp: scan_exact_def scan_snapshot_def split: if_splits)
  have base: "region_base r' = region_base r" "region_end r' = unat (region_base r) + length ?b"
    "region_end r = unat (region_base r) + length ?b" "in_region ?e r' = in_region ?e r"
    using region_mbi_cong [OF r'(2)] scan_exact_snapshot(2) [OF x] by (simp_all add: region_end_def in_region_def fun_eq_iff)
  show ?thesis
  proof (cases "type = unknown_value")
    case True
    with r' base(1,4) show ?thesis by (simp add: scan_cells_def)
  next
    case False
    have "length ?b < 18446744073709551616" using scan_exact_snapshot(2) [OF x] u64_max [of "region_size r"] by simp
    from accepted_cells [OF es al this, of acc] False r' base(1) res [OF False] show ?thesis
      by (simp add: scan_cells_def in_region_def base(3) conj_ac)
  qed
qed

lemma first_scan_placed:
  assumes x: "scan_exact api acc type (element_size et) s r sc" and r: "region_end r \<le> 2 ^ 48"
  shows "placed sc"
proof -
  let ?es = "unat (element_size et)"
  from x obtain r' where r': "scan_region sc = Some r'" "region_mbi r' = region_mbi r" "elem_size sc = element_size et"
    and res: "results sc = [] \<or> results sc = accepted acc ?es (scan_snapshot api s sc)"
    by (auto simp: scan_exact_def scan_snapshot_def split: if_splits)
  have same: "region_size r' = region_size r" "region_end r' = region_end r"
    using region_mbi_cong [OF r'(2)] by (simp_all add: region_end_def)
  have es: "0 < ?es" "?es \<le> 8" by (cases et; simp)+
  note len = scan_exact_snapshot(2) [OF x]
  have "unat (element_index e) < unat (region_size r) div ?es \<and> unat (entry_value e) < 2 ^ (8 * ?es)"
    if e: "e \<in> set (accepted acc ?es (scan_snapshot api s sc))" for e
  proof -
    from e obtain i where i: "i < unat (region_size r) div ?es" "element_index e = of_nat i"
      "entry_value e = value_at ?es (scan_snapshot api s sc) (i * ?es)"
      by (auto simp: accepted_def len element_value_def value_at_def)
    then have "i < 18446744073709551616"
      using u64_max [of "region_size r"] div_le_dividend [of "unat (region_size r)" ?es] by linarith
    then have "unat (element_index e) = i" by (simp add: i(2) unat_of_nat_u64)
    with i value_at_bound [OF es(2)] show ?thesis by simp
  qed
  with res have "entries_ok (element_size et) r' (results sc)" unfolding entries_ok_def same by auto
  with r r' same es show ?thesis by (simp add: placed_def)
qed

lemma UN_nth: "(\<Union>k<length xs. F (xs ! k)) = (\<Union>x \<in> set xs. F x)"
  by (auto simp: set_conv_nth)

text \<open>A round looks at each region by itself.\<close>

lemma first_round_regions:
  "first_round cmp type raw1 raw2 es rs mem = (\<Union>r \<in> set rs. first_round cmp type raw1 raw2 es [r] (\<lambda>_. mem r))"
  by (auto simp: first_round_def)

lemma next_round_regions:
  "next_round cmp type whole raw1 raw2 es rs mem cs = (\<Union>r \<in> set rs. next_round cmp type whole raw1 raw2 es [r] (\<lambda>_. mem r) cs)"
  by (auto simp: next_round_def)

text \<open>One region of a first scan, whether its scan was kept or not.\<close>

lemma first_scan_region:
  assumes "rpm_docs api" and al: "unat (element_size et) dvd unat (region_base r)"
    and rd: "\<forall>part. \<not> delivered api r False part"
    and out: "if scan_valid sc then scan_exact api (\<lambda>v. cmp v raw1 raw2) type (element_size et) s r sc
         else scan_missing api (\<lambda>v. cmp v raw1 raw2) type (element_size et) r"
  shows "\<exists>bs. delivered api r True bs
    \<and> (if scan_valid sc then scan_cells api s sc else {}) = first_round cmp type raw1 raw2 (unat (element_size et)) [r] (\<lambda>_. bs)"
proof (cases "scan_valid sc")
  case True
  with out have x: "scan_exact api (\<lambda>v. cmp v raw1 raw2) type (element_size et) s r sc" by simp
  from first_scan_cells [OF x _ al] scan_exact_snapshot(1) [OF x] True show ?thesis
    by (intro exI [of _ "scan_snapshot api s sc"]) (simp add: first_round_def)
next
  case False
  let ?es = "unat (element_size et)"
  from False out rd obtain bs where bs: "delivered api r True bs" "type \<noteq> unknown_value"
    "accepted (\<lambda>v. cmp v raw1 raw2) ?es bs = []"
    by (auto simp: scan_missing_def)
  have "length bs = unat (region_size r)"
    using bs(1) assms(1) unfolding delivered_def rpm_docs_def by (metis prod.collapse)
  then have "first_round cmp type raw1 raw2 ?es [r] (\<lambda>_. bs) = {}"
    using accepted_cells [of ?es "unat (region_base r)" bs "\<lambda>v. cmp v raw1 raw2"] bs(2,3) al u64_max [of "region_size r"]
    by (simp add: first_round_def in_region_def region_end_def conj_ac)
  with bs(1) False show ?thesis by (intro exI [of _ bs]) simp
qed

text \<open>A choice for every region of a list, made position by position.\<close>

lemma choice_by_index:
  assumes "distinct xs" and "\<forall>k < length xs. \<exists>y. P k y"
  shows "\<exists>f. \<forall>k < length xs. P k (f (xs ! k))"
proof -
  from bchoice [where S = "{k. k < length xs}" and Q = P] assms(2) obtain g where g: "\<forall>k < length xs. P k (g k)" by auto
  have "(THE k. k < length xs \<and> xs ! k = xs ! j) = j" if "j < length xs" for j
    using that assms(1) by (auto simp: nth_eq_iff_index_eq)
  with g show ?thesis by (intro exI [of _ "\<lambda>x. g (THE k. k < length xs \<and> xs ! k = x)"]) simp
qed

text \<open>
  C7: a first scan implements the first round. When the regions of the range can be read and
  start at multiples of the element size, the scans returned stand for exactly the aligned
  addresses of the regions, with the values delivered; all of them for an unknown first value, and
  otherwise those whose value the comparator accepts.
\<close>

theorem first_scan_refines:
  assumes "query_docs api" and "rpm_docs api" and "scans_ok api s olds"
    and "get_regions api h (lo, hi) protect (world s) = Some rs"
    and "unat (foffset (dump_file s)) + (\<Sum>r\<leftarrow>rs. unat (region_size r)) \<le> 2 ^ 60"
    and "allocs_succeed api (make_comparator type et) raw1 raw2 (ks @ finish_schedule (length rs))
      (map (\<lambda>r. Start (start_scan type (element_size et) r)) rs) s"
    and "\<forall>r \<in> set rs. unat (element_size et) dvd unat (region_base r)"
    and "\<forall>r \<in> set rs. \<forall>part. \<not> delivered api r False part"
  shows "\<exists>found s' mem. first_scan api ks h (lo, hi) protect type et raw1 raw2 s = Some (Inr (found, s'))
    \<and> (\<forall>r \<in> set rs. delivered api r True (mem r))
    \<and> cells api s' found = first_round (make_comparator type et) type raw1 raw2 (unat (element_size et)) rs mem"
proof -
  let ?cmp = "make_comparator type et" and ?es = "unat (element_size et)"
  from first_scan_spec [OF assms(1-6)] obtain scs s' where
    run: "first_scan api ks h (lo, hi) protect type et raw1 raw2 s = Some (Inr (filter scan_valid scs, s'))"
    and len: "length scs = length rs"
    and each: "\<forall>k < length rs. if scan_valid (scs ! k)
         then scan_exact api (\<lambda>v. ?cmp v raw1 raw2) type (element_size et) s' (rs ! k) (scs ! k)
         else scan_missing api (\<lambda>v. ?cmp v raw1 raw2) type (element_size et) (rs ! k)"
    by blast
  let ?kept = "\<lambda>sc. if scan_valid sc then scan_cells api s' sc else {}"
  have "distinct rs" using get_regions_fresh(2) [OF assms(1,4)] by (induction rs) auto
  moreover have "\<forall>k < length rs. \<exists>bs. delivered api (rs ! k) True bs
      \<and> ?kept (scs ! k) = first_round ?cmp type raw1 raw2 ?es [rs ! k] (\<lambda>_. bs)"
    using first_scan_region [OF assms(2)] assms(7,8) each by simp
  ultimately obtain mem where mem: "\<forall>k < length rs. delivered api (rs ! k) True (mem (rs ! k))
      \<and> ?kept (scs ! k) = first_round ?cmp type raw1 raw2 ?es [rs ! k] (\<lambda>_. mem (rs ! k))"
    using choice_by_index [of rs "\<lambda>k bs. delivered api (rs ! k) True bs
      \<and> ?kept (scs ! k) = first_round ?cmp type raw1 raw2 ?es [rs ! k] (\<lambda>_. bs)"] by auto
  have "cells api s' (filter scan_valid scs) = (\<Union>k \<in> {..<length rs}. ?kept (scs ! k))"
    using UN_nth [where xs = scs and F = ?kept] by (auto simp: cells_def len)
  also have "\<dots> = (\<Union>k \<in> {..<length rs}. first_round ?cmp type raw1 raw2 ?es [rs ! k] (\<lambda>_. mem (rs ! k)))"
    using mem by (intro SUP_cong) simp_all
  also have "\<dots> = first_round ?cmp type raw1 raw2 ?es rs mem"
    unfolding first_round_regions [of _ _ _ _ _ rs] by (rule UN_nth)
  finally have "cells api s' (filter scan_valid scs) = \<dots>" .
  moreover have "\<forall>r \<in> set rs. delivered api r True (mem r)" using mem by (metis in_set_conv_nth)
  ultimately show ?thesis using run by blast
qed

theorem first_scan_refines_witness:
  "\<exists>found s. first_scan still_api [0, 0, 0] 7 (0x10000, 0x10008) 4 exact_value U8 5 None (sample_sys [sample_mbi] ucast)
      = Some (Inr (found, s)) \<and> cells still_api s found = {(0x10005, 5)}"
proof -
  have al: "\<forall>r \<in> set [sample_region]. unat (element_size U8) dvd unat (region_base r)"
    and rd: "\<forall>r \<in> set [sample_region]. \<forall>part. \<not> delivered still_api r False part" by (simp_all add: still_delivered)
  have allocs: "allocs_succeed still_api (make_comparator exact_value U8) 5 None
      ([0, 0, 0] @ finish_schedule (length [sample_region]))
      (map (\<lambda>r. Start (start_scan exact_value (element_size U8) r)) [sample_region]) (sample_sys [sample_mbi] ucast)"
    unfolding append_Cons by (rule still_allocs_succeed)
  from first_scan_refines [OF still_docs(1,2) still_scans_ok still_regions sample_room allocs al rd] obtain found s mem where
    run: "first_scan still_api [0, 0, 0] 7 (0x10000, 0x10008) 4 exact_value U8 5 None (sample_sys [sample_mbi] ucast)
      = Some (Inr (found, s))" and mem: "delivered still_api sample_region True (mem sample_region)"
    and cs: "cells still_api s found
      = first_round (make_comparator exact_value U8) exact_value 5 None 1 [sample_region] mem"
    by auto
  have m: "mem sample_region = [0, 1, 2, 3, 4, 5, 6, 7]" using mem by (simp add: still_delivered)
  have five: "i = 5 \<longleftrightarrow> value_at 1 [0, 1, 2, 3, 4, 5, 6, 7] i = 5" if "i < 8" for i
  proof -
    have "\<forall>i \<in> set [0..<8]. i = 5 \<longleftrightarrow> value_at 1 [0, 1, 2, 3, 4, 5, 6, 7] i = 5" by code_simp
    with that show ?thesis by simp
  qed
  have at: "0x10000 \<le> a \<and> a + 1 \<le> 0x10008 \<and> 5 = value_at 1 [0, 1, 2, 3, 4, 5, 6, 7] (a - 0x10000) \<longleftrightarrow> a = 0x10005" for a
  proof (cases "0x10000 \<le> a \<and> a < 0x10008")
    case True
    then obtain i where "a = 0x10000 + i" "i < 8" using le_Suc_ex by force
    with five [of i] show ?thesis by auto
  qed auto
  have "unat (region_base sample_region) = 0x10000" by simp
  then have "(a, v) \<in> cells still_api s found \<longleftrightarrow> a = 0x10005 \<and> v = 5" for a v
    unfolding cs first_round_def in_region_def sample_region_end using at [of a]
    by (simp only: sample_region_end mem_Collect_eq prod.case list.set bex_simps m make_comparator.simps compare_int_def scan_type.simps Let_def
        one_dvd simp_thms) metis
  then have "cells still_api s found = {(0x10005, 5)}" by auto
  with run show ?thesis by blast
qed

subsection \<open>Next scans\<close>

lemma overlap_hits_snapshot:
  "e \<in> set (overlap_hits cmp type raw1 raw2 es r prev pr new old) \<Longrightarrow> snapshot_value e = entry_value e"
  by (auto simp: overlap_hits_def element_hits_def entry_hits_def hit_def Let_def split: if_splits)

lemma next_scan_cells:
  assumes "next_exact api cmp type raw1 raw2 es r p old new sc" and "type \<noteq> unknown_value"
  shows "scan_cells api s sc = reported (unat es) (unat (region_base r)) (results sc)"
proof -
  from assms(1) obtain r1 pr where x: "scan_region sc = Some r1" "region_mbi r1 = region_mbi r" "scan_mode sc = type"
    "elem_size sc = es" "results sc = overlap_hits cmp type raw1 raw2 (unat es) r p pr new old"
    by (auto simp: next_exact_def)
  have "region_base r1 = region_base r" using x(2) by (simp add: region_base_def)
  moreover have "snapshot_value e = entry_value e" if "e \<in> set (results sc)" for e
    using overlap_hits_snapshot that unfolding x(5) .
  ultimately show ?thesis using x(1,3,4) assms(2) by (simp add: scan_cells_def reported_def)
qed

lemma scan_cells_in_region:
  assumes "placed p" and "scan_region p = Some pr" and "(a, ref) \<in> scan_cells api s p"
  shows "in_region (unat (elem_size p)) pr a"
proof (cases "scan_mode p = unknown_value")
  case True
  with assms(2,3) show ?thesis by (simp add: scan_cells_def)
next
  case False
  let ?es = "unat (elem_size p)"
  from False assms(2,3) obtain e where e: "e \<in> set (results p)" "a = entry_addr ?es (unat (region_base pr)) e"
    by (auto simp: scan_cells_def)
  with assms(1,2) have "unat (element_index e) < unat (region_size pr) div ?es" "0 < ?es"
    by (auto simp: placed_def entries_ok_def)
  then have "Suc (unat (element_index e)) * ?es \<le> unat (region_size pr)" by (metis Suc_leI less_eq_div_iff_mult_less_eq)
  with e(2) show ?thesis by (simp add: in_region_def entry_addr_def region_end_def)
qed

text \<open>What a comparison considers is what the previous scan stands for.\<close>

lemma considered_cells:
  assumes "scan_region p = Some pr" and "elem_size p = es" and "in_region (unat es) pr a"
  shows "considered type raw1 (unat es) p pr (scan_snapshot api s p) a ref \<longleftrightarrow>
    (\<exists>ref0. (a, ref0) \<in> scan_cells api s p \<and> ref = (if scan_mode p = unknown_value \<or> from_snapshot type then ref0 else raw1))"
  using assms by (auto simp: considered_def scan_cells_def reference_value_def)

text \<open>Each region overlaps at most one of the previous scans.\<close>

definition one_overlap :: "memory_region list \<Rightarrow> scan list \<Rightarrow> bool" where
  "one_overlap rs prevs \<longleftrightarrow> (\<forall>r \<in> set rs. \<forall>p \<in> set prevs. \<forall>pr. scan_region p = Some pr \<longrightarrow> overlapping r pr
     \<longrightarrow> first_overlap prevs r = Some p)"

lemma in_both_overlapping:
  "0 < es \<Longrightarrow> in_region es r a \<Longrightarrow> in_region es pr a \<Longrightarrow> overlapping r pr"
  by (simp add: in_region_def overlapping_def)

lemma reported_cells:
  assumes es: "es = element_size et" and p: "scan_region p = Some pr" "elem_size p = es" "placed p" "p \<in> set prevs"
    and one: "one_overlap rs prevs" "r \<in> set rs" "first_overlap prevs r = Some p"
    and al: "unat es dvd unat (region_base r)" "unat es dvd unat (region_base pr)"
    and mode: "\<forall>p \<in> set prevs. (scan_mode p = unknown_value) = whole \<and> elem_size p = es \<and> placed p"
  shows "reported (unat es) (unat (region_base r)) (overlap_hits cmp type raw1 raw2 (unat es) r p pr new (scan_snapshot api s p))
    = {(a, v). in_region (unat es) r a \<and> v = value_at (unat es) new (a - unat (region_base r))
        \<and> (\<exists>ref. (a, ref) \<in> cells api s prevs \<and> cmp v (if whole \<or> from_snapshot type then ref else raw1) raw2)}"
proof -
  have pos: "0 < unat es" by (simp add: es)
  have "(\<exists>ref. considered type raw1 (unat es) p pr (scan_snapshot api s p) a ref \<and> cmp v ref raw2)
      \<and> in_region (unat es) pr a
    \<longleftrightarrow> (\<exists>ref. (a, ref) \<in> cells api s prevs \<and> cmp v (if whole \<or> from_snapshot type then ref else raw1) raw2)"
    if a: "in_region (unat es) r a" for a v
  proof
    assume l: "(\<exists>ref. considered type raw1 (unat es) p pr (scan_snapshot api s p) a ref \<and> cmp v ref raw2)
      \<and> in_region (unat es) pr a"
    then have inp: "in_region (unat es) pr a" ..
    from l obtain ref0 where "(a, ref0) \<in> scan_cells api s p"
      "cmp v (if scan_mode p = unknown_value \<or> from_snapshot type then ref0 else raw1) raw2"
      unfolding considered_cells [OF p(1,2) inp] by blast
    with mode p(4) show "\<exists>ref. (a, ref) \<in> cells api s prevs \<and> cmp v (if whole \<or> from_snapshot type then ref else raw1) raw2"
      by (intro exI [of _ ref0]) (auto simp: cells_def)
  next
    assume "\<exists>ref. (a, ref) \<in> cells api s prevs \<and> cmp v (if whole \<or> from_snapshot type then ref else raw1) raw2"
    then obtain ref q where q: "q \<in> set prevs" "(a, ref) \<in> scan_cells api s q"
      "cmp v (if whole \<or> from_snapshot type then ref else raw1) raw2" by (auto simp: cells_def)
    obtain qr where qr: "scan_region q = Some qr" using q(2) by (auto simp: scan_cells_def split: option.splits)
    have inq: "in_region (unat es) qr a" using scan_cells_in_region [OF _ qr q(2)] mode q(1) by auto
    with one q(1) qr in_both_overlapping [OF pos a inq] have qp: "q = p" by (auto simp: one_overlap_def)
    then have inp: "in_region (unat es) pr a" using inq qr p(1) by simp
    have "considered type raw1 (unat es) p pr (scan_snapshot api s p) a (if whole \<or> from_snapshot type then ref else raw1)"
      unfolding considered_cells [OF p(1,2) inp] using q(2) qp mode p(4) by auto
    with q(3) inp show "(\<exists>ref. considered type raw1 (unat es) p pr (scan_snapshot api s p) a ref \<and> cmp v ref raw2)
      \<and> in_region (unat es) pr a" by blast
  qed
  then have rhs: "{(a, v). in_region (unat es) r a \<and> v = value_at (unat es) new (a - unat (region_base r))
        \<and> (\<exists>ref. (a, ref) \<in> cells api s prevs \<and> cmp v (if whole \<or> from_snapshot type then ref else raw1) raw2)}
    = {(a, v). in_region (unat es) r a \<and> v = value_at (unat es) new (a - unat (region_base r))
        \<and> (\<exists>ref. considered type raw1 (unat es) p pr (scan_snapshot api s p) a ref \<and> cmp v ref raw2)
        \<and> in_region (unat es) pr a}" by blast
  show ?thesis
    unfolding rhs reported_overlap_hits [OF pos al] by (auto simp: in_region_def)
qed

lemma delivered_some: "\<exists>ok bs. delivered api r ok bs"
  unfolding delivered_def by (metis prod.collapse)

text \<open>One region of a next scan: without a previous scan it overlaps there is nothing to compare.\<close>

lemma next_region_alone:
  assumes "first_overlap prevs r = None" and one: "one_overlap rs prevs" "r \<in> set rs"
    and mode: "\<forall>p \<in> set prevs. elem_size p = element_size et \<and> placed p"
  shows "next_round cmp type whole raw1 raw2 (unat (element_size et)) [r] mem (cells api s prevs) = {}"
proof -
  let ?es = "unat (element_size et)"
  have "\<not> ((a, ref) \<in> cells api s prevs \<and> in_region ?es r a)" for a ref
  proof
    assume "(a, ref) \<in> cells api s prevs \<and> in_region ?es r a"
    then obtain q where q: "q \<in> set prevs" "(a, ref) \<in> scan_cells api s q" "in_region ?es r a" by (auto simp: cells_def)
    obtain qr where qr: "scan_region q = Some qr" using q(2) by (auto simp: scan_cells_def split: option.splits)
    have "in_region ?es qr a" using scan_cells_in_region [OF _ qr q(2)] mode q(1) by auto
    with in_both_overlapping [OF element_size_pos q(3)] one q(1) qr assms(1) show False
      by (auto simp: one_overlap_def)
  qed
  then show ?thesis unfolding next_round_def by auto
qed

text \<open>With one, its scan stands for what the round keeps, and without a scan the round keeps nothing.\<close>

lemma next_region_overlap:
  assumes p: "first_overlap prevs r = Some p" and one: "one_overlap rs prevs" "r \<in> set rs"
    and mode: "\<forall>p \<in> set prevs. (scan_mode p = unknown_value) = whole \<and> elem_size p = element_size et \<and> placed p"
    and al: "unat (element_size et) dvd unat (region_base r)" "\<forall>p \<in> set prevs. unat (element_size et) dvd unat (scan_base p)"
  shows "type \<noteq> unknown_value \<Longrightarrow>
      next_exact api cmp type raw1 raw2 (element_size et) r p (scan_snapshot api s p) new sc \<Longrightarrow>
      delivered api r True new
      \<and> scan_cells api s' sc = next_round cmp type whole raw1 raw2 (unat (element_size et)) [r] (\<lambda>_. new) (cells api s prevs)"
    and "\<forall>part. \<not> delivered api r False part \<Longrightarrow>
      next_missing api cmp type raw1 raw2 (element_size et) r p (scan_snapshot api s p) \<Longrightarrow>
      \<exists>bs. delivered api r True bs
        \<and> next_round cmp type whole raw1 raw2 (unat (element_size et)) [r] (\<lambda>_. bs) (cells api s prevs) = {}"
proof -
  have mem: "p \<in> set prevs" using p by (auto simp: first_overlap_def find_Some_iff)
  with mode obtain pr where pr: "scan_region p = Some pr" by (auto simp: placed_def)
  have "unat (element_size et) dvd unat (region_base pr)" "elem_size p = element_size et" "placed p"
    using al(2) mode mem pr by (auto simp: scan_base_def)
  from reported_cells [OF refl pr this(2,3) mem one p al(1) this(1) mode, of cmp type raw1 raw2]
  have rc: "reported (unat (element_size et)) (unat (region_base r))
      (overlap_hits cmp type raw1 raw2 (unat (element_size et)) r p pr bs (scan_snapshot api s p))
    = next_round cmp type whole raw1 raw2 (unat (element_size et)) [r] (\<lambda>_. bs) (cells api s prevs)" for bs
    by (simp add: next_round_def split del: if_split)
  show "type \<noteq> unknown_value \<Longrightarrow>
      next_exact api cmp type raw1 raw2 (element_size et) r p (scan_snapshot api s p) new sc \<Longrightarrow>
      delivered api r True new
      \<and> scan_cells api s' sc = next_round cmp type whole raw1 raw2 (unat (element_size et)) [r] (\<lambda>_. new) (cells api s prevs)"
    using next_scan_cells [of api cmp type raw1 raw2 "element_size et" r p "scan_snapshot api s p" new sc s'] rc pr
    by (auto simp: next_exact_def)
  show "\<forall>part. \<not> delivered api r False part \<Longrightarrow>
      next_missing api cmp type raw1 raw2 (element_size et) r p (scan_snapshot api s p) \<Longrightarrow>
      \<exists>bs. delivered api r True bs
        \<and> next_round cmp type whole raw1 raw2 (unat (element_size et)) [r] (\<lambda>_. bs) (cells api s prevs) = {}"
    unfolding next_missing_def rc [symmetric] using pr by (force simp: reported_def)
qed

text \<open>
  C6: a next scan implements the next round, under these conditions: every region found can be
  read; the bases of the regions and of the previous scans are multiples of the element size; the
  previous scans were all made for elements of this size, and all or none of them for an unknown
  value; no region overlaps two previous scans; the mode is not \<open>unknown_value\<close>; and the platform
  has room for the copies. Then the scans found stand for exactly the candidates of the previous
  scans that still lie in a region and whose new value, as delivered, the comparator accepts:
  against the value of the candidate in the relative modes and after an unknown first value,
  against the value given in the others. Without the conditions candidates are lost or moved:
  see \<open>next_scan_first_overlap\<close> (merged regions), \<open>remap_rounds_down\<close> (bases that are not aligned) and
  \<open>remap_rescales_index\<close> (another element size).
\<close>

theorem next_scan_refines:
  assumes "query_docs api" and "rpm_docs api" and "scans_ok api s (prevs @ others)" and "\<forall>p \<in> set prevs. placed p"
    and "sorted_wrt (\<lambda>p q. scan_base p \<le> scan_base q) prevs"
    and "get_regions api h (lo, hi) protect (world s) = Some rs"
    and "unat (foffset (dump_file s)) + (\<Sum>r\<leftarrow>rs. unat (region_size r)) \<le> 2 ^ 60"
    and "next_reserves api (make_comparator type et) type (element_size et) raw2 (matches rs prevs) raw1 s"
    and "\<forall>r \<in> set rs. unat (element_size et) dvd unat (region_base r)"
    and "\<forall>r \<in> set rs. \<forall>part. \<not> delivered api r False part"
    and "\<forall>p \<in> set prevs. unat (element_size et) dvd unat (scan_base p) \<and> elem_size p = element_size et
      \<and> (scan_mode p = unknown_value) = whole"
    and "one_overlap rs prevs" and "type \<noteq> unknown_value"
  shows "\<exists>found s' mem. next_scan api h (lo, hi) protect type et prevs raw1 raw2 s = Some (Inr (found, s'))
    \<and> (\<forall>r \<in> set rs. delivered api r True (mem r))
    \<and> cells api s' found
      = next_round (make_comparator type et) type whole raw1 raw2 (unat (element_size et)) rs mem (cells api s prevs)"
proof -
  let ?cmp = "make_comparator type et" and ?es = "unat (element_size et)"
  from next_scan_sources [OF assms(1-8)] obtain found s' where
    run: "next_scan api h (lo, hi) protect type et prevs raw1 raw2 s = Some (Inr (found, s'))"
    and sorted: "sorted_wrt (\<lambda>a b. scan_base a < scan_base b) found"
    and region: "\<forall>sc \<in> set found. \<exists>r \<in> set rs. scan_base sc = region_base r"
    and each: "\<forall>r \<in> set rs. case first_overlap prevs r of
         None \<Rightarrow> \<forall>sc \<in> set found. scan_base sc \<noteq> region_base r
       | Some p \<Rightarrow>
           (\<exists>sc \<in> set found. scan_base sc = region_base r
              \<and> next_exact api ?cmp type raw1 raw2 (element_size et) r p (scan_snapshot api s p) (scan_snapshot api s' sc) sc)
         \<or> ((\<forall>sc \<in> set found. scan_base sc \<noteq> region_base r)
              \<and> next_missing api ?cmp type raw1 raw2 (element_size et) r p (scan_snapshot api s p))"
    by blast
  let ?here = "\<lambda>r. (\<Union>sc \<in> {sc \<in> set found. scan_base sc = region_base r}. scan_cells api s' sc)"
  let ?spec = "\<lambda>r bs. next_round ?cmp type whole raw1 raw2 ?es [r] (\<lambda>_. bs) (cells api s prevs)"
  have mode: "\<forall>p \<in> set prevs. (scan_mode p = unknown_value) = whole \<and> elem_size p = element_size et \<and> placed p"
    and al: "\<forall>p \<in> set prevs. ?es dvd unat (scan_base p)" using assms(4,11) by blast+
  have "\<exists>bs. delivered api r True bs \<and> ?here r = ?spec r bs" if r: "r \<in> set rs" for r
  proof (cases "first_overlap prevs r")
    case None
    obtain bs where "delivered api r True bs" using delivered_some [of api r] assms(10) r by (metis (full_types))
    moreover have "?here r = {}" using each r None by auto
    moreover have "?spec r bs = {}" by (rule next_region_alone [OF None assms(12) r]) (use mode in simp)
    ultimately show ?thesis by (intro exI [of _ bs]) simp
  next
    case (Some p)
    note overlap = next_region_overlap [OF Some assms(12) r mode bspec [OF assms(9) r] al]
    consider
      sc where "sc \<in> set found" "scan_base sc = region_base r"
        "next_exact api ?cmp type raw1 raw2 (element_size et) r p (scan_snapshot api s p) (scan_snapshot api s' sc) sc"
    | "\<forall>sc \<in> set found. scan_base sc \<noteq> region_base r"
        "next_missing api ?cmp type raw1 raw2 (element_size et) r p (scan_snapshot api s p)"
      using bspec [OF each r] unfolding Some option.case by blast
    then show ?thesis
    proof cases
      case 1
      have "{sc \<in> set found. scan_base sc = region_base r} = {sc}"
        using 1(1,2) strictly_sorted_inj [OF sorted] by auto
      then have "?here r = scan_cells api s' sc" by simp
      with overlap(1) [OF assms(13) 1(3), of s'] show ?thesis by blast
    next
      case 2
      have "?here r = {}" using 2(1) by auto
      with overlap(2) [OF bspec [OF assms(10) r] 2(2)] show ?thesis by auto
    qed
  qed
  then obtain mem where mem: "\<forall>r \<in> set rs. delivered api r True (mem r) \<and> ?here r = ?spec r (mem r)"
    using bchoice [where S = "set rs" and Q = "\<lambda>r bs. delivered api r True bs \<and> ?here r = ?spec r bs"] by blast
  have "cells api s' found = (\<Union>r \<in> set rs. ?here r)" using region by (fastforce simp: cells_def)
  also have "\<dots> = next_round ?cmp type whole raw1 raw2 ?es rs mem (cells api s prevs)"
    unfolding next_round_regions [of _ _ _ _ _ _ rs] using mem by simp
  finally show ?thesis using run mem by blast
qed

theorem next_scan_refines_witness:
  "\<exists>r s found s'. cells still_api s [scan5 r] = {(0x10005, 5)}
    \<and> next_scan still_api 7 (0x10000, 0x10008) 4 unchanged U8 [scan5 r] 0 None s = Some (Inr (found, s'))
    \<and> cells still_api s' found = {(0x10005, 5)}"
proof -
  let ?cmp = "make_comparator unchanged U8"
  obtain r s where w: "scans_ok still_api s [scan5 r]" "placed (scan5 r)" "region_base r = 0x10000" "region_end r = 0x10008"
    "get_regions still_api 7 (0x10000, 0x10008) 4 (world s) = Some [sample_region]"
    "unat (foffset (dump_file s)) + (\<Sum>r\<leftarrow>[sample_region]. unat (region_size r)) \<le> 2 ^ 60"
    "next_reserves still_api ?cmp unchanged (element_size U8) None (matches [sample_region] [scan5 r]) 0 s"
    using still_second_round by blast
  have pre: "scans_ok still_api s ([scan5 r] @ [])" "\<forall>p \<in> set [scan5 r]. placed p"
    "sorted_wrt (\<lambda>p q. scan_base p \<le> scan_base q) [scan5 r]" using w(1,2) by simp_all
  have al: "\<forall>r \<in> set [sample_region]. unat (element_size U8) dvd unat (region_base r)"
    "\<forall>r \<in> set [sample_region]. \<forall>part. \<not> delivered still_api r False part"
    "\<forall>p \<in> set [scan5 r]. unat (element_size U8) dvd unat (scan_base p) \<and> elem_size p = element_size U8
      \<and> (scan_mode p = unknown_value) = False"
    "one_overlap [sample_region] [scan5 r]" "unchanged \<noteq> unknown_value"
    by (simp_all add: still_delivered scan5_def one_overlap_def first_overlap_def)
  have before: "cells still_api s [scan5 r] = {(0x10005, 5)}"
    using w(3) by (simp add: cells_def scan_cells_def) (simp add: scan5_def hit5_def entry_addr_def)
  from next_scan_refines [OF still_docs(1,2) pre w(5-7) al] obtain found s' mem where
    run: "next_scan still_api 7 (0x10000, 0x10008) 4 unchanged U8 [scan5 r] 0 None s = Some (Inr (found, s'))"
    and mem: "delivered still_api sample_region True (mem sample_region)"
    and after: "cells still_api s' found
      = next_round ?cmp unchanged False 0 None 1 [sample_region] mem (cells still_api s [scan5 r])" by auto
  have m: "mem sample_region = [0, 1, 2, 3, 4, 5, 6, 7]" using mem by (simp add: still_delivered)
  have "value_at 1 [0, 1, 2, 3, 4, 5, 6, 7] 5 = 5" by code_simp
  then have "cells still_api s' found = {(0x10005, 5)}"
    unfolding after before by (auto simp: next_round_def in_region_def m from_snapshot_def compare_int_def)
  with before run show ?thesis by blast
qed

end
