(* ===== verification/Session.thy ===== *)
theory Session
  imports Rounds
begin

text \<open>
  The operations of the scanner in any order: a client makes first scans, narrows one of its
  vectors of scans with a next scan, refreshes a scan, drops a vector, and the target runs in
  between. The invariant of the copies holds in every state that can be reached so, which is what
  each operation relies on.
\<close>

text \<open>
  The premises of a step say that the platform had room: the regions are found, the dump file
  stays below its bound and the reservations succeed.
\<close>

inductive scan_step ::
  "'w win32 \<Rightarrow> u32 \<Rightarrow> scan list list \<times> 'w sys \<Rightarrow> scan list list \<times> 'w sys \<Rightarrow> bool" for api h where
  Step_first: "get_regions api h (lo, hi) protect (world s) = Some rs \<Longrightarrow>
    unat (foffset (dump_file s)) + (\<Sum>r\<leftarrow>rs. unat (region_size r)) \<le> 2 ^ 60 \<Longrightarrow>
    allocs_succeed api (make_comparator type et) raw1 raw2 (ks @ finish_schedule (length rs))
      (map (\<lambda>r. Start (start_scan type (element_size et) r)) rs) s \<Longrightarrow>
    first_scan api ks h (lo, hi) protect type et raw1 raw2 s = Some (Inr (found, s')) \<Longrightarrow>
    scan_step api h (vs, s) (vs @ [found], s')"
| Step_next: "k < length vs \<Longrightarrow> get_regions api h (lo, hi) protect (world s) = Some rs \<Longrightarrow>
    unat (foffset (dump_file s)) + (\<Sum>r\<leftarrow>rs. unat (region_size r)) \<le> 2 ^ 60 \<Longrightarrow>
    next_reserves api (make_comparator type et) type (element_size et) raw2 (matches rs (vs ! k)) raw1 s \<Longrightarrow>
    next_scan api h (lo, hi) protect type et (vs ! k) raw1 raw2 s = Some (Inr (found, s')) \<Longrightarrow>
    scan_step api h (vs, s) (vs[k := found], s')"
| Step_update: "k < length vs \<Longrightarrow> j < length (vs ! k) \<Longrightarrow> update api (vs ! k ! j) s = Inr (sc, s') \<Longrightarrow>
    scan_step api h (vs, s) (vs[k := (vs ! k)[j := sc]], s')"
| Step_drop: "k < length vs \<Longrightarrow>
    scan_step api h (vs, s) (take k vs @ drop (Suc k) vs, clear_scans api (vs ! k) s)"

text \<open>A step of a session is an operation of the client, or the target runs.\<close>

inductive session_step ::
  "'w win32 \<Rightarrow> u32 \<Rightarrow> scan list list \<times> 'w sys \<Rightarrow> scan list list \<times> 'w sys \<Rightarrow> bool" for api h where
  Step_scan: "scan_step api h st st' \<Longrightarrow> session_step api h st st'"
| Step_target: "keeps api (world s) w \<Longrightarrow> session_step api h (vs, s) (vs, s\<lparr>world := w\<rparr>)"

inductive_cases session_stepE: "session_step api h st st'"

text \<open>A session begins when the scanner and its dump file have been made.\<close>

inductive session :: "'w win32 \<Rightarrow> u32 \<Rightarrow> scan list list \<times> 'w sys \<Rightarrow> bool" for api h where
  Session_start: "dump_inv api (s, no_refs) \<Longrightarrow> session api h ([], s)"
| Session_step: "session api h st \<Longrightarrow> session_step api h st st' \<Longrightarrow> session api h st'"

text \<open>
  The constructor of the scanner begins one, when the dump file could be created and is empty.
\<close>

lemma new_scanner_session:
  assumes "memory_docs api" and "disk_ok api" and "new_slow_scanner api w = sc"
    and "fvalid (dump_file (sys_of sc))" and "fsize (dump_file (sys_of sc)) = 0"
  shows "session api h ([], sys_of (attach_to h sc))"
proof -
  obtain f w1 where n: "m_file_new api ''dump.bin'' w = (f, w1)" by force
  with assms(3) have s: "sys_of sc = \<lparr>world = w1, heap = [], dump_file = f\<rparr>" by (auto simp: new_slow_scanner_def)
  have "store_inv api no_refs (sys_of sc)" using new_store_inv [OF n] assms(4,5) by (simp add: s)
  with assms(1,2) show ?thesis by (intro Session_start) (simp add: dump_inv_def attach_to_def)
qed

definition ascending :: "scan list \<Rightarrow> bool" where
  "ascending v \<longleftrightarrow> sorted_wrt (\<lambda>p q. scan_base p < scan_base q) v"

definition session_inv :: "'w win32 \<Rightarrow> scan list list \<times> 'w sys \<Rightarrow> bool" where
  "session_inv api st \<longleftrightarrow> scans_ok api (snd st) (concat (fst st))
     \<and> (\<forall>v \<in> set (fst st). ascending v \<and> (\<forall>sc \<in> set v. placed sc))"

lemma concat_split:
  "k < length vs \<Longrightarrow> concat vs = concat (take k vs) @ vs ! k @ concat (drop (Suc k) vs)"
  by (metis concat.simps(2) concat_append id_take_nth_drop)

lemma concat_update:
  "k < length vs \<Longrightarrow> concat (vs[k := v]) = concat (take k vs) @ v @ concat (drop (Suc k) vs)"
  by (simp add: upd_conv_take_nth_drop)

lemma scans_ok_front: "scans_ok api s (xs @ v @ ys) \<Longrightarrow> scans_ok api s (v @ ys @ xs)"
  using scans_ok_swap [of api s xs "v @ ys"] by simp

lemma scans_ok_back: "scans_ok api s ((ys @ xs) @ v) \<Longrightarrow> scans_ok api s (xs @ v @ ys)"
  using scans_ok_swap [of api s ys "xs @ v"] by simp

lemma in_vectors_update:
  "\<forall>v \<in> set vs. P v \<Longrightarrow> P v' \<Longrightarrow> \<forall>v \<in> set (vs[k := v']). P v"
  using set_update_subset_insert [of vs k v'] by blast

lemma in_vectors_drop: "\<forall>v \<in> set vs. P v \<Longrightarrow> \<forall>v \<in> set (take k vs @ drop (Suc k) vs). P v"
  by (auto dest: in_set_takeD in_set_dropD)

lemma scans_ok_env:
  assumes "scans_ok api s scs" and "keeps api (world s) w"
  shows "scans_ok api (s\<lparr>world := w\<rparr>) scs" and "snapshots_kept api s (s\<lparr>world := w\<rparr>) scs"
proof -
  let ?s = "s\<lparr>world := w\<rparr>" and ?refs = "scan_uses scs"
  have env: "dump_env api (s, ?refs) (?s, ?refs)" using assms(2) by (simp add: dump_env_def)
  have h: "dump.holds api (s, ?refs) (scan_ranges scs)" and cp: "\<forall>c \<in> set scs. copied c"
    using assms(1) by (simp_all add: scans_ok_def)
  note he = shared_dump.holds_env [OF h env]
  show "scans_ok api ?s scs" using he(1) cp by (simp add: scans_ok_def)
  have "scan_snapshot api ?s sc = scan_snapshot api s sc" if sc: "sc \<in> set scs" for sc
  proof -
    from sc obtain k where k: "k < length scs" "sc = scs ! k" by (metis in_set_conv_nth)
    then have c: "copied (scs ! k)" using cp by simp
    from fun_cong [OF he(2), of k] show ?thesis unfolding scan_snapshot_content [OF k(1) c] k(2) by simp
  qed
  then show "snapshots_kept api s ?s scs" by (simp add: snapshots_kept_def)
qed

lemma first_scan_session:
  assumes "query_docs api" and "rpm_docs api" and "scans_ok api s olds"
    and regions: "get_regions api h (lo, hi) protect (world s) = Some rs"
    and "unat (foffset (dump_file s)) + (\<Sum>r\<leftarrow>rs. unat (region_size r)) \<le> 2 ^ 60"
    and "allocs_succeed api (make_comparator type et) raw1 raw2 (ks @ finish_schedule (length rs))
      (map (\<lambda>r. Start (start_scan type (element_size et) r)) rs) s"
  shows "\<exists>found s'. first_scan api ks h (lo, hi) protect type et raw1 raw2 s = Some (Inr (found, s'))
    \<and> ascending found \<and> (\<forall>sc \<in> set found. placed sc) \<and> scans_ok api s' (olds @ found)"
proof -
  from first_scan_spec [OF assms] obtain scs s' where
    run: "first_scan api ks h (lo, hi) protect type et raw1 raw2 s = Some (Inr (filter scan_valid scs, s'))"
    and len: "length scs = length rs" and asc: "ascending (filter scan_valid scs)"
    and each: "\<forall>k < length rs. if scan_valid (scs ! k)
         then scan_exact api (\<lambda>v. make_comparator type et v raw1 raw2) type (element_size et) s' (rs ! k) (scs ! k)
         else scan_missing api (\<lambda>v. make_comparator type et v raw1 raw2) type (element_size et) (rs ! k)"
    and ok: "scans_ok api s' (filter scan_valid scs @ olds)"
    unfolding ascending_def by blast
  have "placed sc" if sc: "sc \<in> set scs" "scan_valid sc" for sc
  proof -
    from sc(1) obtain k where k: "k < length rs" "sc = scs ! k" unfolding len [symmetric] by (metis in_set_conv_nth)
    have "region_end (rs ! k) \<le> 2 ^ 48"
      using get_regions_fresh(1) [OF assms(1) regions] nth_mem [OF k(1)] by (simp add: fresh_regions_def)
    with each k sc(2) first_scan_placed show ?thesis by metis
  qed
  with run asc scans_ok_swap [OF ok] show ?thesis by (intro exI [of _ "filter scan_valid scs"] exI [of _ s']) simp
qed

lemma scan_step_inv:
  assumes "scan_step api h st st'" and "query_docs api" and "rpm_docs api" and "session_inv api st"
  shows "session_inv api st'"
  using assms(1)
proof (cases rule: scan_step.cases)
  case (Step_first lo hi protect s rs type et raw1 raw2 ks found s' vs)
  have "scans_ok api s (concat vs)" using assms(4) Step_first(1) by (simp add: session_inv_def)
  from first_scan_session [OF assms(2,3) this Step_first(3-5)] Step_first(1,2,6) assms(4)
  show ?thesis by (auto simp: session_inv_def)
next
  case (Step_next k vs lo hi protect s rs type et raw2 raw1 found s')
  let ?A = "concat (take k vs)" and ?B = "concat (drop (Suc k) vs)"
  have inv: "scans_ok api s (vs ! k @ (?B @ ?A))" "\<forall>p \<in> set (vs ! k). placed p"
    using assms(4) Step_next(1,3) concat_split [OF Step_next(3)] scans_ok_front by (fastforce simp: session_inv_def)+
  from next_scan_spec [OF assms(2,3) inv Step_next(4-6)] Step_next(7) obtain scs where
    f: "found = filter scan_valid scs" "sorted_wrt (\<lambda>a b. scan_base a < scan_base b) scs"
      "scans_ok api s' ((?B @ ?A) @ filter scan_valid scs)" "\<forall>sc \<in> set scs. scan_valid sc \<longrightarrow> placed sc" by auto
  have "ascending found" unfolding f(1) ascending_def using f(2) by (rule sorted_wrt_filter)
  moreover have "scans_ok api s' (concat (vs[k := found]))"
    using scans_ok_back [OF f(3)] by (simp add: concat_update [OF Step_next(3)] f(1))
  moreover have "\<forall>sc \<in> set found. placed sc" using f(1,4) by simp
  ultimately show ?thesis
    using assms(4) Step_next(1,2)
      in_vectors_update [of vs "\<lambda>v. ascending v \<and> (\<forall>sc \<in> set v. placed sc)" found k] by (simp add: session_inv_def)
next
  case (Step_update k vs j s sc s')
  let ?v = "vs ! k"
  let ?A = "concat (take k vs) @ take j ?v" and ?B = "drop (Suc j) ?v @ concat (drop (Suc k) vs)"
  have v: "ascending ?v" "\<forall>sc \<in> set ?v. placed sc" using assms(4) Step_update(1,3) by (auto simp: session_inv_def)
  have "concat vs = ?A @ ?v ! j # ?B"
    using concat_split [OF Step_update(3)] id_take_nth_drop [OF Step_update(4)] by (metis append.assoc append_Cons)
  then have ok: "scans_ok api s (?A @ ?v ! j # ?B)" using assms(4) Step_update(1) by (simp add: session_inv_def)
  have "placed (?v ! j)" using v(2) Step_update(4) by simp
  from scans_ok_update [OF ok assms(3) this] Step_update(5) have u: "scans_ok api s' (?A @ sc # ?B)"
    "placed sc" "scan_base sc = scan_base (?v ! j)" by auto
  have "map scan_base (?v[j := sc]) = map scan_base ?v" using u(3) by (metis list_update_id map_update)
  then have "ascending (?v[j := sc])" using v(1) unfolding ascending_def by (metis sorted_wrt_map)
  moreover have "\<forall>c \<in> set (?v[j := sc]). placed c" using in_vectors_update [OF v(2) u(2)] .
  moreover have "concat (vs[k := ?v[j := sc]]) = ?A @ sc # ?B"
    by (simp add: concat_update [OF Step_update(3)] upd_conv_take_nth_drop [OF Step_update(4)])
  ultimately show ?thesis
    using assms(4) Step_update(1,2) u(1)
      in_vectors_update [of vs "\<lambda>v. ascending v \<and> (\<forall>sc \<in> set v. placed sc)" "?v[j := sc]" k]
    by (simp add: session_inv_def)
next
  case (Step_drop k vs s)
  have "scans_ok api s (vs ! k @ (concat (drop (Suc k) vs) @ concat (take k vs)))"
    using assms(4) Step_drop(1) concat_split [OF Step_drop(3)] scans_ok_front by (fastforce simp: session_inv_def)
  from clear_scans_spec [OF this] have "scans_ok api (clear_scans api (vs ! k) s) (concat (take k vs @ drop (Suc k) vs))"
    using scans_ok_swap by fastforce
  with assms(4) Step_drop(1,2) in_vectors_drop [of vs "\<lambda>v. ascending v \<and> (\<forall>sc \<in> set v. placed sc)" k]
  show ?thesis by (simp add: session_inv_def)
qed

lemma session_step_inv:
  assumes "session_step api h st st'" and "query_docs api" and "rpm_docs api" and "session_inv api st"
  shows "session_inv api st'"
  using assms(1)
proof (cases rule: session_step.cases)
  case Step_scan
  then show ?thesis using scan_step_inv assms(2-4) by blast
next
  case (Step_target s w vs)
  with assms(4) scans_ok_env(1) [of api s "concat vs" w] show ?thesis by (simp add: session_inv_def)
qed

lemma session_inv:
  assumes "session api h st" and "query_docs api" and "rpm_docs api"
  shows "session_inv api st"
  using assms(1)
proof (induction rule: session.induct)
  case (Session_start s)
  then show ?case by (simp add: session_inv_def)
next
  case (Session_step st st')
  then show ?case using session_step_inv assms(2,3) by blast
qed

subsection \<open>Properties\<close>

text \<open>The sample target: a session with one first scan.\<close>

lemma still_session_start: "session still_api 7 ([], sample_sys [sample_mbi] ucast)"
  by (rule Session_start) (rule still_dump_inv)

lemma still_session: "\<exists>found s. session still_api 7 ([found], s)"
proof -
  have al: "allocs_succeed still_api (make_comparator exact_value U8) 5 None
      ([0, 0, 0] @ finish_schedule (length [sample_region]))
      (map (\<lambda>r. Start (start_scan exact_value (element_size U8) r)) [sample_region]) (sample_sys [sample_mbi] ucast)"
    unfolding append_Cons by (rule still_allocs_succeed)
  obtain found s' where
    "first_scan still_api [0, 0, 0] 7 (0x10000, 0x10008) 4 exact_value U8 5 None (sample_sys [sample_mbi] ucast)
      = Some (Inr (found, s'))"
    using first_scan_session [OF still_docs(1,2) still_scans_ok still_regions sample_room al] by blast
  from Session_step [OF still_session_start Step_scan, OF Step_first [OF still_regions sample_room al this, of "[]"]]
  show ?thesis by auto
qed

text \<open>
  C4: the invariant of the scanner. Whatever the client does, in any order and with the target
  running in between: every scan it holds has its whole copy in its own part of the dump file,
  the pointers to the maps are exactly those of the scans and of the dump file, every vector is in
  ascending order of the bases, and every entry denotes an element of its region with a value of
  the element's width.
\<close>

theorem session_invariant:
  assumes "session api h (vs, s)" and "query_docs api" and "rpm_docs api"
  shows "scans_ok api s (concat vs) \<and> (\<forall>v \<in> set vs. sorted_wrt (\<lambda>p q. scan_base p < scan_base q) v \<and> (\<forall>sc \<in> set v. placed sc))"
  using session_inv [OF assms] by (simp_all add: session_inv_def ascending_def)

theorem session_invariant_witness:
  "\<exists>found s. session still_api 7 ([found], s) \<and> scans_ok still_api s found"
  using still_session session_invariant [OF _ still_docs(1,2)] by fastforce

text \<open>
  C9: no operation of a session faults. In every reachable state, refreshing any scan that the
  client holds returns; and when the platform finds regions and has room for their copies, a next
  scan of any of its vectors and a further first scan return, without a null dereference, an
  access outside a copy or an exception.
\<close>

theorem session_operations_return:
  assumes "session api h (vs, s)" and "query_docs api" and "rpm_docs api"
  shows "(\<forall>k j. k < length vs \<and> j < length (vs ! k) \<longrightarrow> (\<exists>sc s'. update api (vs ! k ! j) s = Inr (sc, s')))
    \<and> (\<forall>k lo hi protect rs type et raw1 raw2. k < length vs \<and> get_regions api h (lo, hi) protect (world s) = Some rs
        \<and> unat (foffset (dump_file s)) + (\<Sum>r\<leftarrow>rs. unat (region_size r)) \<le> 2 ^ 60
        \<and> next_reserves api (make_comparator type et) type (element_size et) raw2 (matches rs (vs ! k)) raw1 s
        \<longrightarrow> (\<exists>found s'. next_scan api h (lo, hi) protect type et (vs ! k) raw1 raw2 s = Some (Inr (found, s'))))
    \<and> (\<forall>ks lo hi protect rs type et raw1 raw2. get_regions api h (lo, hi) protect (world s) = Some rs
        \<and> unat (foffset (dump_file s)) + (\<Sum>r\<leftarrow>rs. unat (region_size r)) \<le> 2 ^ 60
        \<and> allocs_succeed api (make_comparator type et) raw1 raw2 (ks @ finish_schedule (length rs))
            (map (\<lambda>r. Start (start_scan type (element_size et) r)) rs) s
        \<longrightarrow> (\<exists>found s'. first_scan api ks h (lo, hi) protect type et raw1 raw2 s = Some (Inr (found, s'))))"
proof -
  have inv: "scans_ok api s (concat vs)" "\<forall>v \<in> set vs. \<forall>sc \<in> set v. placed sc"
    using session_inv [OF assms] by (simp_all add: session_inv_def)
  have u: "\<exists>sc s'. update api (vs ! k ! j) s = Inr (sc, s')" if "k < length vs" "j < length (vs ! k)" for k j
  proof -
    have "concat vs = (concat (take k vs) @ take j (vs ! k)) @ vs ! k ! j # drop (Suc j) (vs ! k) @ concat (drop (Suc k) vs)"
      using concat_split [OF that(1)] id_take_nth_drop [OF that(2)] by (metis append.assoc append_Cons)
    with inv(1) have "scans_ok api s ((concat (take k vs) @ take j (vs ! k)) @ vs ! k ! j
        # drop (Suc j) (vs ! k) @ concat (drop (Suc k) vs))" by simp
    moreover have "placed (vs ! k ! j)" using inv(2) that by (meson nth_mem)
    ultimately show ?thesis using scans_ok_update [OF _ assms(3)] by blast
  qed
  have n: "\<exists>found s'. next_scan api h (lo, hi) protect type et (vs ! k) raw1 raw2 s = Some (Inr (found, s'))"
    if "k < length vs" "get_regions api h (lo, hi) protect (world s) = Some rs"
      "unat (foffset (dump_file s)) + (\<Sum>r\<leftarrow>rs. unat (region_size r)) \<le> 2 ^ 60"
      "next_reserves api (make_comparator type et) type (element_size et) raw2 (matches rs (vs ! k)) raw1 s"
    for k lo hi protect rs type et raw1 raw2
  proof -
    have "scans_ok api s (vs ! k @ (concat (drop (Suc k) vs) @ concat (take k vs)))"
      using inv(1) concat_split [OF that(1)] scans_ok_front by fastforce
    moreover have "\<forall>p \<in> set (vs ! k). placed p" using inv(2) that(1) by (meson nth_mem)
    ultimately show ?thesis using next_scan_spec [OF assms(2,3) _ _ that(2-4)] by blast
  qed
  have f: "\<exists>found s'. first_scan api ks h (lo, hi) protect type et raw1 raw2 s = Some (Inr (found, s'))"
    if "get_regions api h (lo, hi) protect (world s) = Some rs"
      "unat (foffset (dump_file s)) + (\<Sum>r\<leftarrow>rs. unat (region_size r)) \<le> 2 ^ 60"
      "allocs_succeed api (make_comparator type et) raw1 raw2 (ks @ finish_schedule (length rs))
        (map (\<lambda>r. Start (start_scan type (element_size et) r)) rs) s"
    for ks lo hi protect rs type et raw1 raw2
    using first_scan_session [OF assms(2,3) inv(1) that] by blast
  show ?thesis
    by ((intro conjI allI impI; elim conjE), (rule u, assumption+), (rule n, assumption+), (rule f, assumption+))
qed

theorem session_operations_return_witness:
  "\<exists>found s'. first_scan still_api [0] 7 (0x10000, 0x10008) 4 exact_value U8 5 None (sample_sys [sample_mbi] ucast)
    = Some (Inr (found, s'))"
proof -
  have "allocs_succeed still_api (make_comparator exact_value U8) 5 None ([0] @ finish_schedule (length [sample_region]))
      (map (\<lambda>r. Start (start_scan exact_value (element_size U8) r)) [sample_region]) (sample_sys [sample_mbi] ucast)"
    unfolding append_Cons by (rule still_allocs_succeed)
  from session_operations_return [OF still_session_start still_docs(1,2), THEN conjunct2, THEN conjunct2, rule_format,
      OF conjI [OF still_regions conjI [OF sample_room this]]]
  show ?thesis .
qed

end
