(* ===== verification/Session_Types.thy ===== *)
theory Session_Types
  imports Session
begin

text \<open>
  The types of what a session holds. A \<open>scan\<close> carries its element size as a number and its values
  as 64-bit words; every scan that reaches a client has a size that is the size of an element type
  and values that fit into it, whatever scans it was narrowed from and however often it was
  refreshed.
\<close>

definition typed_scan :: "scan \<Rightarrow> bool" where
  "typed_scan sc \<longleftrightarrow> scan_valid sc \<and> elem_size sc \<in> range element_size
     \<and> (scan_mode sc = unknown_value \<or> results sc \<noteq> [])
     \<and> (\<forall>e \<in> set (results sc). unat (snapshot_value e) < 2 ^ (8 * unat (elem_size sc)))"

text \<open>An entry that has just been found has its value as its snapshot.\<close>

definition fresh_entries :: "scan \<Rightarrow> bool" where
  "fresh_entries sc \<longleftrightarrow> (\<forall>e \<in> set (results sc). snapshot_value e = entry_value e)"

lemma placed_fresh_snapshots:
  "placed sc \<Longrightarrow> fresh_entries sc \<Longrightarrow> e \<in> set (results sc) \<Longrightarrow>
   unat (snapshot_value e) < 2 ^ (8 * unat (elem_size sc))"
  by (auto simp: placed_def entries_ok_def fresh_entries_def)

lemma accepted_fresh: "e \<in> set (accepted acc es bytes) \<Longrightarrow> snapshot_value e = entry_value e"
  by (auto simp: accepted_def)

lemma overlap_hits_fresh:
  "e \<in> set (overlap_hits cmp type raw1 raw2 es r prev pr new old) \<Longrightarrow> snapshot_value e = entry_value e"
  by (auto simp: overlap_hits_def element_hits_def entry_hits_def hit_def Let_def split: if_splits)

lemma first_scan_typed:
  assumes "scan_exact api acc type (element_size et) s r sc" and "scan_valid sc" and "placed sc"
  shows "typed_scan sc"
proof -
  have "fresh_entries sc"
    using assms(1) accepted_fresh by (auto simp: scan_exact_def fresh_entries_def split: if_splits)
  with assms placed_fresh_snapshots [OF assms(3)] show ?thesis
    by (auto simp: typed_scan_def scan_exact_def split: if_splits)
qed

lemma next_scan_typed:
  assumes "next_outcome api cmp type raw1 raw2 (element_size et) s s' m sc" and "scan_valid sc" and "placed sc"
  shows "typed_scan sc"
proof -
  obtain r prev where m: "m = (r, prev)" by force
  from assms(1,2) obtain pr new old where x: "elem_size sc = element_size et" "results sc \<noteq> []"
    "results sc = overlap_hits cmp type raw1 raw2 (unat (element_size et)) r prev pr new old"
    by (auto simp: m next_outcome_def next_exact_def)
  have "fresh_entries sc" unfolding fresh_entries_def x(3) using overlap_hits_fresh by blast
  with x(1,2) assms(2) placed_fresh_snapshots [OF assms(3)] show ?thesis
    by (auto simp: typed_scan_def)
qed

lemma update_loop_snapshots:
  "update_loop api w r es xs = Inr ys \<Longrightarrow> map snapshot_value ys = map snapshot_value xs"
  by (induction xs arbitrary: ys) (auto simp: Let_def split: if_splits sum.splits)

lemma update_typed:
  assumes "update api sc s = Inr (sc', s')" and "typed_scan sc"
  shows "typed_scan sc'"
proof -
  have "map snapshot_value (results sc') = map snapshot_value (results sc)"
    and same: "scan_valid sc' = scan_valid sc" "elem_size sc' = elem_size sc" "scan_mode sc' = scan_mode sc"
    using assms(1) update_loop_snapshots
    by (auto simp: update_def split: option.splits if_splits sum.splits)
  from this(1) have "snapshot_value ` set (results sc') = snapshot_value ` set (results sc)"
    "results sc' = [] \<longleftrightarrow> results sc = []"
    by (metis list.set_map, metis map_is_Nil_conv)
  moreover have "(\<forall>v \<in> snapshot_value ` set (results sc). unat v < 2 ^ (8 * unat (elem_size sc)))"
    using assms(2) by (simp add: typed_scan_def)
  ultimately have "\<forall>v \<in> snapshot_value ` set (results sc'). unat v < 2 ^ (8 * unat (elem_size sc))" by simp
  with \<open>results sc' = [] \<longleftrightarrow> results sc = []\<close> assms(2) show ?thesis by (simp add: typed_scan_def same)
qed

lemma scan_step_typed:
  assumes "scan_step api h st st'" and "query_docs api" and "rpm_docs api" and "session_inv api st"
    and "\<forall>v \<in> set (fst st). \<forall>sc \<in> set v. typed_scan sc"
  shows "\<forall>v \<in> set (fst st'). \<forall>sc \<in> set v. typed_scan sc"
  using assms(1)
proof (cases rule: scan_step.cases)
  case (Step_first lo hi protect s rs type et raw1 raw2 ks found s' vs)
  have "scans_ok api s (concat vs)" using assms(4) Step_first(1) by (simp add: session_inv_def)
  note run = first_scan_spec [OF assms(2,3) this Step_first(3-5)]
    first_scan_session [OF assms(2,3) this Step_first(3-5)]
  from run(1) Step_first(6) obtain scs where f: "found = filter scan_valid scs" "length scs = length rs"
    and each: "\<And>k. k < length rs \<Longrightarrow> scan_valid (scs ! k) \<Longrightarrow>
         scan_exact api (\<lambda>v. make_comparator type et v raw1 raw2) type (element_size et) s' (rs ! k) (scs ! k)"
    by (auto split: if_splits)
  from run(2) Step_first(6) have pl: "\<forall>sc \<in> set found. placed sc" by auto
  have "typed_scan sc" if sc: "sc \<in> set found" for sc
  proof -
    from sc f obtain k where k: "k < length rs" "sc = scs ! k" "scan_valid sc" by (auto simp: in_set_conv_nth)
    with each pl sc show ?thesis by (intro first_scan_typed) auto
  qed
  with assms(5) Step_first(1,2) show ?thesis by auto
next
  case (Step_next k vs lo hi protect s rs type et raw2 raw1 found s')
  have "concat vs = concat (take k vs) @ vs ! k @ concat (drop (Suc k) vs)" by (rule concat_split [OF Step_next(3)])
  then have inv: "scans_ok api s (vs ! k @ (concat (drop (Suc k) vs) @ concat (take k vs)))" "\<forall>p \<in> set (vs ! k). placed p"
    using assms(4) Step_next(1,3) scans_ok_front by (auto simp: session_inv_def)
  from next_scan_spec [OF assms(2,3) inv Step_next(4-6)] Step_next(7) obtain scs where f: "found = filter scan_valid scs"
    and out: "list_all2 (next_outcome api (make_comparator type et) type raw1 raw2 (element_size et) s s') (matches rs (vs ! k)) scs"
    and pl: "\<forall>sc \<in> set scs. scan_valid sc \<longrightarrow> placed sc" by auto
  have "typed_scan sc" if sc: "sc \<in> set found" for sc
  proof -
    from sc f obtain i where i: "i < length scs" "sc = scs ! i" "scan_valid sc" by (auto simp: in_set_conv_nth)
    with out have "next_outcome api (make_comparator type et) type raw1 raw2 (element_size et) s s' (matches rs (vs ! k) ! i) sc"
      by (auto simp: list_all2_conv_all_nth)
    with pl i show ?thesis by (intro next_scan_typed) auto
  qed
  then have "\<forall>sc \<in> set found. typed_scan sc" by blast
  from in_vectors_update [of vs "\<lambda>v. \<forall>sc \<in> set v. typed_scan sc", OF _ this] assms(5) Step_next(1,2)
  show ?thesis by simp
next
  case (Step_update k vs j s sc s')
  have v: "\<forall>c \<in> set (vs ! k). typed_scan c"
    using assms(5) Step_update(1) nth_mem [OF Step_update(3)] by simp
  then have "typed_scan sc" using update_typed [OF Step_update(5)] Step_update(4) by simp
  from in_vectors_update [of vs "\<lambda>v. \<forall>sc \<in> set v. typed_scan sc", OF _ in_vectors_update [OF v this]]
    assms(5) Step_update(1,2) show ?thesis by simp
next
  case (Step_drop k vs s)
  with assms(5) in_vectors_drop [of vs "\<lambda>v. \<forall>sc \<in> set v. typed_scan sc"] show ?thesis by simp
qed

lemma session_step_typed:
  assumes "session_step api h st st'" and "query_docs api" and "rpm_docs api" and "session_inv api st"
    and "\<forall>v \<in> set (fst st). \<forall>sc \<in> set v. typed_scan sc"
  shows "\<forall>v \<in> set (fst st'). \<forall>sc \<in> set v. typed_scan sc"
  using assms(1)
proof (cases rule: session_step.cases)
  case Step_scan
  then show ?thesis using scan_step_typed assms(2-5) by blast
next
  case (Step_target s w vs)
  with assms(5) show ?thesis by simp
qed

lemma session_typed:
  assumes "session api h st" and "query_docs api" and "rpm_docs api"
  shows "\<forall>v \<in> set (fst st). \<forall>sc \<in> set v. typed_scan sc"
  using assms(1)
proof (induction rule: session.induct)
  case (Session_step st st')
  then show ?case using session_step_typed session_inv assms(2,3) by blast
qed simp

text \<open>The sample target: a session that holds one scan with one entry.\<close>

lemma still_scan_step: "\<exists>sc s. scan_step still_api 7 ([], sample_sys [sample_mbi] ucast) ([[sc]], s) \<and> results sc \<noteq> []"
proof -
  let ?acc = "\<lambda>v. make_comparator exact_value U8 v 5 None" and ?s = "sample_sys [sample_mbi] ucast"
  have al: "allocs_succeed still_api (make_comparator exact_value U8) 5 None
      ([0, 0, 0] @ finish_schedule (length [sample_region]))
      (map (\<lambda>r. Start (start_scan exact_value (element_size U8) r)) [sample_region]) ?s"
    unfolding append_Cons by (rule still_allocs_succeed)
  from first_scan_spec [OF still_docs(1,2) still_scans_ok still_regions sample_room al] obtain scs s' where
    f: "first_scan still_api [0, 0, 0] 7 (0x10000, 0x10008) 4 exact_value U8 5 None ?s = Some (Inr (filter scan_valid scs, s'))"
    and len: "length scs = length [sample_region]"
    and ex: "\<forall>k < length [sample_region]. if scan_valid (scs ! k)
         then scan_exact still_api ?acc exact_value (element_size U8) s' ([sample_region] ! k) (scs ! k)
         else scan_missing still_api ?acc exact_value (element_size U8) ([sample_region] ! k)" by blast
  have hits: "accepted ?acc 1 [0, 1, 2, 3, 4, 5, 6, 7] \<noteq> []" by code_simp
  obtain sc where sc: "scs = [sc]" using len by (auto simp: length_Suc_conv)
  have "\<not> scan_missing still_api ?acc exact_value 1 sample_region"
    using hits by (auto simp: scan_missing_def still_delivered)
  with ex sc have v: "scan_valid sc" by (auto split: if_splits)
  with ex sc have "results sc \<noteq> []" by (auto simp: scan_exact_def)
  moreover have "scan_step still_api 7 ([], ?s) ([[sc]], s')"
    using Step_first [OF still_regions sample_room al f, of "[]"] by (simp add: sc v)
  ultimately show ?thesis by blast
qed

lemma still_session_scan: "\<exists>sc s. session still_api 7 ([[sc]], s) \<and> results sc \<noteq> []"
  using still_scan_step Session_step [OF still_session_start Step_scan] by blast

subsection \<open>Properties\<close>

text \<open>
  C5: the types of a session. Every scan a client can come to hold is valid, its element size is
  that of an element type, it has an entry unless it was made for an unknown value, and for every
  entry the index denotes a whole element of the region and both the current value and the
  snapshot are values of that type, with zeros above its width.
\<close>

theorem session_scans_typed:
  assumes "session api h (vs, s)" and "query_docs api" and "rpm_docs api" and "v \<in> set vs" and "sc \<in> set v"
  shows "\<exists>et r. elem_size sc = element_size et \<and> scan_region sc = Some r \<and> scan_valid sc
    \<and> (scan_mode sc = unknown_value \<or> results sc \<noteq> [])
    \<and> (\<forall>e \<in> set (results sc). unat (element_index e) < unat (region_size r) div unat (element_size et)
         \<and> unat (entry_value e) < 2 ^ (8 * unat (element_size et))
         \<and> unat (snapshot_value e) < 2 ^ (8 * unat (element_size et)))"
proof -
  have "placed sc" using session_inv [OF assms(1-3)] assms(4,5) by (simp add: session_inv_def)
  moreover have "typed_scan sc" using session_typed [OF assms(1-3)] assms(4,5) by simp
  ultimately show ?thesis by (auto simp: placed_def typed_scan_def entries_ok_def)
qed

theorem session_scans_typed_witness:
  "\<exists>found s sc. session still_api 7 ([found], s) \<and> sc \<in> set found \<and> unat (elem_size sc) \<le> 8"
proof -
  obtain sc s where f: "session still_api 7 ([[sc]], s)" using still_session_scan by blast
  from session_scans_typed [OF f still_docs(1,2), of "[sc]" sc] obtain et where "elem_size sc = element_size et" by auto
  then have "unat (elem_size sc) \<le> 8" by (cases et) simp_all
  with f show ?thesis by fastforce
qed

end
