(* ===== verification/Session_Views.thy ===== *)
theory Session_Views
  imports Session_Types
begin

text \<open>
  The views of a session. Every operation of the scanner accounts for the views it makes: a view is
  foreign or owned by a map that a pointer refers to. In a session the foreign views are those that
  were there when the scanner was made and those that were made while the target ran.
\<close>

subsection \<open>The operations account for their views\<close>

lemma accounted_reserve:
  assumes "view_docs api" and "accounted api X s" and "reserve api r s = Inr (ok, r', s')"
  shows "accounted api X s'"
  using assms(2,3) accounted_dump [OF assms(1,2)]
  by (auto simp: reserve_def alloc_f_def split: if_splits sum.splits)

lemma accounted_fetch:
  assumes "view_docs api" and "accounted api X s" and "fetch api r s = Inr (ok, s')"
  shows "accounted api X s'"
proof -
  from assms(3) obtain p n xs bytes w where w: "s' = s\<lparr>world := store_bytes api p bytes w\<rparr>"
    "read_process_memory api (long_to_handle (process_handle r)) (region_base r) (region_size r) (world s) = ((ok, bytes), w)"
    by (auto simp: fetch_def Let_def split: list.splits prod.splits if_splits)
  have "fewer api (world s) (store_bytes api p bytes w)"
    by (rule fewer_trans [OF quiet_fewer(10) [OF assms(1) w(2)] store_bytes_fewer [OF assms(1)]])
  with assms(2) show ?thesis unfolding w(1) by (rule accounted_world)
qed

lemma accounted_read:
  assumes "view_docs api" and "accounted api X s" and "read_memory api r s = Inr (ok, r', s')"
  shows "accounted api X s'"
  using assms(3)
  by (auto simp: read_memory_def split: sum.splits if_splits
      intro: accounted_reserve [OF assms(1,2)] accounted_fetch [OF assms(1) accounted_reserve [OF assms(1,2)]])

lemma accounted_scan_destroy: "view_docs api \<Longrightarrow> accounted api X s \<Longrightarrow> accounted api X (scan_destroy api sc s)"
  by (simp add: scan_destroy_def region_destroy_def dumpable_destroy_def accounted_release_all split: option.split)

lemma accounted_clear_scans: "view_docs api \<Longrightarrow> accounted api X s \<Longrightarrow> accounted api X (clear_scans api scs s)"
  by (induction scs arbitrary: s) (simp_all add: accounted_scan_destroy)

lemma accounted_update:
  assumes "view_docs api" and "accounted api X s" and "update api sc s = Inr (sc', s')"
  shows "accounted api X s'"
  using assms(2,3) accounted_read [OF assms(1,2)]
  by (auto simp: update_def split: option.splits if_splits sum.splits)

lemma accounted_job_step:
  assumes "view_docs api" and "accounted api X s" and "job_step api cmp raw1 raw2 j s = Inr (j', s')"
  shows "accounted api X s'"
  using assms(3)
proof (cases j)
  case (Start sc)
  with assms(3) accounted_reserve [OF assms(1,2)] show ?thesis
    by (auto simp: Let_def split: option.splits sum.splits if_splits)
next
  case (Reserved sc)
  with assms(3) accounted_fetch [OF assms(1,2)] show ?thesis
    by (auto split: option.splits sum.splits if_splits)
qed (use assms(2) in auto)

lemma accounted_run_jobs:
  assumes "view_docs api" and "accounted api X s" and "run_jobs api cmp raw1 raw2 ks jobs s = Inr (jobs', s')"
  shows "accounted api X s'"
  using assms(2,3)
proof (induction ks arbitrary: jobs s)
  case (Cons k ks)
  from Cons.prems(2) show ?case
    by (auto split: if_splits sum.splits
        intro: Cons.IH [OF Cons.prems(1)] Cons.IH [OF accounted_job_step [OF assms(1) Cons.prems(1)]])
qed simp

lemma accounted_collect:
  "view_docs api \<Longrightarrow> accounted api X s \<Longrightarrow> accounted api X (snd (collect api scs found s))"
  by (induction scs arbitrary: found s) (simp_all add: accounted_scan_destroy)

lemma accounted_first_scan:
  assumes "view_docs api" and "accounted api X s"
    and "first_scan api ks h rng protect type et raw1 raw2 s = Some (Inr (found, s'))"
  shows "accounted api X s'"
proof -
  from assms(3) obtain jobs jobs1 s1 f where r: "run_jobs api (make_comparator type et) raw1 raw2
      (ks @ finish_schedule (length jobs)) jobs s = Inr (jobs1, s1)" and c: "collect api (map job_scan jobs1) [] s1 = (f, s')"
    by (auto simp: first_scan_def Let_def split: option.splits sum.splits prod.splits)
  from accounted_collect [OF assms(1) accounted_run_jobs [OF assms(1,2) r], of "map job_scan jobs1" "[]"] c
  show ?thesis by simp
qed

lemma accounted_scan_overlap:
  assumes "view_docs api" and "accounted api X s"
    and "scan_overlap api cmp type es raw2 r prev pr raw1 s = Some (Inr (scs, raw1', s'))"
  shows "accounted api X s'"
  using assms(3) accounted_read [OF assms(1,2)] accounted_scan_destroy [OF assms(1)]
  by (auto simp: scan_overlap_def Let_def split: sum.splits option.splits if_splits)

lemma accounted_next_loop:
  "view_docs api \<Longrightarrow> accounted api X s \<Longrightarrow>
   next_loop api cmp type es raw2 rs prevs raw1 found s = Some (Inr (found', s')) \<Longrightarrow> accounted api X s'"
proof (induction api cmp type es raw2 rs prevs raw1 found s rule: next_loop.induct)
  case (3 api cmp type es raw2 r rs prev prevs raw1 found s)
  note acc = accounted_scan_overlap [OF 3(4,5)]
  from 3(6) show ?case
    by (auto split: option.splits if_splits sum.splits dest: acc intro: 3(1) [OF _ _ 3(4,5)] 3(2) [OF _ _ _ 3(4,5)] 3(3) 3(4))
qed simp_all

lemma accounted_next_scan:
  assumes "view_docs api" and "accounted api X s"
    and "next_scan api h rng protect type et prevs raw1 raw2 s = Some (Inr (found, s'))"
  shows "accounted api X s'"
  using assms(3) accounted_next_loop [OF assms(1,2)] accounted_clear_scans [OF assms(1)]
  by (auto simp: next_scan_def split: option.splits sum.splits)

lemma accounted_scan_step:
  assumes "scan_step api h st st'" and "view_docs api" and "accounted api X (snd st)"
  shows "accounted api X (snd st')"
  using assms(1,3)
proof (cases rule: scan_step.cases)
  case Step_first
  with assms(3) accounted_first_scan [OF assms(2)] show ?thesis by auto
next
  case Step_next
  with assms(3) accounted_next_scan [OF assms(2)] show ?thesis by auto
next
  case Step_update
  with assms(3) accounted_update [OF assms(2)] show ?thesis by auto
next
  case Step_drop
  with assms(3) accounted_clear_scans [OF assms(2)] show ?thesis by auto
qed

subsection \<open>Sessions with their foreign views\<close>

text \<open>
  A session that begins with the constructor of the scanner, with the set of the bases of the
  foreign views: the views that were there at the beginning and, after every run of the target,
  the views that were made meanwhile.
\<close>

inductive view_session :: "'w win32 \<Rightarrow> u32 \<Rightarrow> u64 set \<Rightarrow> scan list list \<times> 'w sys \<Rightarrow> bool" for api h where
  View_start: "dump_inv api (s, no_refs) \<Longrightarrow> heap s = [] \<Longrightarrow> view_session api h (bases api (world s)) ([], s)"
| View_scan: "view_session api h X st \<Longrightarrow> scan_step api h st st' \<Longrightarrow> view_session api h X st'"
| View_target: "view_session api h X (vs, s) \<Longrightarrow> keeps api (world s) w \<Longrightarrow>
    view_session api h (X \<union> (bases api w - bases api (world s))) (vs, s\<lparr>world := w\<rparr>)"

lemma view_session_session: "view_session api h X st \<Longrightarrow> session api h st"
proof (induction rule: view_session.induct)
  case (View_start s)
  then show ?case by (intro Session_start)
next
  case (View_scan X st st')
  then show ?case by (blast intro: Session_step Step_scan)
next
  case (View_target X vs s w)
  then show ?case by (blast intro: Session_step Step_target)
qed

lemma view_session_accounted:
  assumes "view_session api h X st" and "view_docs api"
  shows "accounted api X (snd st)"
  using assms(1)
proof (induction rule: view_session.induct)
  case (View_start s)
  then show ?case by (simp add: accounted_def traced_def)
next
  case (View_scan X st st')
  then show ?case using accounted_scan_step assms(2) by blast
next
  case (View_target X vs s w)
  then have "accounted api (X \<union> (bases api w - bases api (world s))) (s\<lparr>world := w\<rparr>)"
    by (auto simp: accounted_def traced_def starts_def map_at_def alive_def use_count_def)
  then show ?case by simp
qed

text \<open>Each counted pointer is that of a copy.\<close>

lemma scan_uses_holder:
  assumes "0 < scan_uses scs i" and "\<forall>sc \<in> set scs. copied sc"
  shows "\<exists>sc \<in> set scs. \<exists>r. scan_region sc = Some r \<and> i \<in> set (map_set (region_buf r))"
proof -
  from assms(1) obtain sc where sc: "sc \<in> set scs" "range_uses (scan_range sc) i \<noteq> 0"
  proof -
    have "\<exists>sc \<in> set scs. range_uses (scan_range sc) i \<noteq> 0"
      using assms(1) by (induction scs) (auto simp: scan_uses_def no_refs_def)
    then show thesis using that by blast
  qed
  from sc(1) assms(2) obtain r where "scan_region sc = Some r" "region_ok r" "mem_reserved r"
    by (auto simp: copied_def)
  with sc show ?thesis
    by (intro bexI [of _ sc] exI [of _ r])
      (auto simp: range_uses_def scan_range_def region_range_def region_ok_def split: if_splits)
qed

subsection \<open>Properties\<close>

text \<open>
  C10: nothing leaks in a session. Every view that exists in the process is foreign or the view of
  a live map of the dump file, and every live map is the one the dump file itself points to or is
  referred to by the copy of a scan that the client holds. So once the client holds no scan, the
  views of at most one map are left of all that the scans have mapped.
\<close>

theorem session_no_leak:
  assumes "view_session api h X (vs, s)" and "query_docs api" and "rpm_docs api" and "view_docs api"
  shows "(\<forall>a b p. view_of api (world s) a = Some (b, p) \<longrightarrow> b \<in> X \<or> (\<exists>i. alive s i \<and> b = get_mapping_start (map_at s i)))
    \<and> (\<forall>i. alive s i \<longrightarrow> current_map (dump_file s) = Some i
         \<or> (\<exists>sc \<in> set (concat vs). \<exists>r. scan_region sc = Some r \<and> i \<in> set (map_set (region_buf r))))"
proof -
  have "traced api X s" using view_session_accounted [OF assms(1,4)] by (simp add: accounted_def)
  then have "\<forall>a b p. view_of api (world s) a = Some (b, p) \<longrightarrow> b \<in> X \<or> (\<exists>i. alive s i \<and> b = get_mapping_start (map_at s i))"
    unfolding traced_def bases_def starts_def by blast
  moreover have ok: "scans_ok api s (concat vs)"
    using session_inv [OF view_session_session [OF assms(1)] assms(2,3)] by (simp add: session_inv_def)
  have "refs_ok (scan_uses (concat vs)) s"
    using ok by (simp add: scans_ok_def dump.holds_def dump_inv_def store_inv_def)
  then have holder: "current_map (dump_file s) = Some i \<or> 0 < scan_uses (concat vs) i" if "alive s i" for i
    using that by (auto simp: refs_ok_def alive_def split: if_splits)
  have "current_map (dump_file s) = Some i
      \<or> (\<exists>sc \<in> set (concat vs). \<exists>r. scan_region sc = Some r \<and> i \<in> set (map_set (region_buf r)))" if "alive s i" for i
    using holder [OF that]
  proof (elim disjE)
    assume "0 < scan_uses (concat vs) i"
    then show ?thesis by (intro disjI2 scan_uses_holder) (use ok in \<open>auto simp: scans_ok_def\<close>)
  qed simp
  ultimately show ?thesis by simp
qed

text \<open>
  On the sample platform: a session with one scan, with a view for its copy, and the session
  after the scan is dropped, with no view but that of the current map.
\<close>

theorem session_no_leak_witness:
  "\<exists>sc s. view_session still_api 7 {} ([[sc]], s) \<and> (\<exists>a. view_of still_api (world s) a \<noteq> None)
    \<and> (\<forall>a b p. view_of still_api (world (clear_scans still_api [sc] s)) a = Some (b, p) \<longrightarrow>
        (\<exists>i. current_map (dump_file (clear_scans still_api [sc] s)) = Some i
          \<and> b = get_mapping_start (map_at (clear_scans still_api [sc] s) i)))"
proof -
  let ?s = "sample_sys [sample_mbi] ucast"
  obtain sc s where st: "scan_step still_api 7 ([], ?s) ([[sc]], s)" using still_scan_step by blast
  have "bases still_api (world ?s) = {}" "heap ?s = []"
    by (simp_all add: bases_def still_api_fields sample_api_def sample_write_defs del: sample_api_fields)
  then have start: "view_session still_api 7 {} ([], ?s)" using View_start [OF still_dump_inv, of "[sample_mbi]" ucast 7] by simp
  note one = View_scan [OF start st]
  have "scan_step still_api 7 ([[sc]], s) ([], clear_scans still_api [sc] s)"
    using Step_drop [of 0 "[[sc]]" still_api 7 s] by simp
  note none = session_no_leak [OF View_scan [OF one this] still_docs(1,2) still_view_docs]
  have ok: "scans_ok still_api s [sc]"
    using session_inv [OF view_session_session [OF one] still_docs(1,2)] by (simp add: session_inv_def)
  then obtain r i where "scan_region sc = Some r" "mem_reserved r" "map_set (region_buf r) = [i]"
    by (auto simp: scans_ok_def copied_def region_ok_def)
  then have "0 < scan_uses [sc] i" by (simp add: scan_uses_def range_uses_def scan_range_def region_range_def)
  moreover have "dump_inv still_api (s, scan_uses [sc])" using ok by (rule scans_ok_inv)
  ultimately have "\<exists>a. view_of still_api (world s) a \<noteq> None"
    by (intro alive_has_view [of still_api s i] refs_ok_alive [of "scan_uses [sc]"]) (simp_all add: dump_inv_def store_inv_def)
  with one none show ?thesis by (intro exI [of _ sc] exI [of _ s]) fastforce
qed

end
