(* ===== verification/Thread_Pool.thy ===== *)
theory Thread_Pool
  imports Prelude
begin

text \<open>
  The class \<open>thread_pool\<close> (\<open>thread_pool.hpp\<close>) as a step relation. A step is one critical section of
  the queue mutex, one notification, one wake-up, or the end of a task; they interleave freely.
  The tasks are numbered in the order of the calls of \<open>enqueue\<close>; what a task does is not part of
  the pool. Also the class template \<open>singleton\<close> (\<open>singleton.hpp\<close>).
\<close>

text \<open>
  A worker at the top of its loop, about to look at the queue under the mutex (\<open>Checking\<close>),
  waiting on the condition variable, running a task, or returned.
\<close>

datatype worker = Checking | Sleeping | Running nat | Exited

text \<open>
  \<open>notify_pending\<close> and \<open>notify_all_pending\<close> are notifications that a caller has still to send after
  it left its critical section. \<open>taken\<close> and \<open>finished\<close> are histories, \<open>dropped\<close> the calls of
  \<open>enqueue\<close> that found the pool stopped; no step looks at them.
\<close>

record pool =
  workers :: "worker list"
  tasks :: "nat list"
  stop :: bool
  notify_pending :: nat
  notify_all_pending :: bool
  next_ticket :: nat
  taken :: "nat list"
  finished :: "nat list"
  dropped :: "nat list"

definition new_pool :: "nat \<Rightarrow> pool" where
  "new_pool num_threads =
     \<lparr>workers = replicate num_threads Checking, tasks = [], stop = False, notify_pending = 0,
      notify_all_pending = False, next_ticket = 0, taken = [], finished = [], dropped = []\<rparr>"

datatype pool_event =
    Enqueue
  | Notify_one "nat option"
  | Check nat
  | Wake nat
  | Finish nat
  | Stop
  | Notify_all

definition enqueue :: "pool \<Rightarrow> pool" where
  "enqueue p =
     (if stop p then p\<lparr>dropped := dropped p @ [next_ticket p], next_ticket := Suc (next_ticket p)\<rparr>
      else p\<lparr>tasks := tasks p @ [next_ticket p], next_ticket := Suc (next_ticket p),
             notify_pending := Suc (notify_pending p)\<rparr>)"

text \<open>
  The body of a worker's loop up to the end of the critical section: wait until the pool stops or
  has a task, then return, or take the first task.
\<close>

definition check_queue :: "nat \<Rightarrow> pool \<Rightarrow> pool" where
  "check_queue k p =
     (if \<not> (stop p \<or> tasks p \<noteq> []) then p\<lparr>workers := (workers p)[k := Sleeping]\<rparr>
      else if stop p \<and> tasks p = [] then p\<lparr>workers := (workers p)[k := Exited]\<rparr>
      else p\<lparr>workers := (workers p)[k := Running (hd (tasks p))], tasks := tl (tasks p),
             taken := taken p @ [hd (tasks p)]\<rparr>)"

definition wake :: "nat \<Rightarrow> pool \<Rightarrow> pool" where
  "wake k p = p\<lparr>workers := (workers p)[k := Checking]\<rparr>"

definition wake_all :: "pool \<Rightarrow> pool" where
  "wake_all p = p\<lparr>workers := map (\<lambda>w. if w = Sleeping then Checking else w) (workers p)\<rparr>"

inductive pool_step :: "pool \<Rightarrow> pool_event \<Rightarrow> pool \<Rightarrow> bool" where
  Step_enqueue: "pool_step p Enqueue (enqueue p)"
| Step_notify: "0 < notify_pending p \<Longrightarrow> k < length (workers p) \<Longrightarrow> workers p ! k = Sleeping \<Longrightarrow>
    pool_step p (Notify_one (Some k)) (wake k (p\<lparr>notify_pending := notify_pending p - 1\<rparr>))"
| Step_notify_nobody: "0 < notify_pending p \<Longrightarrow> Sleeping \<notin> set (workers p) \<Longrightarrow>
    pool_step p (Notify_one None) (p\<lparr>notify_pending := notify_pending p - 1\<rparr>)"
| Step_check: "k < length (workers p) \<Longrightarrow> workers p ! k = Checking \<Longrightarrow> pool_step p (Check k) (check_queue k p)"
| Step_wake: "k < length (workers p) \<Longrightarrow> workers p ! k = Sleeping \<Longrightarrow> pool_step p (Wake k) (wake k p)"
| Step_finish: "k < length (workers p) \<Longrightarrow> workers p ! k = Running t \<Longrightarrow>
    pool_step p (Finish k) (wake k (p\<lparr>finished := finished p @ [t]\<rparr>))"
| Step_stop: "\<not> stop p \<Longrightarrow> pool_step p Stop (p\<lparr>stop := True, notify_all_pending := True\<rparr>)"
| Step_notify_all: "notify_all_pending p \<Longrightarrow>
    pool_step p Notify_all (wake_all (p\<lparr>notify_all_pending := False\<rparr>))"

inductive_cases pool_stepE: "pool_step p ev p'"

inductive_simps pool_step_simps [simp]:
  "pool_step p Enqueue p'" "pool_step p (Check k) p'" "pool_step p (Finish k) p'"
  "pool_step p Stop p'" "pool_step p Notify_all p'" "pool_step p (Wake k) p'" "pool_step p (Notify_one w) p'"

inductive pool_run :: "pool \<Rightarrow> pool_event list \<Rightarrow> pool \<Rightarrow> bool" where
  Run_nil: "pool_run p [] p"
| Run_cons: "pool_step p ev p1 \<Longrightarrow> pool_run p1 evs p2 \<Longrightarrow> pool_run p (ev # evs) p2"

inductive_simps pool_run_simps [simp]: "pool_run p [] p'" "pool_run p (ev # evs) p'"

text \<open>\<open>future::get\<close>: None while the task has not run.\<close>

definition future_get :: "pool \<Rightarrow> nat \<Rightarrow> unit res option" where
  "future_get p t =
     (if t \<in> set (finished p) then Some (Inr ())
      else if t \<in> set (dropped p) then Some (Inl Broken_promise) else None)"

text \<open>The destructor returns once every worker has been joined.\<close>

definition joined :: "pool \<Rightarrow> bool" where
  "joined p \<longleftrightarrow> stop p \<and> \<not> notify_all_pending p \<and> (\<forall>w \<in> set (workers p). w = Exited)"

subsection \<open>Invariant\<close>

definition running :: "pool \<Rightarrow> nat list" where
  "running p = concat (map (\<lambda>w. case w of Running t \<Rightarrow> [t] | _ \<Rightarrow> []) (workers p))"

definition tickets_ok :: "pool \<Rightarrow> bool" where
  "tickets_ok p \<longleftrightarrow> sorted_wrt (<) (taken p @ tasks p)
     \<and> set (taken p @ tasks p) \<inter> set (dropped p) = {}
     \<and> set (taken p @ tasks p) \<union> set (dropped p) = {..<next_ticket p}
     \<and> mset (taken p) = mset (running p) + mset (finished p)"

text \<open>
  Nobody sleeps through work: a worker goes to sleep only on an empty queue of a pool that has
  not stopped, and a task that is queued while everybody sleeps has its notification to come.
\<close>

definition wakeups_ok :: "pool \<Rightarrow> bool" where
  "wakeups_ok p \<longleftrightarrow>
     (\<forall>w \<in> set (workers p). w = Exited \<longrightarrow> stop p \<and> tasks p = [])
   \<and> (stop p \<longrightarrow> notify_all_pending p \<or> Sleeping \<notin> set (workers p))
   \<and> (tasks p \<noteq> [] \<longrightarrow> 0 < notify_pending p \<or> notify_all_pending p \<or> (\<exists>w \<in> set (workers p). w \<noteq> Sleeping))
   \<and> (notify_all_pending p \<longrightarrow> stop p) \<and> workers p \<noteq> []"

definition pool_inv :: "pool \<Rightarrow> bool" where
  "pool_inv p \<longleftrightarrow> tickets_ok p \<and> wakeups_ok p"

lemma new_pool_inv: "0 < n \<Longrightarrow> pool_inv (new_pool n)"
  by (auto simp: pool_inv_def tickets_ok_def wakeups_ok_def new_pool_def running_def)

lemma running_update:
  assumes "k < length (workers p)"
  shows "mset (running (p\<lparr>workers := (workers p)[k := w]\<rparr>)) + mset (case workers p ! k of Running t \<Rightarrow> [t] | _ \<Rightarrow> [])
    = mset (running p) + mset (case w of Running t \<Rightarrow> [t] | _ \<Rightarrow> [])"
  using id_take_nth_drop [OF assms] upd_conv_take_nth_drop [OF assms, of w]
proof -
  define f where "f = (\<lambda>w. case w of Running t \<Rightarrow> [t] | _ \<Rightarrow> ([] :: nat list))"
  have "concat (map f (workers p)) = concat (map f (take k (workers p))) @ f (workers p ! k)
      @ concat (map f (drop (Suc k) (workers p)))"
    by (subst id_take_nth_drop [OF assms]) simp
  moreover have "concat (map f ((workers p)[k := w])) = concat (map f (take k (workers p))) @ f w
      @ concat (map f (drop (Suc k) (workers p)))"
    by (simp add: upd_conv_take_nth_drop [OF assms])
  ultimately show ?thesis unfolding running_def f_def [symmetric] by simp
qed

lemma running_frame [simp]:
  "running (p\<lparr>tasks := x\<rparr>) = running p" "running (p\<lparr>taken := x\<rparr>) = running p"
  "running (p\<lparr>finished := x\<rparr>) = running p" "running (p\<lparr>dropped := x\<rparr>) = running p"
  "running (p\<lparr>next_ticket := n\<rparr>) = running p" "running (p\<lparr>notify_pending := n\<rparr>) = running p"
  "running (p\<lparr>stop := b\<rparr>) = running p" "running (p\<lparr>notify_all_pending := b\<rparr>) = running p"
  by (simp_all add: running_def)

lemma running_wake_all [simp]: "running (wake_all p) = running p"
proof -
  have "(\<lambda>w. case w of Running t \<Rightarrow> [t] | _ \<Rightarrow> []) \<circ> (\<lambda>w. if w = Sleeping then Checking else w)
      = (\<lambda>w. case w of Running t \<Rightarrow> [t] | _ \<Rightarrow> ([] :: nat list))"
    by (auto simp: fun_eq_iff split: worker.splits)
  then show ?thesis by (simp add: running_def wake_all_def)
qed


subsection \<open>Preservation\<close>

lemma wake_simps [simp]:
  "tasks (wake k p) = tasks p" "stop (wake k p) = stop p" "notify_pending (wake k p) = notify_pending p"
  "notify_all_pending (wake k p) = notify_all_pending p" "next_ticket (wake k p) = next_ticket p"
  "taken (wake k p) = taken p" "finished (wake k p) = finished p" "dropped (wake k p) = dropped p"
  "workers (wake k p) = (workers p)[k := Checking]"
  by (simp_all add: wake_def)

lemma wake_all_simps [simp]:
  "tasks (wake_all p) = tasks p" "stop (wake_all p) = stop p" "notify_pending (wake_all p) = notify_pending p"
  "notify_all_pending (wake_all p) = notify_all_pending p" "next_ticket (wake_all p) = next_ticket p"
  "taken (wake_all p) = taken p" "finished (wake_all p) = finished p" "dropped (wake_all p) = dropped p"
  "workers (wake_all p) = map (\<lambda>w. if w = Sleeping then Checking else w) (workers p)"
  by (simp_all add: wake_all_def)

lemma running_wake:
  "k < length (workers p) \<Longrightarrow>
   mset (running (wake k p)) + mset (case workers p ! k of Running t \<Rightarrow> [t] | _ \<Rightarrow> []) = mset (running p)"
  using running_update [of k p Checking] by (simp add: wake_def)

lemma sorted_wrt_less_snoc: "sorted_wrt (<) xs \<Longrightarrow> (\<And>x. x \<in> set xs \<Longrightarrow> x < n) \<Longrightarrow> sorted_wrt (<) (xs @ [n :: nat])"
  by (simp add: sorted_wrt_append)

lemma tickets_enqueue:
  assumes "tickets_ok p"
  shows "tickets_ok (enqueue p)"
proof -
  have b: "x < next_ticket p" if "x \<in> set (taken p @ tasks p) \<or> x \<in> set (dropped p)" for x
    using assms that by (auto simp: tickets_ok_def)
  show ?thesis
  proof (cases "stop p")
    case True
    with assms b show ?thesis by (auto simp: tickets_ok_def enqueue_def lessThan_Suc)
  next
    case False
    have "sorted_wrt (<) ((taken p @ tasks p) @ [next_ticket p])"
      using assms b by (intro sorted_wrt_less_snoc) (auto simp: tickets_ok_def)
    with False assms b show ?thesis by (auto simp: tickets_ok_def enqueue_def lessThan_Suc)
  qed
qed

lemma tickets_check:
  assumes "tickets_ok p" and "k < length (workers p)" and "workers p ! k = Checking"
  shows "tickets_ok (check_queue k p)"
proof (cases "tasks p")
  case Nil
  then show ?thesis
    using assms running_update [OF assms(2), of Sleeping] running_update [OF assms(2), of Exited]
    by (simp add: tickets_ok_def check_queue_def)
next
  case (Cons t ts)
  then show ?thesis
    using assms running_update [OF assms(2), of "Running t"]
    by (auto simp: tickets_ok_def check_queue_def)
qed

lemma tickets_wake:
  assumes "tickets_ok p" and "k < length (workers p)" and "workers p ! k = Sleeping"
  shows "tickets_ok (wake k p)"
  using assms running_wake [OF assms(2)] by (simp add: tickets_ok_def)

lemma tickets_finish:
  assumes "tickets_ok p" and "k < length (workers p)" and "workers p ! k = Running t"
  shows "tickets_ok (wake k (p\<lparr>finished := finished p @ [t]\<rparr>))"
  using assms running_wake [of k "p\<lparr>finished := finished p @ [t]\<rparr>"] by (simp add: tickets_ok_def)

lemma tickets_frame [simp]:
  "tickets_ok (p\<lparr>notify_pending := n\<rparr>) = tickets_ok p" "tickets_ok (p\<lparr>stop := b\<rparr>) = tickets_ok p"
  "tickets_ok (p\<lparr>notify_all_pending := c\<rparr>) = tickets_ok p" "tickets_ok (wake_all p) = tickets_ok p"
  by (simp_all add: tickets_ok_def)

lemma tickets_step: "pool_step p ev p' \<Longrightarrow> tickets_ok p \<Longrightarrow> tickets_ok p'"
  by (induction rule: pool_step.induct)
    (simp_all add: tickets_enqueue tickets_check tickets_wake tickets_finish)

lemma wakeups_step:
  assumes "pool_step p ev p'" and "wakeups_ok p"
  shows "wakeups_ok p'"
  using assms
proof (induction rule: pool_step.induct)
  case (Step_enqueue p)
  then show ?case by (auto simp: wakeups_ok_def enqueue_def)
next
  case (Step_notify p k)
  then show ?case
    by (auto simp: wakeups_ok_def set_update_memI dest!: set_update_subset_insert [THEN subsetD])
next
  case (Step_notify_nobody p)
  then obtain w ws where "workers p = w # ws" "w \<noteq> Sleeping" by (cases "workers p") (auto simp: wakeups_ok_def)
  with Step_notify_nobody show ?case by (auto simp: wakeups_ok_def)
next
  case (Step_check k p)
  show ?case
  proof (cases "tasks p = []")
    case True
    with Step_check show ?thesis
      by (auto simp: wakeups_ok_def check_queue_def dest!: set_update_subset_insert [THEN subsetD])
  next
    case False
    with Step_check have "Exited \<notin> set (workers p)" by (auto simp: wakeups_ok_def)
    moreover from Step_check(1) have "\<exists>w \<in> set ((workers p)[k := Running (hd (tasks p))]). w \<noteq> Sleeping"
      by (intro bexI [OF _ set_update_memI]) simp_all
    ultimately show ?thesis using False Step_check
      by (auto simp: wakeups_ok_def check_queue_def dest!: set_update_subset_insert [THEN subsetD])
  qed
next
  case (Step_wake k p)
  then show ?case
    by (auto simp: wakeups_ok_def set_update_memI dest!: set_update_subset_insert [THEN subsetD])
next
  case (Step_finish k p t)
  then show ?case
    by (auto simp: wakeups_ok_def set_update_memI dest!: set_update_subset_insert [THEN subsetD])
next
  case (Step_stop p)
  then show ?case by (auto simp: wakeups_ok_def)
next
  case (Step_notify_all p)
  then obtain w ws where "workers p = w # ws" by (cases "workers p") (auto simp: wakeups_ok_def)
  with Step_notify_all show ?case by (auto simp: wakeups_ok_def)
qed

lemma pool_inv_step: "pool_step p ev p' \<Longrightarrow> pool_inv p \<Longrightarrow> pool_inv p'"
  by (simp add: pool_inv_def tickets_step wakeups_step)

lemma pool_inv_run: "pool_run p evs p' \<Longrightarrow> pool_inv p \<Longrightarrow> pool_inv p'"
  by (induction rule: pool_run.induct) (auto dest: pool_inv_step)

lemma pool_run_append: "pool_run p xs p1 \<Longrightarrow> pool_run p1 ys p2 \<Longrightarrow> pool_run p (xs @ ys) p2"
  by (induction rule: pool_run.induct) (auto intro: Run_cons)

text \<open>Steps that need no caller: everything but new calls of \<open>enqueue\<close> and the destructor's start.\<close>

fun internal :: "pool_event \<Rightarrow> bool" where
  "internal Enqueue = False"
| "internal Stop = False"
| "internal _ = True"

lemma pool_progress:
  assumes "pool_inv p" and "tasks p \<noteq> [] \<or> running p \<noteq> [] \<or> (stop p \<and> \<not> joined p)"
  shows "\<exists>ev p'. internal ev \<and> (\<forall>k. ev \<noteq> Wake k) \<and> pool_step p ev p'"
proof (cases "\<exists>k < length (workers p). workers p ! k \<noteq> Sleeping \<and> workers p ! k \<noteq> Exited")
  case True
  then obtain k where k: "k < length (workers p)" "workers p ! k \<noteq> Sleeping" "workers p ! k \<noteq> Exited" by blast
  show ?thesis
  proof (cases "workers p ! k")
    case Checking
    with k(1) have "pool_step p (Check k) (check_queue k p)" by simp
    then show ?thesis by (intro exI [of _ "Check k"]) auto
  next
    case (Running t)
    with k(1) have "pool_step p (Finish k) (wake k (p\<lparr>finished := finished p @ [t]\<rparr>))" by auto
    then show ?thesis by (intro exI [of _ "Finish k"]) auto
  qed (use k in simp_all)
next
  case False
  then have idle: "w = Sleeping \<or> w = Exited" if "w \<in> set (workers p)" for w
    using that by (metis in_set_conv_nth)
  then have "(case w of Running t \<Rightarrow> [t] | _ \<Rightarrow> []) = ([] :: nat list)" if "w \<in> set (workers p)" for w
    using that by fastforce
  then have "running p = []" by (simp add: running_def)
  have w: "wakeups_ok p" using assms(1) by (simp add: pool_inv_def)
  show ?thesis
  proof (cases "notify_all_pending p")
    case True
    then show ?thesis by (intro exI [of _ Notify_all]) auto
  next
    case na: False
    have "\<not> (stop p \<and> \<not> joined p)" using w na idle by (auto simp: wakeups_ok_def joined_def)
    with assms(2) \<open>running p = []\<close> have "tasks p \<noteq> []" by simp
    with w idle have "Exited \<notin> set (workers p)" by (auto simp: wakeups_ok_def)
    with idle have "\<forall>w \<in> set (workers p). w = Sleeping" by blast
    with w na \<open>tasks p \<noteq> []\<close> have "0 < notify_pending p" and "workers p \<noteq> []" by (auto simp: wakeups_ok_def)
    moreover from this(2) \<open>\<forall>w \<in> set (workers p). w = Sleeping\<close> have "workers p ! 0 = Sleeping"
      by (simp add: neq_Nil_conv)
    ultimately show ?thesis by (intro exI [of _ "Notify_one (Some 0)"]) auto
  qed
qed

subsection \<open>Termination of the destructor\<close>

text \<open>
  After \<open>stop\<close> every step, wake-ups out of the blue included, brings the pool nearer to its end.
\<close>

fun worker_weight :: "worker \<Rightarrow> nat" where
  "worker_weight Exited = 0"
| "worker_weight Checking = 1"
| "worker_weight Sleeping = 2"
| "worker_weight (Running _) = 2"

definition pool_weight :: "pool \<Rightarrow> nat" where
  "pool_weight p = 2 * length (tasks p) + sum_list (map worker_weight (workers p)) + notify_pending p
     + (if notify_all_pending p then 1 else 0)"

lemma weight_wake_all:
  "sum_list (map worker_weight (map (\<lambda>w. if w = Sleeping then Checking else w) ws)) \<le> sum_list (map worker_weight ws)"
  by (induction ws) auto

lemma weight_step:
  assumes "pool_step p ev p'" and "stop p" and "ev \<noteq> Enqueue"
  shows "pool_weight p' < pool_weight p \<and> stop p'"
  using assms
proof (induction rule: pool_step.induct)
  case (Step_notify p k)
  then show ?case using sum_list_map_update [of k "workers p" worker_weight Checking] by (simp add: pool_weight_def)
next
  case (Step_check k p)
  then show ?case
    using sum_list_map_update [of k "workers p" worker_weight Exited]
      sum_list_map_update [of k "workers p" worker_weight "Running (hd (tasks p))"]
    by (cases "tasks p") (simp_all add: pool_weight_def check_queue_def)
next
  case (Step_wake k p)
  then show ?case using sum_list_map_update [of k "workers p" worker_weight Checking] by (simp add: pool_weight_def)
next
  case (Step_finish k p t)
  then show ?case using sum_list_map_update [of k "workers p" worker_weight Checking] by (simp add: pool_weight_def)
next
  case (Step_notify_all p)
  then show ?case using weight_wake_all [of "workers p"] by (simp add: pool_weight_def)
qed (simp_all add: pool_weight_def)

lemma weight_run:
  "pool_run p evs p' \<Longrightarrow> stop p \<Longrightarrow> Enqueue \<notin> set evs \<Longrightarrow> pool_weight p' + length evs \<le> pool_weight p \<and> stop p'"
proof (induction rule: pool_run.induct)
  case (Run_cons p ev p1 evs p2)
  then have "pool_weight p1 < pool_weight p \<and> stop p1" by (intro weight_step) auto
  with Run_cons show ?case by auto
qed simp

subsection \<open>Singleton\<close>

text \<open>
  \<open>singleton::get_instance\<close>: the function-local static is constructed by the first call and found
  by the later ones.
\<close>

definition get_instance :: "('s \<Rightarrow> 'a \<times> 's) \<Rightarrow> 'a option \<times> 's \<Rightarrow> 'a \<times> 'a option \<times> 's" where
  "get_instance construct st =
     (case fst st of
        Some x \<Rightarrow> (x, st)
      | None \<Rightarrow> let (x, s) = construct (snd st) in (x, Some x, s))"

subsection \<open>Properties\<close>

text \<open>
  C19: first in, first out, and each task once. In every state a pool can reach, the tasks taken
  from the queue followed by the waiting ones are the accepted calls of \<open>enqueue\<close> in call order,
  each once; a call made after the stop is in neither; and a taken task is running or finished,
  in exactly one worker.
\<close>

theorem pool_runs_each_task_once:
  assumes "0 < n" and "pool_run (new_pool n) evs p"
  shows "sorted_wrt (<) (taken p @ tasks p)
    \<and> set (taken p @ tasks p) \<union> set (dropped p) = {..<next_ticket p}
    \<and> set (taken p @ tasks p) \<inter> set (dropped p) = {}
    \<and> mset (taken p) = mset (running p) + mset (finished p)"
  using pool_inv_run [OF assms(2) new_pool_inv [OF assms(1)]]
  by (simp add: pool_inv_def tickets_ok_def)

text \<open>Two tasks for one worker: the second is queued while the first runs.\<close>

lemma sample_pool_run:
  "pool_run (new_pool 1) [Enqueue, Check 0, Enqueue]
     (enqueue (check_queue 0 (enqueue (new_pool 1))))"
  by (simp add: enqueue_def check_queue_def new_pool_def)

theorem pool_runs_each_task_once_witness:
  "sorted_wrt (<) (taken (enqueue (check_queue 0 (enqueue (new_pool 1)))) @ tasks (enqueue (check_queue 0 (enqueue (new_pool 1)))))"
  using pool_runs_each_task_once [OF _ sample_pool_run] by simp

text \<open>
  C28: no lost wake-up and no deadlock. In every state a pool can reach, if a task is waiting or
  running, or the destructor is waiting for its workers, some step of the pool itself can
  happen, without a spurious wake-up.
\<close>

theorem pool_never_stuck:
  assumes "0 < n" and "pool_run (new_pool n) evs p"
    and "tasks p \<noteq> [] \<or> running p \<noteq> [] \<or> (stop p \<and> \<not> joined p)"
  shows "\<exists>ev p'. internal ev \<and> (\<forall>k. ev \<noteq> Wake k) \<and> pool_step p ev p'"
  by (rule pool_progress [OF pool_inv_run [OF assms(2) new_pool_inv [OF assms(1)]] assms(3)])

theorem pool_never_stuck_witness:
  "\<exists>ev p'. internal ev \<and> (\<forall>k. ev \<noteq> Wake k) \<and> pool_step (enqueue (check_queue 0 (enqueue (new_pool 1)))) ev p'"
  by (rule pool_never_stuck [OF _ sample_pool_run])
    (simp_all add: enqueue_def check_queue_def new_pool_def)

text \<open>
  C27: the destructor ends. After \<open>stop\<close> was set the steps of the pool, however they are scheduled
  and with spurious wake-ups, are no more than the weight of the state; and the pool stops
  moving only when every worker has returned.
\<close>

theorem destructor_terminates:
  assumes "0 < n" and "pool_run (new_pool n) evs p" and "stop p"
    and "pool_run p evs' p'" and "Enqueue \<notin> set evs'"
  shows "length evs' \<le> pool_weight p
    \<and> ((\<nexists>ev p''. internal ev \<and> pool_step p' ev p'') \<longrightarrow> joined p')"
proof -
  note w = weight_run [OF assms(4,3,5)]
  have inv: "pool_inv p'"
    by (rule pool_inv_run [OF pool_run_append [OF assms(2,4)] new_pool_inv [OF assms(1)]])
  have "\<exists>ev p''. internal ev \<and> pool_step p' ev p''" if "\<not> joined p'"
    using pool_progress [OF inv] that w by blast
  with w show ?thesis by auto
qed

theorem destructor_terminates_witness:
  "length [Notify_all, Check 0] \<le> pool_weight ((new_pool 1)\<lparr>stop := True, notify_all_pending := True\<rparr>)"
proof -
  define p where "p = (new_pool 1)\<lparr>stop := True, notify_all_pending := True\<rparr>"
  have r: "pool_run (new_pool 1) [Stop] p"
    by (simp add: new_pool_def p_def)
  have "pool_run p [Notify_all, Check 0] (check_queue 0 (wake_all (p\<lparr>notify_all_pending := False\<rparr>)))"
    by (simp add: p_def new_pool_def)
  from destructor_terminates [OF _ r _ this] show ?thesis by (simp add: p_def)
qed

text \<open>
  C26: the destructor drains the queue. When it has joined the workers, every accepted task has
  finished; what never runs are the calls of \<open>enqueue\<close> that came after the stop, and their
  futures report a broken promise instead of a result.
\<close>

theorem destructor_drains_queue:
  assumes "0 < n" and "pool_run (new_pool n) evs p" and "joined p" and "t < next_ticket p"
  shows "future_get p t = Some (if t \<in> set (dropped p) then Inl Broken_promise else Inr ())
    \<and> (t \<in> set (finished p) \<longleftrightarrow> t \<notin> set (dropped p)) \<and> tasks p = []"
proof -
  have inv: "tickets_ok p" "wakeups_ok p"
    using pool_inv_run [OF assms(2) new_pool_inv [OF assms(1)]] by (simp_all add: pool_inv_def)
  have ex: "w = Exited" if "w \<in> set (workers p)" for w using assms(3) that by (simp add: joined_def)
  have "workers p \<noteq> []" using inv(2) by (simp add: wakeups_ok_def)
  then obtain w where "w \<in> set (workers p)" by (meson last_in_set)
  with ex inv(2) have "tasks p = []" by (auto simp: wakeups_ok_def)
  moreover have "running p = []"
    unfolding running_def concat_eq_Nil_conv using ex by fastforce
  with inv(1) have m: "mset (taken p) = mset (finished p)" by (simp add: tickets_ok_def)
  have "set (taken p) = set (finished p)" by (rule mset_eq_setD [OF m])
  ultimately have "set (finished p) \<inter> set (dropped p) = {}" "set (finished p) \<union> set (dropped p) = {..<next_ticket p}"
    using inv(1) by (simp_all add: tickets_ok_def)
  with \<open>tasks p = []\<close> assms(4) show ?thesis by (auto simp: future_get_def)
qed

theorem destructor_drains_queue_witness:
  "future_get (enqueue (check_queue 0 (wake_all ((new_pool 1)\<lparr>stop := True\<rparr>)))) 0 = Some (Inl Broken_promise)"
proof -
  define p where "p = enqueue (check_queue 0 (wake_all ((new_pool 1)\<lparr>stop := True\<rparr>)))"
  have "pool_run (new_pool 1) [Stop, Notify_all, Check 0, Enqueue] p"
    by (simp add: p_def new_pool_def enqueue_def check_queue_def wake_all_def)
  then have run: "pool_run (new_pool 1) [Stop, Notify_all, Check 0, Enqueue] p" .
  have j: "joined p" and t: "0 < next_ticket p" and d: "0 \<in> set (dropped p)"
    by (simp_all add: p_def joined_def new_pool_def enqueue_def check_queue_def)
  have "future_get p 0 = Some (Inl Broken_promise)"
    using destructor_drains_queue [OF _ run j t] d by simp
  then show ?thesis by (simp only: p_def)
qed

text \<open>
  One instance: two calls of \<open>get_instance\<close> return the same object, and the second does not
  run the constructor.
\<close>

lemma singleton_constructs_once:
  "get_instance construct st = (x, st') \<Longrightarrow> get_instance construct st' = (x, st')"
  by (cases st) (auto simp: get_instance_def split: option.splits prod.splits)

end
