(* ===== verification/Pooled_Scan.thy ===== *)
theory Pooled_Scan
  imports First_Scan Thread_Pool
begin

text \<open>
  The tasks of \<open>first_scan\<close> on the thread pool: the steps of the pool and the steps of the tasks
  that its workers run, interleaved. A worker finishes a task when the task is done. It is shown
  that every such run is one of the schedules of the model of \<open>first_scan\<close>, which so far were
  arbitrary, and that the futures are ready only when the tasks are done.
\<close>

type_synonym 'w pooled = "pool \<times> job list \<times> 'w sys"

inductive pooled_step ::
  "'w win32 \<Rightarrow> comparator_fn \<Rightarrow> u64 \<Rightarrow> u64 option \<Rightarrow> 'w pooled \<Rightarrow> 'w pooled \<Rightarrow> bool" for api cmp raw1 raw2 where
  Pool_moves: "pool_step p ev p' \<Longrightarrow>
    (\<And>k t. ev = Finish k \<Longrightarrow> workers p ! k = Running t \<Longrightarrow> t < length jobs \<Longrightarrow> \<exists>sc. jobs ! t = Done sc) \<Longrightarrow>
    pooled_step api cmp raw1 raw2 (p, jobs, s) (p', jobs, s)"
| Task_moves: "k < length (workers p) \<Longrightarrow> workers p ! k = Running t \<Longrightarrow> t < length jobs \<Longrightarrow>
    job_step api cmp raw1 raw2 (jobs ! t) s = Inr (j, s') \<Longrightarrow>
    pooled_step api cmp raw1 raw2 (p, jobs, s) (p, jobs[t := j], s')"

inductive pooled_run ::
  "'w win32 \<Rightarrow> comparator_fn \<Rightarrow> u64 \<Rightarrow> u64 option \<Rightarrow> 'w pooled \<Rightarrow> 'w pooled \<Rightarrow> bool" for api cmp raw1 raw2 where
  Pooled_nil: "pooled_run api cmp raw1 raw2 st st"
| Pooled_snoc: "pooled_run api cmp raw1 raw2 st st1 \<Longrightarrow> pooled_step api cmp raw1 raw2 st1 st2 \<Longrightarrow>
    pooled_run api cmp raw1 raw2 st st2"

lemma run_jobs_append:
  "run_jobs api cmp raw1 raw2 (ks @ ks') jobs s =
     (case run_jobs api cmp raw1 raw2 ks jobs s of Inl e \<Rightarrow> Inl e
      | Inr (jobs', s') \<Rightarrow> run_jobs api cmp raw1 raw2 ks' jobs' s')"
  by (induction ks arbitrary: jobs s) (auto split: sum.splits prod.splits)

lemma run_jobs_done:
  "\<forall>j \<in> set jobs. \<exists>sc. j = Done sc \<Longrightarrow> run_jobs api cmp raw1 raw2 ks jobs s = Inr (jobs, s)"
proof (induction ks)
  case (Cons k ks)
  show ?case
  proof (cases "k < length jobs")
    case True
    with Cons.prems obtain sc where "jobs ! k = Done sc" by (meson nth_mem)
    moreover from this have "jobs[k := Done sc] = jobs" by (metis list_update_id)
    ultimately show ?thesis using True Cons by simp
  qed (use Cons in simp)
qed simp

lemma run_jobs_length:
  "run_jobs api cmp raw1 raw2 ks jobs s = Inr (jobs', s') \<Longrightarrow> length jobs' = length jobs"
  by (induction ks arbitrary: jobs s) (auto split: sum.splits if_splits)

text \<open>The tasks go through a schedule, and what has finished is done.\<close>

definition finished_done :: "pool \<Rightarrow> job list \<Rightarrow> bool" where
  "finished_done p jobs \<longleftrightarrow> (\<forall>t \<in> set (finished p). t < length jobs \<longrightarrow> (\<exists>sc. jobs ! t = Done sc))"

lemma finished_done_pool:
  assumes "pool_step p ev p'" and "finished_done p jobs"
    and "\<And>k t. ev = Finish k \<Longrightarrow> workers p ! k = Running t \<Longrightarrow> t < length jobs \<Longrightarrow> \<exists>sc. jobs ! t = Done sc"
  shows "finished_done p' jobs"
  using assms
  by (induction rule: pool_step.induct) (auto simp: finished_done_def enqueue_def check_queue_def)

lemma finished_done_task:
  assumes "job_step api cmp raw1 raw2 (jobs ! t) s = Inr (j, s')" and "finished_done p jobs"
  shows "finished_done p (jobs[t := j])"
  unfolding finished_done_def
proof (intro ballI impI)
  fix u
  assume u: "u \<in> set (finished p)" "u < length (jobs[t := j])"
  with assms(2) have d: "\<exists>sc. jobs ! u = Done sc" by (simp add: finished_done_def)
  show "\<exists>sc. jobs[t := j] ! u = Done sc"
  proof (cases "u = t")
    case True
    from d obtain sc where "jobs ! t = Done sc" using True by auto
    with assms(1) have "j = Done sc" by simp
    with True u(2) show ?thesis by simp
  qed (use d in simp)
qed

lemma pooled_run_schedule:
  assumes "pooled_run api cmp raw1 raw2 st0 st" and "finished (fst st0) = []"
  shows "\<exists>ks. run_jobs api cmp raw1 raw2 ks (fst (snd st0)) (snd (snd st0)) = Inr (snd st)
    \<and> finished_done (fst st) (fst (snd st))"
  using assms
proof (induction rule: pooled_run.induct)
  case (Pooled_nil st)
  then show ?case by (intro exI [of _ "[]"]) (simp add: finished_done_def)
next
  case (Pooled_snoc st st1 st2)
  then obtain ks where ks: "run_jobs api cmp raw1 raw2 ks (fst (snd st)) (snd (snd st)) = Inr (snd st1)"
    and fin: "finished_done (fst st1) (fst (snd st1))" by blast
  from Pooled_snoc.hyps(2) show ?case
  proof cases
    case (Pool_moves p ev p' jobs s)
    have "finished_done p' jobs"
      by (rule finished_done_pool [OF Pool_moves(3)]) (use fin Pool_moves(1,4) in auto)
    with ks Pool_moves(1,2) show ?thesis by auto
  next
    case (Task_moves k p t jobs s j s')
    have "finished_done p (jobs[t := j])"
      by (rule finished_done_task [OF Task_moves(6)]) (use fin Task_moves(1) in simp)
    moreover have "run_jobs api cmp raw1 raw2 (ks @ [t]) (fst (snd st)) (snd (snd st)) = Inr (jobs[t := j], s')"
      using ks Task_moves(1,5,6) by (simp add: run_jobs_append)
    ultimately show ?thesis using Task_moves(2) by auto
  qed
qed

lemma make_jobs_length: "make_jobs type es rs = Inr jobs \<Longrightarrow> length jobs = length rs"
  by (induction rs arbitrary: jobs) (auto split: sum.splits)

text \<open>
  C8: the schedules of \<open>first_scan\<close> are what the thread pool does. Take any run of a pool of \<open>n\<close>
  workers and of the tasks its workers run, from the jobs of a first scan to a state in which the
  future of every task is ready. Collecting the scans in that state is what \<open>first_scan\<close>
  returns for some schedule; so all that is proved of \<open>first_scan\<close> holds of it.
\<close>

theorem pooled_first_scan:
  assumes "get_regions api h rng protect (world s) = Some rs" and "make_jobs type (element_size et) rs = Inr jobs"
    and "pooled_run api (make_comparator type et) raw1 raw2 (new_pool n, jobs, s) (p, jobs', s')"
    and "\<forall>t < length rs. future_get p t = Some (Inr ())"
  shows "\<exists>ks. first_scan api ks h rng protect type et raw1 raw2 s
    = (let (found, s2) = collect api (map job_scan jobs') [] s' in Some (Inr (sort_key scan_base found, s2)))"
proof -
  let ?cmp = "make_comparator type et"
  have "finished (fst (new_pool n, jobs, s)) = []" by (simp add: new_pool_def)
  from pooled_run_schedule [OF assms(3) this] obtain ks where
    ks: "run_jobs api ?cmp raw1 raw2 ks jobs s = Inr (jobs', s')" and fin: "finished_done p jobs'" by auto
  have len: "length jobs' = length rs" using run_jobs_length [OF ks] make_jobs_length [OF assms(2)] by simp
  have "t \<in> set (finished p)" if "t < length rs" for t
    using assms(4) that by (auto simp: future_get_def split: if_splits)
  then have "\<forall>j \<in> set jobs'. \<exists>sc. j = Done sc" using fin len by (auto simp: finished_done_def in_set_conv_nth)
  from run_jobs_done [OF this] ks have
    "run_jobs api ?cmp raw1 raw2 (ks @ finish_schedule (length jobs)) jobs s = Inr (jobs', s')"
    by (simp add: run_jobs_append)
  with assms(1,2) show ?thesis by (intro exI [of _ ks]) (simp add: first_scan_def Let_def split: prod.splits)
qed

lemma pooled_tasks:
  assumes "run_jobs api cmp raw1 raw2 ks jobs s = Inr (jobs', s')" and "pooled_run api cmp raw1 raw2 st (p, jobs, s)"
    and "\<forall>t \<in> set ks. Running t \<in> set (workers p)"
  shows "pooled_run api cmp raw1 raw2 st (p, jobs', s')"
  using assms
proof (induction ks arbitrary: jobs s)
  case (Cons t ks)
  show ?case
  proof (cases "t < length jobs")
    case True
    with Cons.prems(1) obtain j s1 where j: "job_step api cmp raw1 raw2 (jobs ! t) s = Inr (j, s1)"
      "run_jobs api cmp raw1 raw2 ks (jobs[t := j]) s1 = Inr (jobs', s')" by (auto split: sum.splits)
    from Cons.prems(3) obtain k where "k < length (workers p)" "workers p ! k = Running t" by (auto simp: in_set_conv_nth)
    from Cons.IH [OF j(2) Pooled_snoc [OF Cons.prems(2) Task_moves [OF this True j(1)]]] Cons.prems(3) show ?thesis by simp
  qed (use Cons in simp)
qed simp

theorem pooled_first_scan_witness:
  "\<exists>jobs p jobs' s' ks. make_jobs exact_value 1 [sample_region] = Inr jobs
    \<and> pooled_run still_api (make_comparator exact_value U8) 5 None (new_pool 1, jobs, sample_sys [sample_mbi] ucast) (p, jobs', s')
    \<and> first_scan still_api ks 7 (0x10000, 0x10008) 4 exact_value U8 5 None (sample_sys [sample_mbi] ucast)
      = (let (found, s2) = collect still_api (map job_scan jobs') [] s' in Some (Inr (sort_key scan_base found, s2)))"
proof -
  let ?cmp = "make_comparator exact_value U8" and ?s = "sample_sys [sample_mbi] ucast"
  define jobs where "jobs = map (\<lambda>r. Start (start_scan exact_value (element_size U8) r)) [sample_region]"
  have mk: "make_jobs exact_value (element_size U8) [sample_region] = Inr jobs" unfolding jobs_def by (rule make_jobs_eq)
  have al: "allocs_succeed still_api ?cmp 5 None ([0, 0, 0] @ finish_schedule (length [sample_region])) jobs ?s"
    unfolding jobs_def append_Cons by (rule still_allocs_succeed)
  let ?ks = "[0, 0, 0] @ finish_schedule (length jobs)"
  from first_scan_spec [OF still_docs(1,2) still_scans_ok still_regions sample_room al [unfolded jobs_def]]
  obtain jobs' s' where run: "run_jobs still_api ?cmp 5 None ?ks jobs ?s = Inr (jobs', s')"
    using mk by (auto simp: first_scan_def still_regions split: sum.splits prod.splits)
  have over: "\<exists>sc. j = Done sc" if "j \<in> set jobs'" for j using run_jobs_all_done [OF run that] .
  define p where "p = check_queue 0 (enqueue (new_pool 1))"
  have p: "workers p = [Running 0]" "finished p = []"
    by (simp_all add: p_def check_queue_def enqueue_def new_pool_def)
  have w: "workers (enqueue (new_pool 1)) = [Checking]" by (simp add: enqueue_def new_pool_def)
  let ?run = "pooled_run still_api ?cmp 5 None (new_pool 1, jobs, ?s)"
  have "?run (enqueue (new_pool 1), jobs, ?s)"
    by (rule Pooled_snoc [OF Pooled_nil Pool_moves [OF Step_enqueue]]) simp
  then have "?run (p, jobs, ?s)"
    unfolding p_def by (rule Pooled_snoc [OF _ Pool_moves [OF Step_check]]) (simp_all add: w [unfolded One_nat_def])
  from pooled_tasks [OF run this] have r: "?run (p, jobs', s')"
    by (simp add: p jobs_def finish_schedule_def)
  define q where "q = wake 0 (p\<lparr>finished := finished p @ [0]\<rparr>)"
  have "?run (q, jobs', s')"
    unfolding q_def using over
    by (intro Pooled_snoc [OF r Pool_moves [OF Step_finish [of 0 p 0]]]) (auto simp: p)
  moreover have "\<forall>t < length [sample_region]. future_get q t = Some (Inr ())"
    by (simp add: q_def future_get_def p)
  ultimately obtain ks where
    "first_scan still_api ks 7 (0x10000, 0x10008) 4 exact_value U8 5 None ?s
      = (let (found, s2) = collect still_api (map job_scan jobs') [] s' in Some (Inr (sort_key scan_base found, s2)))"
    using pooled_first_scan [OF still_regions mk] by blast
  with \<open>?run (q, jobs', s')\<close> mk show ?thesis by (intro exI [of _ jobs] exI [of _ q] exI) auto
qed

end
