(* ===== verification/Mio_Interface.thy ===== *)
theory Mio_Interface
  imports Mio_Map
begin

text \<open>
  The rest of the interface of \<open>basic_mmap\<close>: mappings named by a path or by a handle, the
  overloads that map a whole file, the factory functions, the throwing constructors, the
  observers and the access to single bytes. Also what \<open>map\<close> does to an object that already holds
  a mapping: on success the new view is there and the old one is gone, on an error nothing changed.
\<close>

subsection \<open>Mapping tokens\<close>

text \<open>A \<open>MappingToken\<close> is a path or the handle of an open file; \<open>map\<close> is overloaded on it.\<close>

datatype mapping_token = Path string | Handle u64

fun map_token ::
  "'w win32 \<Rightarrow> basic_mmap \<Rightarrow> mapping_token \<Rightarrow> u64 \<Rightarrow> u64 \<Rightarrow> access_mode \<Rightarrow> 'w \<Rightarrow> basic_mmap \<times> error_code \<times> 'w" where
  "map_token api m (Path path) offset len mode w = map_path api m path offset len mode w"
| "map_token api m (Handle handle) offset len mode w = map_handle api m handle offset len mode w"

definition map_entire_file :: u64 where "map_entire_file = 0"

definition map_whole_path ::
  "'w win32 \<Rightarrow> basic_mmap \<Rightarrow> string \<Rightarrow> access_mode \<Rightarrow> 'w \<Rightarrow> basic_mmap \<times> error_code \<times> 'w" where
  "map_whole_path api m path mode w = map_path api m path 0 map_entire_file mode w"

definition map_whole_handle ::
  "'w win32 \<Rightarrow> basic_mmap \<Rightarrow> u64 \<Rightarrow> access_mode \<Rightarrow> 'w \<Rightarrow> basic_mmap \<times> error_code \<times> 'w" where
  "map_whole_handle api m handle mode w = map_handle api m handle 0 map_entire_file mode w"

definition make_mmap_token ::
  "'w win32 \<Rightarrow> mapping_token \<Rightarrow> u64 \<Rightarrow> u64 \<Rightarrow> access_mode \<Rightarrow> 'w \<Rightarrow> basic_mmap \<times> error_code \<times> 'w" where
  "make_mmap_token api token offset len mode w = map_token api default_mmap token offset len mode w"

lemma make_mmap_path: "make_mmap api path offset len mode w = make_mmap_token api (Path path) offset len mode w"
  by (simp add: make_mmap_def make_mmap_token_def)

definition make_mmap_source ::
  "'w win32 \<Rightarrow> mapping_token \<Rightarrow> u64 \<Rightarrow> u64 \<Rightarrow> 'w \<Rightarrow> basic_mmap \<times> error_code \<times> 'w" where
  "make_mmap_source api token offset len w = make_mmap_token api token offset len read_access w"

definition make_mmap_source_whole :: "'w win32 \<Rightarrow> mapping_token \<Rightarrow> 'w \<Rightarrow> basic_mmap \<times> error_code \<times> 'w" where
  "make_mmap_source_whole api token w = make_mmap_source api token 0 map_entire_file w"

definition make_mmap_sink_whole :: "'w win32 \<Rightarrow> string \<Rightarrow> 'w \<Rightarrow> basic_mmap \<times> error_code \<times> 'w" where
  "make_mmap_sink_whole api path w = make_mmap_sink api path 0 map_entire_file w"

text \<open>The constructors that map and throw a \<open>std::system_error\<close>, here the error code on the left.\<close>

definition mmap_of_path ::
  "'w win32 \<Rightarrow> string \<Rightarrow> u64 \<Rightarrow> u64 \<Rightarrow> access_mode \<Rightarrow> 'w \<Rightarrow> (error_code + basic_mmap) \<times> 'w" where
  "mmap_of_path api path offset len mode w =
     (let (m, error, w1) = map_path api default_mmap path offset len mode w
      in (if error \<noteq> 0 then Inl error else Inr m, w1))"

definition mmap_of_handle ::
  "'w win32 \<Rightarrow> u64 \<Rightarrow> u64 \<Rightarrow> u64 \<Rightarrow> access_mode \<Rightarrow> 'w \<Rightarrow> (error_code + basic_mmap) \<times> 'w" where
  "mmap_of_handle api handle offset len mode w =
     (let (m, error, w1) = map_handle api default_mmap handle offset len mode w
      in (if error \<noteq> 0 then Inl error else Inr m, w1))"

subsection \<open>Observers\<close>

definition mapping_handle :: "basic_mmap \<Rightarrow> u64" where
  "mapping_handle m = mm_mapping_handle m"

definition mmap_begin :: "basic_mmap \<Rightarrow> u64" where
  "mmap_begin m = mm_data m"

definition mmap_end :: "basic_mmap \<Rightarrow> u64" where
  "mmap_end m = mm_data m + mm_length m"

text \<open>A \<open>std::reverse_iterator\<close> holds a pointer and shows the byte before it.\<close>

definition mmap_rbegin :: "basic_mmap \<Rightarrow> u64" where
  "mmap_rbegin m = mmap_end m"

definition mmap_rend :: "basic_mmap \<Rightarrow> u64" where
  "mmap_rend m = mmap_begin m"

fun reverse_bytes :: "'w win32 \<Rightarrow> 'w \<Rightarrow> u64 \<Rightarrow> nat \<Rightarrow> u8 list" where
  "reverse_bytes api w p 0 = []"
| "reverse_bytes api w p (Suc n) = load_byte api w (p - 1) # reverse_bytes api w (p - 1) n"

definition mmap_ne :: "basic_mmap \<Rightarrow> basic_mmap \<Rightarrow> bool" where
  "mmap_ne a b \<longleftrightarrow> \<not> mmap_eq a b"

text \<open>
  \<open>operator[]\<close>, read from and assigned to. Without a mapping or past the requested length it is
  undefined behaviour.
\<close>

definition mmap_ref :: "basic_mmap \<Rightarrow> u64 \<Rightarrow> u64 res" where
  "mmap_ref m i =
     (if mm_data m = 0 then Inl Null_deref
      else if mm_length m \<le> i then Inl Out_of_bounds
      else Inr (mm_data m + i))"

definition mmap_get :: "'w win32 \<Rightarrow> basic_mmap \<Rightarrow> u64 \<Rightarrow> 'w \<Rightarrow> u8 res" where
  "mmap_get api m i w = (case mmap_ref m i of Inl e \<Rightarrow> Inl e | Inr a \<Rightarrow> Inr (load_byte api w a))"

definition mmap_put :: "'w win32 \<Rightarrow> basic_mmap \<Rightarrow> u64 \<Rightarrow> u8 \<Rightarrow> 'w \<Rightarrow> 'w res" where
  "mmap_put api m i b w = (case mmap_ref m i of Inl e \<Rightarrow> Inl e | Inr a \<Rightarrow> Inr (store_byte api a b w))"

text \<open>From \<open>rbegin()\<close> to \<open>rend()\<close> one reads the bytes of the mapping in reverse.\<close>

lemma reverse_bytes_rev: "reverse_bytes api w (a + of_nat n) n = rev (load_bytes api w a n)"
  by (induction n) (simp_all add: load_bytes_def add.assoc)

lemma reverse_iteration:
  "reverse_bytes api w (mmap_rbegin m) (unat (mm_length m)) = rev (load_bytes api w (mmap_begin m) (unat (mm_length m)))
   \<and> mmap_rbegin m - of_nat (unat (mm_length m)) = mmap_rend m"
  using reverse_bytes_rev [of api w "mmap_begin m" "unat (mm_length m)"]
  by (simp add: mmap_rbegin_def mmap_rend_def mmap_end_def mmap_begin_def)

subsection \<open>Live mappings\<close>

text \<open>
  A mapping object is live when it is open and the bytes from \<open>begin()\<close> to \<open>end()\<close> are those of a
  part of the file, in the view that \<open>unmap\<close> will remove.
\<close>

definition live :: "'w win32 \<Rightarrow> 'w \<Rightarrow> basic_mmap \<Rightarrow> bool" where
  "live api w m \<longleftrightarrow> is_open m \<and> is_mapped m \<and> mm_length m \<noteq> 0 \<and> get_mapping_start m \<noteq> 0
     \<and> (\<exists>p. view_shows api w (get_mapping_start m) (mm_data m) (unat (mm_length m)) p)"

lemma live_internal [simp]: "live api w (m\<lparr>mm_internal := b\<rparr>) = live api w m"
  by (simp add: live_def)

lemma live_keeps: "live api w m \<Longrightarrow> keeps api w w' \<Longrightarrow> live api w' m"
  by (auto simp: live_def intro: view_shows_keeps)

lemma live_keeps_except:
  "live api w m \<Longrightarrow> keeps_except api base w w' \<Longrightarrow> get_mapping_start m \<noteq> base \<Longrightarrow> live api w' m"
  by (auto simp: live_def intro: view_shows_keeps_except)

lemma live_start_taken:
  assumes "live api w m"
  shows "\<exists>a p. view_of api w a = Some (get_mapping_start m, p)"
proof -
  from assms obtain p where p: "mm_length m \<noteq> 0"
    "view_shows api w (get_mapping_start m) (mm_data m) (unat (mm_length m)) p"
    by (auto simp: live_def)
  then have "0 < unat (mm_length m)" by (simp add: unat_gt_0)
  with p(2) show ?thesis unfolding view_shows_def by blast
qed

lemma keeps_no_view: "keeps api w w' \<Longrightarrow> view_of api w' a \<noteq> Some v \<Longrightarrow> view_of api w a \<noteq> Some v"
  unfolding keeps_def by blast

text \<open>The strong guarantee: an error leaves the object alone, for paths and for handles.\<close>

lemma map_token_error:
  "map_token api m tok off len mode w = (m', err, w') \<Longrightarrow> err \<noteq> 0 \<Longrightarrow> m' = m"
  by (cases tok) (auto simp: map_path_def map_handle_def Let_def split: prod.splits if_splits)

lemma map_handle_error:
  assumes "memory_docs api" and "map_handle api m h off len mode w = (m', err, w')" and "err \<noteq> 0"
  shows "m' = m \<and> keeps api w w'"
proof -
  obtain n e w1 where q: "query_file_size api h w = (n, e, w1)" by (metis prod_cases3)
  obtain ctx e2 w2 where mm: "memory_map api h off (if len = 0 then n - off else len) mode w1 = (ctx, e2, w2)"
    by (metis prod_cases3)
  have "keeps api w w1" "keeps api w1 w2"
    by (rule query_file_size_keeps [OF assms(1) q]) (rule memory_map_spec(1) [OF assms(1) mm])
  from this(1) keeps_trans [OF this] assms(2,3) show ?thesis
    by (auto simp: map_handle_def q Let_def mm split: if_splits prod.splits)
qed

lemma map_token_error_keeps:
  assumes "memory_docs api" and "map_token api m tok off len mode w = (m', err, w')" and "err \<noteq> 0"
  shows "keeps api w w'"
proof (cases tok)
  case (Handle h)
  with assms(2) have "map_handle api m h off len mode w = (m', err, w')" by simp
  from map_handle_error [OF assms(1) this assms(3)] show ?thesis by simp
next
  case (Path path)
  obtain h e w1 where o: "open_file api path mode w = (h, e, w1)" by (metis prod_cases3)
  obtain m1 e1 w2 where mh: "map_handle api m h off len mode w1 = (m1, e1, w2)" by (metis prod_cases3)
  have k: "keeps api w w1" by (rule open_file_keeps [OF assms(1) o])
  with assms(2,3) map_handle_error [OF assms(1) mh] keeps_trans [OF k] show ?thesis
    by (auto simp: Path map_path_def o mh Let_def split: if_splits)
qed

lemma map_handle_spec:
  assumes "memory_docs api" and "map_handle api m h off len mode w = (m', err, w')"
    and old: "mm_data m \<noteq> 0 \<longrightarrow> live api w m" and small: "unat off + unat len < 2 ^ 64"
  shows "err \<noteq> 0 \<Longrightarrow> m' = m \<and> keeps api w w'"
    and "keeps_except api (get_mapping_start m) w w'"
    and "err = 0 \<Longrightarrow> is_open m'"
    and "err = 0 \<Longrightarrow> mm_data m' \<noteq> 0 \<Longrightarrow> mm_length m' \<noteq> 0 \<Longrightarrow>
      live api w' m' \<and> (\<forall>a p. view_of api w a \<noteq> Some (get_mapping_start m', p))"
proof -
  obtain n e w1 where q: "query_file_size api h w = (n, e, w1)" by (metis prod_cases3)
  define l where "l = (if len = 0 then n - off else len)"
  obtain ctx e2 w2 where mm: "memory_map api h off l mode w1 = (ctx, e2, w2)" by (metis prod_cases3)
  obtain m1 w3 where u: "unmap api m w2 = (m1, w3)" by force
  note defs = assms(2) [unfolded map_handle_def q Let_def prod.case l_def [symmetric] mm u]
  have k: "keeps api w w1" "keeps api w1 w2"
    by (rule query_file_size_keeps [OF assms(1) q]) (rule memory_map_spec(1) [OF assms(1) mm])
  then have k2: "keeps api w w2" by (rule keeps_trans)
  have ke: "keeps_except api (get_mapping_start m) w2 w3"
    using unmap_keeps_except [OF assms(1), of m w2] by (simp add: u)
  show "err \<noteq> 0 \<Longrightarrow> m' = m \<and> keeps api w w'"
    using defs k k2 by (auto split: if_splits)
  show "keeps_except api (get_mapping_start m) w w'"
    using defs keeps_keeps_except [OF k(1)] keeps_keeps_except [OF k2]
      keeps_except_trans [OF keeps_keeps_except [OF k2] ke]
    by (auto simp: keeps_keeps_except split: if_splits)
  show "err = 0 \<Longrightarrow> is_open m'"
    using defs by (auto simp: is_open_def errc_bad_file_descriptor_def errc_invalid_argument_def split: if_splits)
  assume ok: "err = 0" "mm_data m' \<noteq> 0" "mm_length m' \<noteq> 0"
  from defs ok(1) have h: "h \<noteq> invalid_handle_value" "\<not> n < off + len" and w': "w' = w3"
    and m': "m' = m1\<lparr>mm_file_handle := h, mm_internal := False, mm_data := ctx_data ctx,
        mm_length := ctx_length ctx, mm_mapped_length := ctx_mapped_length ctx,
        mm_mapping_handle := ctx_mapping_handle ctx\<rparr>"
    by (auto simp: errc_bad_file_descriptor_def errc_invalid_argument_def split: if_splits)
  from m' ok(2) have nz: "ctx_data ctx \<noteq> 0" by simp
  have "unat off + unat l < 2 ^ 64"
  proof (cases "len = 0")
    case True
    with h have "unat off \<le> unat n" by (simp add: word_less_nat_alt)
    then have "unat off + unat (n - off) = unat n" by (simp add: unat_sub word_le_nat_alt)
    then show ?thesis using True by (simp add: l_def)
  next
    case False
    with small show ?thesis by (simp add: l_def)
  qed
  from memory_map_spec(2) [OF assms(1) mm this nz] obtain base where b0: "base \<noteq> 0"
    and base: "ctx_data ctx = base + off - make_offset_page_aligned api off"
      "ctx_length ctx = l" "ctx_mapped_length ctx = off - make_offset_page_aligned api off + l"
    and view: "view_shows api w2 base (ctx_data ctx) (unat l) (unat off)"
    and fresh1: "\<And>a p. view_of api w1 a \<noteq> Some (base, p)" by blast
  have fresh: "view_of api w a \<noteq> Some (base, p)" for a p
    by (rule keeps_no_view [OF k(1) fresh1])
  have start: "get_mapping_start m' = base"
    using nz base by (simp add: get_mapping_start_def mapping_offset_def m')
  have mapped: "ctx_mapping_handle ctx \<noteq> invalid_handle_value"
    using mm nz by (auto simp: memory_map_def Let_def null_context_def split: if_splits prod.splits)
  have "get_mapping_start m \<noteq> base"
  proof (cases "mm_data m = 0")
    case True
    then show ?thesis using b0 by (simp add: get_mapping_start_def)
  next
    case False
    with old live_start_taken fresh show ?thesis by metis
  qed
  then have "view_shows api w' base (ctx_data ctx) (unat l) (unat off)"
    unfolding w' by (intro view_shows_keeps_except [OF view _ ke]) simp
  with start b0 mapped ok(3) h(1) base(2) have "live api w' m'"
    unfolding live_def by (auto simp: m' is_open_def is_mapped_def)
  with fresh show "live api w' m' \<and> (\<forall>a p. view_of api w a \<noteq> Some (get_mapping_start m', p))"
    unfolding start by blast
qed

lemma map_token_spec:
  assumes "memory_docs api" and "map_token api m tok off len mode w = (m', err, w')"
    and "mm_data m \<noteq> 0 \<longrightarrow> live api w m" and "unat off + unat len < 2 ^ 64"
  shows "err \<noteq> 0 \<Longrightarrow> m' = m \<and> keeps api w w'"
    and "keeps_except api (get_mapping_start m) w w'"
    and "err = 0 \<Longrightarrow> is_open m'"
    and "err = 0 \<Longrightarrow> mm_data m' \<noteq> 0 \<Longrightarrow> mm_length m' \<noteq> 0 \<Longrightarrow>
      live api w' m' \<and> (\<forall>a p. view_of api w a \<noteq> Some (get_mapping_start m', p))"
proof -
  have "(err \<noteq> 0 \<longrightarrow> m' = m \<and> keeps api w w') \<and> keeps_except api (get_mapping_start m) w w'
    \<and> (err = 0 \<longrightarrow> is_open m') \<and> (err = 0 \<longrightarrow> mm_data m' \<noteq> 0 \<longrightarrow> mm_length m' \<noteq> 0 \<longrightarrow>
      live api w' m' \<and> (\<forall>a p. view_of api w a \<noteq> Some (get_mapping_start m', p)))"
  proof (cases tok)
    case (Handle h)
    with assms(2) have "map_handle api m h off len mode w = (m', err, w')" by simp
    from map_handle_spec [OF assms(1) this assms(3,4)] show ?thesis by blast
  next
    case (Path path)
    obtain h e w1 where o: "open_file api path mode w = (h, e, w1)" by (metis prod_cases3)
    obtain m1 e1 w2 where mh: "map_handle api m h off len mode w1 = (m1, e1, w2)" by (metis prod_cases3)
    note defs = assms(2) [unfolded Path map_token.simps map_path_def o mh Let_def prod.case]
    have k: "keeps api w w1" by (rule open_file_keeps [OF assms(1) o])
    have "mm_data m \<noteq> 0 \<longrightarrow> live api w1 m" using assms(3) live_keeps [OF _ k] by simp
    note spec = map_handle_spec [OF assms(1) mh this assms(4)]
    show ?thesis
    proof (cases "path = [] \<or> e \<noteq> 0")
      case True
      with defs k have "m' = m" "err \<noteq> 0" "keeps api w w'"
        by (auto simp: errc_invalid_argument_def split: if_splits)
      then show ?thesis by (simp add: keeps_keeps_except)
    next
      case False
      with defs have r: "m' = (if e1 = 0 then m1\<lparr>mm_internal := True\<rparr> else m1)" "err = e1" "w' = w2" by auto
      have "keeps_except api (get_mapping_start m) w w2"
        by (rule keeps_except_trans [OF keeps_keeps_except [OF k] spec(2)])
      moreover have "e1 \<noteq> 0 \<Longrightarrow> m1 = m \<and> keeps api w w2" using spec(1) keeps_trans [OF k] by blast
      moreover have "e1 = 0 \<Longrightarrow> mm_data m1 \<noteq> 0 \<Longrightarrow> mm_length m1 \<noteq> 0 \<Longrightarrow>
          live api w2 m1 \<and> (\<forall>a p. view_of api w a \<noteq> Some (get_mapping_start m1, p))"
        using spec(4) keeps_no_view [OF k] by blast
      ultimately show ?thesis using spec(3) unfolding r by (cases "e1 = 0") simp_all
    qed
  qed
  then show "err \<noteq> 0 \<Longrightarrow> m' = m \<and> keeps api w w'"
    and "keeps_except api (get_mapping_start m) w w'"
    and "err = 0 \<Longrightarrow> is_open m'"
    and "err = 0 \<Longrightarrow> mm_data m' \<noteq> 0 \<Longrightarrow> mm_length m' \<noteq> 0 \<Longrightarrow>
      live api w' m' \<and> (\<forall>a p. view_of api w a \<noteq> Some (get_mapping_start m', p))"
    by blast+
qed

end
