(* ===== verification/Mio_Shared.thy ===== *)
theory Mio_Shared
  imports Mio_Interface Shared_Count
begin

text \<open>
  \<open>basic_shared_mmap\<close>: a \<open>shared_ptr\<close> to a mapping object. A handle is an index into the control
  blocks of the state or None, each block the mapping object and its use count; the release of
  the last handle runs the destructor of the mapping. The access mode is a template parameter and
  here an argument. A client holds a list of such handles and uses them in any order.
\<close>

record 'w shared_state =
  sh_world :: 'w
  sh_blocks :: "(basic_mmap \<times> nat) list"

definition pointee :: "'w shared_state \<Rightarrow> nat \<Rightarrow> basic_mmap" where
  "pointee s i = fst (sh_blocks s ! i)"

definition sh_count :: "'w shared_state \<Rightarrow> nat \<Rightarrow> nat" where
  "sh_count s i = snd (sh_blocks s ! i)"

definition set_block :: "nat \<Rightarrow> basic_mmap \<Rightarrow> nat \<Rightarrow> 'w \<Rightarrow> 'w shared_state \<Rightarrow> 'w shared_state" where
  "set_block i m c w s = s\<lparr>sh_world := w, sh_blocks := (sh_blocks s)[i := (m, c)]\<rparr>"

text \<open>\<open>std::make_shared\<close>, copying a \<open>shared_ptr\<close> and dropping one.\<close>

definition make_shared :: "basic_mmap \<Rightarrow> 'w shared_state \<Rightarrow> nat option \<times> 'w shared_state" where
  "make_shared m s = (Some (length (sh_blocks s)), s\<lparr>sh_blocks := sh_blocks s @ [(m, 1)]\<rparr>)"

fun share :: "nat option \<Rightarrow> 'w shared_state \<Rightarrow> 'w shared_state" where
  "share None s = s"
| "share (Some i) s = set_block i (pointee s i) (Suc (sh_count s i)) (sh_world s) s"

fun unshare :: "'w win32 \<Rightarrow> access_mode \<Rightarrow> nat option \<Rightarrow> 'w shared_state \<Rightarrow> 'w shared_state" where
  "unshare api mode None s = s"
| "unshare api mode (Some i) s =
     (if sh_count s i = 1
      then let (m, w) = mmap_destroy api mode (pointee s i) (sh_world s) in set_block i m 0 w s
      else set_block i (pointee s i) (sh_count s i - 1) (sh_world s) s)"

subsection \<open>The class \<open>basic_shared_mmap\<close>\<close>

definition shared_default :: "nat option" where
  "shared_default = None"

definition shared_copy :: "nat option \<Rightarrow> 'w shared_state \<Rightarrow> nat option \<times> 'w shared_state" where
  "shared_copy other s = (other, share other s)"

definition shared_copy_assign ::
  "'w win32 \<Rightarrow> access_mode \<Rightarrow> nat option \<Rightarrow> nat option \<Rightarrow> 'w shared_state \<Rightarrow> nat option \<times> 'w shared_state" where
  "shared_copy_assign api mode this other s = (other, unshare api mode this (share other s))"

text \<open>Moves return the handle moved into and the handle moved from.\<close>

definition shared_move :: "nat option \<Rightarrow> nat option \<times> nat option" where
  "shared_move other = (other, None)"

definition shared_move_assign ::
  "'w win32 \<Rightarrow> access_mode \<Rightarrow> nat option \<Rightarrow> nat option \<Rightarrow> 'w shared_state
     \<Rightarrow> nat option \<times> nat option \<times> 'w shared_state" where
  "shared_move_assign api mode this other s = (other, None, unshare api mode this s)"

text \<open>Taking over a mapping object; the object moved from is returned, too.\<close>

definition shared_of_mmap ::
  "basic_mmap \<Rightarrow> 'w shared_state \<Rightarrow> nat option \<times> basic_mmap \<times> 'w shared_state" where
  "shared_of_mmap mmap s =
     (let (m, rest) = mmap_move mmap; (h, s1) = make_shared m s in (h, rest, s1))"

definition shared_assign_mmap ::
  "'w win32 \<Rightarrow> access_mode \<Rightarrow> nat option \<Rightarrow> basic_mmap \<Rightarrow> 'w shared_state
     \<Rightarrow> nat option \<times> basic_mmap \<times> 'w shared_state" where
  "shared_assign_mmap api mode this mmap s =
     (let (h, rest, s1) = shared_of_mmap mmap s in (h, rest, unshare api mode this s1))"

definition shared_assign_ptr ::
  "'w win32 \<Rightarrow> access_mode \<Rightarrow> nat option \<Rightarrow> nat option \<Rightarrow> 'w shared_state \<Rightarrow> nat option \<times> 'w shared_state" where
  "shared_assign_ptr api mode this p s = (p, unshare api mode this s)"

definition get_shared_ptr :: "nat option \<Rightarrow> 'w shared_state \<Rightarrow> nat option \<times> 'w shared_state" where
  "get_shared_ptr this s = shared_copy this s"

text \<open>\<open>map_impl\<close>: the local mapping object is destroyed when the function returns.\<close>

definition shared_map ::
  "'w win32 \<Rightarrow> access_mode \<Rightarrow> nat option \<Rightarrow> mapping_token \<Rightarrow> u64 \<Rightarrow> u64 \<Rightarrow> 'w shared_state
     \<Rightarrow> nat option \<times> error_code \<times> 'w shared_state" where
  "shared_map api mode this token offset len s =
     (case this of
        None \<Rightarrow>
          let (mmap, error, w) = make_mmap_token api token offset len mode (sh_world s)
          in if error \<noteq> 0
             then let (_, w1) = mmap_destroy api mode mmap w in (None, error, s\<lparr>sh_world := w1\<rparr>)
             else let (h, rest, s1) = shared_of_mmap mmap (s\<lparr>sh_world := w\<rparr>);
                      (_, w1) = mmap_destroy api mode rest (sh_world s1)
                  in (h, error, s1\<lparr>sh_world := w1\<rparr>)
      | Some i \<Rightarrow>
          let (m, error, w) = map_token api (pointee s i) token offset len mode (sh_world s)
          in (this, error, set_block i m (sh_count s i) w s))"

definition shared_map_whole_path ::
  "'w win32 \<Rightarrow> access_mode \<Rightarrow> nat option \<Rightarrow> string \<Rightarrow> 'w shared_state \<Rightarrow> nat option \<times> error_code \<times> 'w shared_state" where
  "shared_map_whole_path api mode this path s = shared_map api mode this (Path path) 0 map_entire_file s"

definition shared_map_whole_handle ::
  "'w win32 \<Rightarrow> access_mode \<Rightarrow> nat option \<Rightarrow> u64 \<Rightarrow> 'w shared_state \<Rightarrow> nat option \<times> error_code \<times> 'w shared_state" where
  "shared_map_whole_handle api mode this handle s = shared_map api mode this (Handle handle) 0 map_entire_file s"

text \<open>The constructors that map and throw.\<close>

definition shared_of_path ::
  "'w win32 \<Rightarrow> access_mode \<Rightarrow> string \<Rightarrow> u64 \<Rightarrow> u64 \<Rightarrow> 'w shared_state
     \<Rightarrow> (error_code + nat option) \<times> 'w shared_state" where
  "shared_of_path api mode path offset len s =
     (let (h, error, s1) = shared_map api mode None (Path path) offset len s
      in (if error \<noteq> 0 then Inl error else Inr h, s1))"

definition shared_of_handle ::
  "'w win32 \<Rightarrow> access_mode \<Rightarrow> u64 \<Rightarrow> u64 \<Rightarrow> u64 \<Rightarrow> 'w shared_state
     \<Rightarrow> (error_code + nat option) \<times> 'w shared_state" where
  "shared_of_handle api mode handle offset len s =
     (let (h, error, s1) = shared_map api mode None (Handle handle) offset len s
      in (if error \<noteq> 0 then Inl error else Inr h, s1))"

definition shared_unmap :: "'w win32 \<Rightarrow> nat option \<Rightarrow> 'w shared_state \<Rightarrow> 'w shared_state" where
  "shared_unmap api this s =
     (case this of None \<Rightarrow> s
      | Some i \<Rightarrow> let (m, w) = unmap api (pointee s i) (sh_world s) in set_block i m (sh_count s i) w s)"

definition shared_swap :: "nat option \<Rightarrow> nat option \<Rightarrow> nat option \<times> nat option" where
  "shared_swap this other = (other, this)"

text \<open>Without a mapping \<open>sync\<close> leaves the error code of the caller as it was.\<close>

definition shared_sync ::
  "'w win32 \<Rightarrow> nat option \<Rightarrow> error_code \<Rightarrow> 'w shared_state \<Rightarrow> error_code \<times> 'w shared_state" where
  "shared_sync api this error s =
     (case this of None \<Rightarrow> (error, s)
      | Some i \<Rightarrow> let (error, w) = mmap_sync api (pointee s i) (sh_world s) in (error, s\<lparr>sh_world := w\<rparr>))"

definition shared_eq :: "nat option \<Rightarrow> nat option \<Rightarrow> bool" where
  "shared_eq a b \<longleftrightarrow> a = b"

definition shared_ne :: "nat option \<Rightarrow> nat option \<Rightarrow> bool" where
  "shared_ne a b \<longleftrightarrow> \<not> shared_eq a b"

text \<open>
  The order of handles is that of the addresses of the mapping objects they point to; \<open>addr\<close>
  gives the address that the allocation of a block returned.
\<close>

definition shared_address :: "(nat \<Rightarrow> u64) \<Rightarrow> nat option \<Rightarrow> u64" where
  "shared_address addr this = (case this of None \<Rightarrow> 0 | Some i \<Rightarrow> addr i)"

definition shared_less :: "(nat \<Rightarrow> u64) \<Rightarrow> nat option \<Rightarrow> nat option \<Rightarrow> bool" where
  "shared_less addr a b \<longleftrightarrow> shared_address addr a < shared_address addr b"

definition shared_less_eq :: "(nat \<Rightarrow> u64) \<Rightarrow> nat option \<Rightarrow> nat option \<Rightarrow> bool" where
  "shared_less_eq addr a b \<longleftrightarrow> shared_address addr a \<le> shared_address addr b"

definition shared_greater :: "(nat \<Rightarrow> u64) \<Rightarrow> nat option \<Rightarrow> nat option \<Rightarrow> bool" where
  "shared_greater addr a b \<longleftrightarrow> shared_address addr a > shared_address addr b"

definition shared_greater_eq :: "(nat \<Rightarrow> u64) \<Rightarrow> nat option \<Rightarrow> nat option \<Rightarrow> bool" where
  "shared_greater_eq addr a b \<longleftrightarrow> shared_address addr a \<ge> shared_address addr b"

lemmas shared_order_defs = shared_less_def shared_less_eq_def shared_greater_def shared_greater_eq_def

text \<open>
  Distinct live objects have distinct addresses, none of them null; then the six operators are
  those of a linear order in which a handle without a mapping comes first.
\<close>

lemma shared_order:
  assumes "inj_on addr I" and "0 \<notin> addr ` I" and "set_option a \<subseteq> I" and "set_option b \<subseteq> I"
  shows "shared_eq a b \<longleftrightarrow> shared_address addr a = shared_address addr b"
    and "shared_less_eq addr a b \<longleftrightarrow> shared_less addr a b \<or> shared_eq a b"
    and "shared_greater addr a b \<longleftrightarrow> \<not> shared_less_eq addr a b"
    and "shared_greater_eq addr a b \<longleftrightarrow> \<not> shared_less addr a b"
    and "shared_less_eq addr None b"
proof -
  show eq: "shared_eq a b \<longleftrightarrow> shared_address addr a = shared_address addr b"
    using assms by (cases a; cases b) (auto simp: shared_eq_def shared_address_def inj_on_eq_iff image_iff)
  show "shared_less_eq addr a b \<longleftrightarrow> shared_less addr a b \<or> shared_eq a b"
    unfolding eq shared_order_defs by auto
qed (auto simp: shared_order_defs shared_address_def)

subsection \<open>Observers\<close>

definition shared_file_handle :: "nat option \<Rightarrow> 'w shared_state \<Rightarrow> u64" where
  "shared_file_handle this s = (case this of None \<Rightarrow> invalid_handle_value | Some i \<Rightarrow> mm_file_handle (pointee s i))"

definition shared_mapping_handle :: "nat option \<Rightarrow> 'w shared_state \<Rightarrow> u64" where
  "shared_mapping_handle this s = (case this of None \<Rightarrow> invalid_handle_value | Some i \<Rightarrow> mapping_handle (pointee s i))"

definition shared_is_open :: "nat option \<Rightarrow> 'w shared_state \<Rightarrow> bool" where
  "shared_is_open this s = (case this of None \<Rightarrow> False | Some i \<Rightarrow> is_open (pointee s i))"

definition shared_empty :: "nat option \<Rightarrow> 'w shared_state \<Rightarrow> bool" where
  "shared_empty this s = (case this of None \<Rightarrow> True | Some i \<Rightarrow> mmap_empty (pointee s i))"

definition shared_length :: "nat option \<Rightarrow> 'w shared_state \<Rightarrow> u64" where
  "shared_length this s = (case this of None \<Rightarrow> 0 | Some i \<Rightarrow> mm_length (pointee s i))"

definition shared_mapped_length :: "nat option \<Rightarrow> 'w shared_state \<Rightarrow> u64" where
  "shared_mapped_length this s = (case this of None \<Rightarrow> 0 | Some i \<Rightarrow> mm_mapped_length (pointee s i))"

text \<open>The \<open>const\<close> overload of \<open>data\<close> looks at the pointer, the other one and the iterators do not.\<close>

definition shared_data :: "nat option \<Rightarrow> 'w shared_state \<Rightarrow> u64" where
  "shared_data this s = (case this of None \<Rightarrow> 0 | Some i \<Rightarrow> mm_data (pointee s i))"

definition shared_data_write :: "nat option \<Rightarrow> 'w shared_state \<Rightarrow> u64 res" where
  "shared_data_write this s = (case this of None \<Rightarrow> Inl Null_deref | Some i \<Rightarrow> Inr (mm_data (pointee s i)))"

definition shared_begin :: "nat option \<Rightarrow> 'w shared_state \<Rightarrow> u64 res" where
  "shared_begin this s = (case this of None \<Rightarrow> Inl Null_deref | Some i \<Rightarrow> Inr (mmap_begin (pointee s i)))"

definition shared_end :: "nat option \<Rightarrow> 'w shared_state \<Rightarrow> u64 res" where
  "shared_end this s = (case this of None \<Rightarrow> Inl Null_deref | Some i \<Rightarrow> Inr (mmap_end (pointee s i)))"

definition shared_rbegin :: "nat option \<Rightarrow> 'w shared_state \<Rightarrow> u64 res" where
  "shared_rbegin this s = (case this of None \<Rightarrow> Inl Null_deref | Some i \<Rightarrow> Inr (mmap_rbegin (pointee s i)))"

definition shared_rend :: "nat option \<Rightarrow> 'w shared_state \<Rightarrow> u64 res" where
  "shared_rend this s = (case this of None \<Rightarrow> Inl Null_deref | Some i \<Rightarrow> Inr (mmap_rend (pointee s i)))"

definition shared_get :: "'w win32 \<Rightarrow> nat option \<Rightarrow> u64 \<Rightarrow> 'w shared_state \<Rightarrow> u8 res" where
  "shared_get api this k s =
     (case this of None \<Rightarrow> Inl Null_deref | Some i \<Rightarrow> mmap_get api (pointee s i) k (sh_world s))"

definition shared_put :: "'w win32 \<Rightarrow> nat option \<Rightarrow> u64 \<Rightarrow> u8 \<Rightarrow> 'w shared_state \<Rightarrow> 'w shared_state res" where
  "shared_put api this k b s =
     (case this of None \<Rightarrow> Inl Null_deref
      | Some i \<Rightarrow> (case mmap_put api (pointee s i) k b (sh_world s) of
                    Inl e \<Rightarrow> Inl e | Inr w \<Rightarrow> Inr (s\<lparr>sh_world := w\<rparr>)))"

subsection \<open>A client\<close>

text \<open>
  A client owns a list of handles, a default constructed or destroyed one being None, and uses
  them in any order. Two conditions keep to what the platform documents: the requested range does
  not wrap around, and a mapping that is established is not one of no bytes.
\<close>

definition some_bytes :: "nat option \<Rightarrow> 'w shared_state \<Rightarrow> bool" where
  "some_bytes h s \<longleftrightarrow> shared_data h s \<noteq> 0 \<longrightarrow> shared_length h s \<noteq> 0"

inductive shared_step ::
  "'w win32 \<Rightarrow> access_mode \<Rightarrow> nat option list \<times> 'w shared_state \<Rightarrow> nat option list \<times> 'w shared_state \<Rightarrow> bool"
  for api mode where
  Sh_declare: "shared_step api mode (hs, s) (hs @ [shared_default], s)"
| Sh_copy: "x < length hs \<Longrightarrow> y < length hs \<Longrightarrow>
    shared_copy_assign api mode (hs ! x) (hs ! y) s = (h, s') \<Longrightarrow>
    shared_step api mode (hs, s) (hs[x := h], s')"
| Sh_move: "x < length hs \<Longrightarrow> y < length hs \<Longrightarrow> x \<noteq> y \<Longrightarrow>
    shared_move_assign api mode (hs ! x) (hs ! y) s = (h, h', s') \<Longrightarrow>
    shared_step api mode (hs, s) (hs[x := h, y := h'], s')"
| Sh_map: "x < length hs \<Longrightarrow> unat offset + unat len < 2 ^ 64 \<Longrightarrow>
    shared_map api mode (hs ! x) token offset len s = (h, error, s') \<Longrightarrow> some_bytes h s' \<Longrightarrow>
    shared_step api mode (hs, s) (hs[x := h], s')"
| Sh_unmap: "x < length hs \<Longrightarrow> shared_step api mode (hs, s) (hs, shared_unmap api (hs ! x) s)"
| Sh_sync: "x < length hs \<Longrightarrow> shared_sync api (hs ! x) error s = (error', s') \<Longrightarrow>
    shared_step api mode (hs, s) (hs, s')"
| Sh_swap: "x < length hs \<Longrightarrow> y < length hs \<Longrightarrow> shared_swap (hs ! x) (hs ! y) = (h, h') \<Longrightarrow>
    shared_step api mode (hs, s) (hs[x := h, y := h'], s)"
| Sh_put: "x < length hs \<Longrightarrow> shared_put api (hs ! x) k b s = Inr s' \<Longrightarrow> shared_step api mode (hs, s) (hs, s')"
| Sh_drop: "x < length hs \<Longrightarrow> shared_step api mode (hs, s) (hs[x := None], unshare api mode (hs ! x) s)"
| Sh_env: "keeps api (sh_world s) w \<Longrightarrow> shared_step api mode (hs, s) (hs, s\<lparr>sh_world := w\<rparr>)"

inductive shared_run :: "'w win32 \<Rightarrow> access_mode \<Rightarrow> nat option list \<times> 'w shared_state \<Rightarrow> bool" for api mode where
  Shared_start: "shared_run api mode ([], \<lparr>sh_world = w, sh_blocks = []\<rparr>)"
| Shared_step: "shared_run api mode st \<Longrightarrow> shared_step api mode st st' \<Longrightarrow> shared_run api mode st'"

subsection \<open>Blocks\<close>

lemma set_block_simps [simp]:
  "sh_world (set_block i m c w s) = w" "length (sh_blocks (set_block i m c w s)) = length (sh_blocks s)"
  "i < length (sh_blocks s) \<Longrightarrow> pointee (set_block i m c w s) j = (if j = i then m else pointee s j)"
  "i < length (sh_blocks s) \<Longrightarrow> sh_count (set_block i m c w s) j = (if j = i then c else sh_count s j)"
  by (simp_all add: set_block_def pointee_def sh_count_def nth_list_update)

lemma set_world_simps [simp]:
  "pointee (s\<lparr>sh_world := w\<rparr>) i = pointee s i" "sh_count (s\<lparr>sh_world := w\<rparr>) i = sh_count s i"
  by (simp_all add: pointee_def sh_count_def)

interpretation block_count: shared_count "\<lambda>s. length (sh_blocks s)" sh_count "\<lambda>i. share (Some i)"
  "\<lambda>i. unshare api mode (Some i)" for api :: "'w win32" and mode
  by unfold_locales (auto split: prod.splits)

subsection \<open>The invariant\<close>

text \<open>
  For a multiset \<open>H\<close> of handles: a block's use count is the number of handles to it; a block
  without handles is closed; a mapping with bytes is live; and no two of them share a view.
\<close>

abbreviation counted :: "nat option multiset \<Rightarrow> 'w shared_state \<Rightarrow> bool" where
  "counted H s \<equiv> block_count.counts (\<lambda>i. count H (Some i)) s"

definition block_ok :: "'w win32 \<Rightarrow> 'w \<Rightarrow> basic_mmap \<Rightarrow> nat \<Rightarrow> bool" where
  "block_ok api w m c \<longleftrightarrow> (c = 0 \<longrightarrow> \<not> is_open m \<and> mm_data m = 0) \<and> (mm_data m \<noteq> 0 \<longrightarrow> live api w m)"

definition views_apart :: "'w shared_state \<Rightarrow> bool" where
  "views_apart s \<longleftrightarrow> (\<forall>i < length (sh_blocks s). \<forall>j < length (sh_blocks s). i \<noteq> j \<longrightarrow>
     mm_data (pointee s i) \<noteq> 0 \<longrightarrow> mm_data (pointee s j) \<noteq> 0 \<longrightarrow>
     get_mapping_start (pointee s i) \<noteq> get_mapping_start (pointee s j))"

definition shared_inv :: "'w win32 \<Rightarrow> nat option multiset \<Rightarrow> 'w shared_state \<Rightarrow> bool" where
  "shared_inv api H s \<longleftrightarrow> counted H s
     \<and> (\<forall>i < length (sh_blocks s). block_ok api (sh_world s) (pointee s i) (sh_count s i)) \<and> views_apart s"

lemma shared_invD:
  assumes "shared_inv api H s"
  shows "counted H s" and "views_apart s"
    and "i < length (sh_blocks s) \<Longrightarrow> block_ok api (sh_world s) (pointee s i) (sh_count s i)"
    and "Some i \<in># H \<Longrightarrow> i < length (sh_blocks s) \<and> 0 < sh_count s i"
    and "i < length (sh_blocks s) \<Longrightarrow> sh_count s i = count H (Some i)"
proof -
  show c: "counted H s" and "views_apart s"
    and "i < length (sh_blocks s) \<Longrightarrow> block_ok api (sh_world s) (pointee s i) (sh_count s i)"
    using assms by (simp_all add: shared_inv_def)
  show "Some i \<in># H \<Longrightarrow> i < length (sh_blocks s) \<and> 0 < sh_count s i"
    using block_count.counts_bound [OF c, of i] by simp
  show "i < length (sh_blocks s) \<Longrightarrow> sh_count s i = count H (Some i)"
    using block_count.counts_uses [OF c] by simp
qed

lemma counts_set_block [simp]:
  "i < length (sh_blocks s) \<Longrightarrow> block_count.counts r (set_block i m (sh_count s i) w s) = block_count.counts r s"
  by (rule block_count.counts_cong) (auto simp: fun_eq_iff)

lemma counts_world [simp]: "block_count.counts r (s\<lparr>sh_world := w\<rparr>) = block_count.counts r s"
  by (rule block_count.counts_cong) (auto simp: fun_eq_iff)

lemma shared_inv_None [simp]: "shared_inv api (add_mset None H) s = shared_inv api H s"
  by (simp add: shared_inv_def)

text \<open>Nothing is mapped at address 0, so a view said to be based there is none.\<close>

lemma shared_inv_world0:
  assumes "shared_inv api H s" and "keeps_except api 0 (sh_world s) w"
  shows "shared_inv api H (s\<lparr>sh_world := w\<rparr>)"
proof -
  have "block_ok api (sh_world s) m c \<Longrightarrow> block_ok api w m c" for m c
    using live_keeps_except [OF _ assms(2), of m] by (auto simp: block_ok_def) (auto simp: live_def)
  with assms(1) show ?thesis by (auto simp: shared_inv_def views_apart_def)
qed

lemmas shared_inv_world = shared_inv_world0 [OF _ keeps_keeps_except]

text \<open>Every other live mapping is in a view of its own.\<close>

lemma other_start:
  assumes "shared_inv api H s" and "i < length (sh_blocks s)" and "j < length (sh_blocks s)"
    and "j \<noteq> i" and "mm_data (pointee s j) \<noteq> 0"
  shows "get_mapping_start (pointee s j) \<noteq> get_mapping_start (pointee s i)"
proof (cases "mm_data (pointee s i) = 0")
  case True
  then have "get_mapping_start (pointee s i) = 0" by (simp add: get_mapping_start_def)
  with shared_invD(3) [OF assms(1,3)] assms(5) show ?thesis by (simp add: block_ok_def live_def)
next
  case False
  with shared_invD(2) [OF assms(1)] assms(2-5) show ?thesis by (simp add: views_apart_def)
qed

lemma fresh_start:
  assumes "shared_inv api H s" and "j < length (sh_blocks s)" and "mm_data (pointee s j) \<noteq> 0"
    and "\<forall>a p. view_of api (sh_world s) a \<noteq> Some (b, p)"
  shows "get_mapping_start (pointee s j) \<noteq> b"
  using shared_invD(3) [OF assms(1,2)] assms(3,4) live_start_taken unfolding block_ok_def by metis

text \<open>The mapping object of one block, or its count, is replaced, and other views are left alone.\<close>

lemma shared_inv_replace:
  assumes inv: "shared_inv api H s" and i: "i < length (sh_blocks s)"
    and counts: "counted H' (set_block i m c w s)"
    and frame: "keeps_except api (get_mapping_start (pointee s i)) (sh_world s) w"
    and new: "block_ok api w m c"
    and fresh: "mm_data m \<noteq> 0 \<longrightarrow> (\<forall>a p. view_of api (sh_world s) a \<noteq> Some (get_mapping_start m, p))"
  shows "shared_inv api H' (set_block i m c w s)"
proof -
  have "block_ok api w (pointee s j) (sh_count s j)" if "j < length (sh_blocks s)" "j \<noteq> i" for j
    using shared_invD(3) [OF inv that(1)] live_keeps_except [OF _ frame other_start [OF inv i that]]
    by (auto simp: block_ok_def)
  moreover have "views_apart (set_block i m c w s)"
  proof -
    have "get_mapping_start (pointee s j) \<noteq> get_mapping_start m"
      if "j < length (sh_blocks s)" "mm_data (pointee s j) \<noteq> 0" "mm_data m \<noteq> 0" for j
      using fresh_start [OF inv that(1,2)] fresh that(3) by blast
    note f = this this [symmetric]
    show ?thesis using shared_invD(2) [OF inv] i f by (auto simp: views_apart_def)
  qed
  ultimately show ?thesis using new i counts by (simp add: shared_inv_def)
qed

text \<open>A change of the count only.\<close>

lemma shared_inv_recount:
  assumes inv: "shared_inv api H s" and i: "i < length (sh_blocks s)"
    and counts: "counted H' (set_block i (pointee s i) c (sh_world s) s)" and "c \<noteq> 0"
  shows "shared_inv api H' (set_block i (pointee s i) c (sh_world s) s)"
proof -
  have "pointee (set_block i (pointee s i) c (sh_world s) s) = pointee s"
    using i by (auto simp: fun_eq_iff)
  with assms shared_invD(1-3) [OF inv] show ?thesis
    by (auto simp: shared_inv_def views_apart_def block_ok_def)
qed

lemma make_shared_inv:
  assumes "shared_inv api H s" and "make_shared m s = (h, s')"
    and "mm_data m \<noteq> 0 \<longrightarrow> live api (sh_world s) m
      \<and> (\<forall>j < length (sh_blocks s). mm_data (pointee s j) \<noteq> 0 \<longrightarrow> get_mapping_start (pointee s j) \<noteq> get_mapping_start m)"
  shows "shared_inv api (add_mset h H) s'"
proof -
  let ?n = "length (sh_blocks s)"
  from assms(2) have h: "h = Some ?n" and s': "s' = s\<lparr>sh_blocks := sh_blocks s @ [(m, 1)]\<rparr>"
    by (auto simp: make_shared_def)
  have p: "pointee s' j = (if j < ?n then pointee s j else m)"
    "sh_count s' j = (if j < ?n then sh_count s j else 1)" if "j < Suc ?n" for j
    using that by (auto simp: s' pointee_def sh_count_def nth_append less_Suc_eq)
  have l: "length (sh_blocks s') = Suc ?n" "sh_world s' = sh_world s" by (simp_all add: s')
  have "counted (add_mset h H) s'"
    using shared_invD(1) [OF assms(1)] by (auto simp: block_count.counts_def l p h less_Suc_eq)
  moreover have "views_apart s'"
    using shared_invD(2) [OF assms(1)] assms(3) by (auto simp: views_apart_def l p less_Suc_eq dest: sym)
  moreover have "block_ok api (sh_world s') (pointee s' j) (sh_count s' j)" if "j < Suc ?n" for j
    using shared_invD(3) [OF assms(1), of j] assms(3) that by (auto simp: l p block_ok_def)
  ultimately show ?thesis by (simp add: shared_inv_def l)
qed

lemma share_inv:
  assumes "shared_inv api H s" and "h \<in># H"
  shows "shared_inv api (add_mset h H) (share h s)"
proof (cases h)
  case (Some i)
  from shared_invD(4) [OF assms(1)] assms(2) have i: "i < length (sh_blocks s)" by (simp add: Some)
  have "block_count.counts ((\<lambda>i. count H (Some i))(i := Suc (count H (Some i)))) (share (Some i) s)"
    by (rule block_count.counts_inc [OF shared_invD(1) [OF assms(1)] i])
  also have "(\<lambda>i. count H (Some i))(i := Suc (count H (Some i))) = (\<lambda>j. count (add_mset (Some i) H) (Some j))" by auto
  finally show ?thesis unfolding Some share.simps by (intro shared_inv_recount [OF assms(1) i]) simp_all
qed (use assms in simp)

lemma block_closed:
  "block_ok api w m c \<Longrightarrow> block_ok api w' (fst (unmap api m w'')) c'"
  by (cases "is_open m") (auto simp: block_ok_def live_def unmap_closed unmap_def Let_def is_open_def)

lemma unshare_inv:
  assumes docs: "memory_docs api" and inv: "shared_inv api (add_mset h H) s"
  shows "shared_inv api H (unshare api mode h s)"
proof (cases h)
  case (Some i)
  from shared_invD(4) [OF inv, of i] have i: "i < length (sh_blocks s)" by (simp add: Some)
  have c: "sh_count s i = Suc (count H (Some i))" using shared_invD(5) [OF inv i] by (simp add: Some)
  have "block_count.counts ((\<lambda>j. count (add_mset h H) (Some j))(i := count (add_mset h H) (Some i) - 1))
      (unshare api mode (Some i) s)"
    by (rule block_count.counts_dec [OF shared_invD(1) [OF inv]]) (simp add: Some)
  also have "(\<lambda>j. count (add_mset h H) (Some j))(i := count (add_mset h H) (Some i) - 1) = (\<lambda>j. count H (Some j))"
    by (auto simp: Some)
  finally have counts: "counted H (unshare api mode (Some i) s)" .
  show ?thesis
  proof (cases "sh_count s i = 1")
    case True
    obtain m w where d: "mmap_destroy api mode (pointee s i) (sh_world s) = (m, w)" by force
    have u: "unshare api mode (Some i) s = set_block i m 0 w s" using True by (simp add: d)
    have "m = fst (unmap api (pointee s i) (conditional_sync api mode (pointee s i) (sh_world s)))"
      using d by (simp add: mmap_destroy_def)
    then have m: "block_ok api w m 0" using block_closed [OF shared_invD(3) [OF inv i]] by simp
    then have "mm_data m = 0" by (simp add: block_ok_def)
    moreover have "keeps_except api (get_mapping_start (pointee s i)) (sh_world s) w"
      using mmap_destroy_keeps_except [OF docs, of "pointee s i" "sh_world s" mode] by (simp add: d)
    ultimately show ?thesis
      unfolding Some u using m counts [unfolded u] by (intro shared_inv_replace [OF inv i]) simp_all
  next
    case False
    then have u: "unshare api mode (Some i) s = set_block i (pointee s i) (sh_count s i - 1) (sh_world s) s" by simp
    show ?thesis unfolding Some u using counts [unfolded u] False c by (intro shared_inv_recount [OF inv i]) simp_all
  qed
qed (use inv in simp)

subsection \<open>Every operation keeps the invariant\<close>

lemma set_block_same:
  "i < length (sh_blocks s) \<Longrightarrow> set_block i (pointee s i) (sh_count s i) w s = s\<lparr>sh_world := w\<rparr>"
  by (simp add: set_block_def pointee_def sh_count_def)

lemma mmap_move_closed: "mmap_move m = (m', rest) \<Longrightarrow> m' = m \<and> \<not> is_open rest"
  by (auto simp: mmap_move_def is_open_def)

lemma shared_copy_assign_inv:
  assumes "memory_docs api" and "shared_inv api (add_mset this H) s" and "other \<in># add_mset this H"
  shows "shared_inv api (add_mset other H) (unshare api mode this (share other s))"
  by (rule unshare_inv [OF assms(1)]) (use share_inv [OF assms(2,3)] in \<open>simp add: add_mset_commute\<close>)

text \<open>What \<open>map_impl\<close> does to a handle without and with a mapping object.\<close>

lemma shared_map_None:
  assumes "make_mmap_token api token offset len mode (sh_world s) = (m, error, w)"
  shows "shared_map api mode None token offset len s =
    (if error \<noteq> 0 then (None, error, s\<lparr>sh_world := w\<rparr>)
     else let (h, s1) = make_shared m (s\<lparr>sh_world := w\<rparr>) in (h, error, s1))"
proof (cases "error = 0")
  case False
  with assms have "m = default_mmap" by (auto simp: make_mmap_token_def dest: map_token_error)
  with False show ?thesis by (simp add: shared_map_def assms mmap_destroy_closed)
next
  case True
  obtain m' rest where "mmap_move m = (m', rest)" by force
  note move = this mmap_move_closed [OF this]
  obtain h s1 where mk: "make_shared m (s\<lparr>sh_world := w\<rparr>) = (h, s1)" by force
  show ?thesis using move True by (simp add: shared_map_def assms shared_of_mmap_def mk mmap_destroy_closed)
qed

lemma shared_map_inv:
  assumes docs: "memory_docs api" and inv: "shared_inv api (add_mset this H) s"
    and small: "unat offset + unat len < 2 ^ 64"
    and run: "shared_map api mode this token offset len s = (h, error, s')" and bytes: "some_bytes h s'"
  shows "shared_inv api (add_mset h H) s'"
proof (cases this)
  case None
  obtain m e w where mk: "make_mmap_token api token offset len mode (sh_world s) = (m, e, w)" by (metis prod_cases3)
  note mapped = map_token_spec [OF docs mk [unfolded make_mmap_token_def] _ small, simplified]
  have "get_mapping_start default_mmap = 0" by (simp add: get_mapping_start_def)
  with mapped(2) have inv': "shared_inv api H (s\<lparr>sh_world := w\<rparr>)"
    using inv by (intro shared_inv_world0) (simp_all add: None)
  show ?thesis
  proof (cases "e = 0")
    case False
    with run inv' show ?thesis by (simp add: None shared_map_None [OF mk])
  next
    case True
    obtain h1 s1 where sh: "make_shared m (s\<lparr>sh_world := w\<rparr>) = (h1, s1)" by force
    with run True have r: "h = h1" "s' = s1" by (simp_all add: None shared_map_None [OF mk])
    have p: "h = Some (length (sh_blocks s))" "pointee s' (length (sh_blocks s)) = m"
      using sh by (auto simp: r make_shared_def pointee_def)
    with bytes have "mm_data m \<noteq> 0 \<Longrightarrow> mm_length m \<noteq> 0"
      by (simp add: some_bytes_def shared_data_def shared_length_def)
    with mapped(4) True have new: "mm_data m \<noteq> 0 \<Longrightarrow> live api w m
        \<and> (\<forall>a p. view_of api (sh_world s) a \<noteq> Some (get_mapping_start m, p))" by blast
    have H: "shared_inv api H s" using inv by (simp add: None)
    have "shared_inv api (add_mset h1 H) s1"
      by (rule make_shared_inv [OF inv' sh]) (use new fresh_start [OF H] in simp)
    then show ?thesis by (simp add: r)
  qed
next
  case (Some i)
  from shared_invD(4) [OF inv, of i] have i: "i < length (sh_blocks s)" "sh_count s i \<noteq> 0"
    by (simp_all add: Some)
  obtain m e w where mk: "map_token api (pointee s i) token offset len mode (sh_world s) = (m, e, w)"
    by (metis prod_cases3)
  from run have r: "h = this" "s' = set_block i m (sh_count s i) w s" "error = e"
    by (simp_all add: shared_map_def Some mk)
  have old: "mm_data (pointee s i) \<noteq> 0 \<longrightarrow> live api (sh_world s) (pointee s i)"
    using shared_invD(3) [OF inv i(1)] by (simp add: block_ok_def)
  note mapped = map_token_spec [OF docs mk old small]
  show ?thesis
  proof (cases "e = 0")
    case False
    with mapped(1) inv i(1) show ?thesis by (simp add: r set_block_same shared_inv_world)
  next
    case True
    have "mm_data m \<noteq> 0 \<Longrightarrow> mm_length m \<noteq> 0"
      using bytes i(1) by (simp add: r Some some_bytes_def shared_data_def shared_length_def)
    with mapped(4) True have new: "mm_data m \<noteq> 0 \<Longrightarrow> live api w m
        \<and> (\<forall>a p. view_of api (sh_world s) a \<noteq> Some (get_mapping_start m, p))" by blast
    with i(2) show ?thesis
      unfolding r using shared_invD(1) [OF inv] i(1)
      by (intro shared_inv_replace [OF inv i(1) _ mapped(2)]) (auto simp: block_ok_def)
  qed
qed

lemma shared_unmap_inv:
  assumes "memory_docs api" and inv: "shared_inv api H s" and "h \<in># H"
  shows "shared_inv api H (shared_unmap api h s)"
proof (cases h)
  case (Some i)
  obtain m w where u: "unmap api (pointee s i) (sh_world s) = (m, w)" by force
  from shared_invD(4) [OF inv] assms(3) have i: "i < length (sh_blocks s)" by (simp add: Some)
  have ok: "block_ok api w m (sh_count s i)"
    using block_closed [OF shared_invD(3) [OF inv i], of w "sh_world s" "sh_count s i"] by (simp add: u)
  have "mm_data m = 0"
    using block_closed [OF shared_invD(3) [OF inv i], of w "sh_world s" 0] by (simp add: u block_ok_def)
  moreover have "counted H (set_block i m (sh_count s i) w s)" using shared_invD(1) [OF inv] i by simp
  moreover have "keeps_except api (get_mapping_start (pointee s i)) (sh_world s) w"
    using unmap_keeps_except [OF assms(1), of "pointee s i" "sh_world s"] by (simp add: u)
  ultimately show ?thesis using ok i
    by (simp add: shared_unmap_def Some u) (intro shared_inv_replace [OF inv i]; simp)
qed (use inv in \<open>simp add: shared_unmap_def\<close>)

lemma live_store: "memory_docs api \<Longrightarrow> live api (store_byte api a b w) m = live api w m"
  using memory_docsD(2) [of api] by (simp add: live_def view_shows_def store_docs_def)

lemma shared_put_inv:
  assumes "memory_docs api" and "shared_inv api H s" and "shared_put api h k b s = Inr s'"
  shows "shared_inv api H s'"
proof -
  from assms(3) obtain a where "s' = s\<lparr>sh_world := store_byte api a b (sh_world s)\<rparr>"
    by (auto simp: shared_put_def mmap_put_def split: option.splits sum.splits)
  with assms(1,2) show ?thesis
    by (auto simp: shared_inv_def views_apart_def block_ok_def live_store)
qed

lemma shared_sync_inv:
  assumes "memory_docs api" and "shared_inv api H s" and "shared_sync api h e s = (e', s')"
  shows "shared_inv api H s'"
  using assms(2,3) shared_inv_world [OF assms(2) mmap_sync_keeps [OF assms(1)]]
  by (auto simp: shared_sync_def split: option.splits prod.splits) (metis snd_conv)

lemma shared_step_inv:
  assumes "memory_docs api" and "shared_step api mode st st'" and "shared_inv api (mset (fst st)) (snd st)"
  shows "shared_inv api (mset (fst st')) (snd st')"
  using assms(2,3)
proof (induction rule: shared_step.induct)
  case (Sh_copy x hs y s h s')
  have hs: "mset hs = add_mset (hs ! x) (mset hs - {#hs ! x#})" using Sh_copy(1) by simp
  have "shared_inv api (add_mset (hs ! y) (mset hs - {#hs ! x#})) (unshare api mode (hs ! x) (share (hs ! y) s))"
    by (rule shared_copy_assign_inv [OF assms(1)]) (use Sh_copy in simp_all)
  with Sh_copy show ?case by (auto simp: shared_copy_assign_def mset_update)
next
  case (Sh_move x hs y s h h' s')
  have "shared_inv api (mset hs - {#hs ! x#}) (unshare api mode (hs ! x) s)"
    by (rule unshare_inv [OF assms(1)]) (use Sh_move in simp)
  with Sh_move show ?case by (auto simp: shared_move_assign_def mset_update)
next
  case (Sh_map x hs offset len token s h error s')
  have "shared_inv api (add_mset h (mset hs - {#hs ! x#})) s'"
    by (rule shared_map_inv [OF assms(1) _ Sh_map(2-4)]) (use Sh_map in simp)
  with Sh_map(1) show ?case by (simp add: mset_update)
next
  case (Sh_unmap x hs s)
  then show ?case using shared_unmap_inv [OF assms(1)] by simp
next
  case (Sh_sync x hs error s error' s')
  then show ?case using shared_sync_inv [OF assms(1)] by simp
next
  case (Sh_swap x hs y h h' s)
  then show ?case using mset_swap [of y hs x] by (auto simp: shared_swap_def)
next
  case (Sh_put x hs k b s s')
  then show ?case using shared_put_inv [OF assms(1)] by simp
next
  case (Sh_drop x hs s)
  have "shared_inv api (mset hs - {#hs ! x#}) (unshare api mode (hs ! x) s)"
    by (rule unshare_inv [OF assms(1)]) (use Sh_drop in simp)
  with Sh_drop show ?case by (simp add: mset_update)
qed (simp_all add: shared_default_def shared_inv_world)

lemma shared_run_inv:
  assumes "memory_docs api" and "shared_run api mode st"
  shows "shared_inv api (mset (fst st)) (snd st)"
  using assms(2)
proof (induction rule: shared_run.induct)
  case (Shared_start w)
  show ?case by (simp add: shared_inv_def block_count.counts_def views_apart_def)
next
  case (Shared_step st st')
  then show ?case using shared_step_inv [OF assms(1)] by blast
qed

subsection \<open>Properties\<close>

text \<open>The position in the file of the byte shown at an address.\<close>

definition file_pos :: "'w win32 \<Rightarrow> 'w \<Rightarrow> u64 \<Rightarrow> nat option" where
  "file_pos api w a = map_option snd (view_of api w a)"

lemma live_byte:
  assumes "live api w m" and "k < mm_length m"
  shows "\<exists>p. view_of api w (mm_data m + k) = Some (get_mapping_start m, p)"
proof -
  from assms(1) obtain p where
    "\<forall>i < unat (mm_length m). view_of api w (mm_data m + of_nat i) = Some (get_mapping_start m, p + i)"
    by (auto simp: live_def view_shows_def)
  moreover from assms(2) have "unat k < unat (mm_length m)" by (simp add: word_less_nat_alt)
  ultimately have "view_of api w (mm_data m + of_nat (unat k)) = Some (get_mapping_start m, p + unat k)" by blast
  then show ?thesis by simp
qed

lemma shared_run_byte:
  assumes "memory_docs api" and "shared_run api mode (hs, s)" and "h \<in> set hs"
    and "shared_data h s \<noteq> 0" and "k < shared_length h s"
  shows "\<exists>c p. view_of api (sh_world s) (shared_data h s + k) = Some (c, p)"
    and "shared_get api h k s = Inr (load_byte api (sh_world s) (shared_data h s + k))"
proof -
  note inv = shared_run_inv [OF assms(1,2), simplified]
  from assms(4) obtain i where h: "h = Some i" by (cases h) (auto simp: shared_data_def)
  with shared_invD(4) [OF inv, of i] assms(3) have i: "i < length (sh_blocks s)" by simp
  from shared_invD(3) [OF inv i] assms(4) have "live api (sh_world s) (pointee s i)"
    by (simp add: block_ok_def h shared_data_def)
  from live_byte [OF this, of k] assms(5) show "\<exists>c p. view_of api (sh_world s) (shared_data h s + k) = Some (c, p)"
    by (auto simp: h shared_data_def shared_length_def)
  from assms(4,5) show "shared_get api h k s = Inr (load_byte api (sh_world s) (shared_data h s + k))"
    by (simp add: h shared_get_def mmap_get_def mmap_ref_def shared_data_def shared_length_def linorder_not_le)
qed

text \<open>
  C30: the ownership of shared mappings. However a client copies, moves, assigns, swaps and drops
  handles and maps and unmaps through them: the use count of a mapping is the number of handles to
  it, a mapping without a handle has been unmapped, every byte in range of a handle with data can
  be read and lies in a live view of the file, and two mappings never share a view.
\<close>

theorem shared_mappings_invariant:
  assumes "memory_docs api" and "shared_run api mode (hs, s)"
  shows "(\<forall>i < length (sh_blocks s). sh_count s i = count_list hs (Some i)
           \<and> (Some i \<notin> set hs \<longrightarrow> \<not> is_open (pointee s i)))
       \<and> (\<forall>i. Some i \<in> set hs \<longrightarrow> i < length (sh_blocks s))
       \<and> (\<forall>h \<in> set hs. \<forall>k < shared_length h s. shared_data h s \<noteq> 0 \<longrightarrow>
           (\<exists>c p. view_of api (sh_world s) (shared_data h s + k) = Some (c, p))
           \<and> shared_get api h k s = Inr (load_byte api (sh_world s) (shared_data h s + k)))
       \<and> (\<forall>i j. i \<noteq> j \<longrightarrow> Some i \<in> set hs \<longrightarrow> Some j \<in> set hs \<longrightarrow>
           shared_data (Some i) s \<noteq> 0 \<longrightarrow> shared_data (Some j) s \<noteq> 0 \<longrightarrow>
           get_mapping_start (pointee s i) \<noteq> get_mapping_start (pointee s j))"
proof -
  note inv = shared_run_inv [OF assms, simplified]
  have count: "sh_count s i = count_list hs (Some i)" if "i < length (sh_blocks s)" for i
    using shared_invD(5) [OF inv that] by (simp add: count_mset)
  have "\<not> is_open (pointee s i)" if i: "i < length (sh_blocks s)" "Some i \<notin> set hs" for i
    using shared_invD(3) [OF inv i(1)] count [OF i(1)] i(2) by (simp add: block_ok_def)
  moreover have "\<forall>i. Some i \<in> set hs \<longrightarrow> i < length (sh_blocks s)"
    using shared_invD(4) [OF inv] by simp
  ultimately show ?thesis
    using count shared_run_byte [OF assms] shared_invD(2) [OF inv]
    unfolding views_apart_def shared_data_def by simp
qed

theorem shared_mappings_invariant_witness:
  "\<exists>s. shared_run sample_api write_access ([Some 0, Some 0], s) \<and> sh_count s 0 = 2 \<and> shared_length (Some 0) s = 8"
proof -
  define s0 where "s0 = \<lparr>sh_world = sample_world [] (\<lambda>_. 0)\<lparr>eof := 16\<rparr>, sh_blocks = []\<rparr>"
  obtain mm e w where mk: "make_mmap_token sample_api (Path ''f'') 0 8 write_access (sh_world s0) = (mm, e, w)"
    by (metis prod_cases3)
  have "(case make_mmap_token sample_api (Path ''f'') 0 8 write_access (sh_world s0) of (mm, e, w) \<Rightarrow>
      e = 0 \<and> mm_length mm = 8)"
    by (simp add: s0_def make_mmap_token_def map_path_def open_file_def open_file_helper_def
        map_handle_def query_file_size_def memory_map_def make_offset_page_aligned_def unmap_closed
        sample_api_def sample_map_def sample_world_def invalid_handle_value_def Let_def)
  then have mm: "e = 0" "mm_length mm = 8" by (simp_all add: mk)
  obtain h s where m: "make_shared mm (s0\<lparr>sh_world := w\<rparr>) = (h, s)" by force
  then have h: "h = Some 0" "shared_length h s = 8" "length (sh_blocks s) = 1"
    using mm by (auto simp: make_shared_def s0_def shared_length_def pointee_def)
  have m: "shared_map sample_api write_access None (Path ''f'') 0 8 s0 = (h, 0, s)"
    by (simp add: shared_map_None [OF mk] mm m)
  have "shared_run sample_api write_access ([None], s0)"
    using Shared_step [OF Shared_start Sh_declare] by (simp add: s0_def shared_default_def)
  from Shared_step [OF this Sh_map [of 0 _ 0 8 _ _ "Path ''f''" _ h 0 s]] m h
  have "shared_run sample_api write_access ([Some 0], s)" by (simp add: some_bytes_def)
  from Shared_step [OF this Sh_declare] have "shared_run sample_api write_access ([Some 0, None], s)"
    by (simp add: shared_default_def)
  from Shared_step [OF this Sh_copy [of 1 _ 0 sample_api write_access s "Some 0" "share (Some 0) s"]]
  have r: "shared_run sample_api write_access ([Some 0, Some 0], share (Some 0) s)"
    by (simp add: shared_copy_assign_def)
  from shared_mappings_invariant [OF sample_memory_docs r] h have "sh_count (share (Some 0) s) 0 = 2" by simp
  with r h show ?thesis by (intro exI [of _ "share (Some 0) s"]) (simp add: shared_length_def)
qed

text \<open>
  A byte written through one handle is read through every handle at the same position of the
  file, whether it shares the mapping or maps the file again, and no other byte changes. (The
  predicates on the platform speak of the views of one file.)
\<close>

lemma shared_write_visible:
  assumes "memory_docs api" and "shared_run api mode (hs, s)" and "h \<in> set hs" and "h' \<in> set hs"
    and "shared_put api h k b s = Inr s'" and "shared_data h' s \<noteq> 0" and "k' < shared_length h' s"
  shows "shared_get api h' k' s' =
    (if file_pos api (sh_world s) (shared_data h' s + k') = file_pos api (sh_world s) (shared_data h s + k)
     then Inr b else shared_get api h' k' s)"
proof -
  from assms(5) have s': "s' = s\<lparr>sh_world := store_byte api (shared_data h s + k) b (sh_world s)\<rparr>"
    and h: "shared_data h s \<noteq> 0" "k < shared_length h s"
    by (auto simp: shared_put_def mmap_put_def mmap_ref_def shared_data_def shared_length_def
        split: option.splits sum.splits if_splits)
  from shared_run_byte(1) [OF assms(1-3) h] shared_run_byte(1) [OF assms(1,2,4,6,7)]
  obtain c p c' p' where v: "view_of api (sh_world s) (shared_data h s + k) = Some (c, p)"
    "view_of api (sh_world s) (shared_data h' s + k') = Some (c', p')" by blast
  have run': "shared_run api mode (hs, s')"
    using Shared_step [OF assms(2) Sh_put] assms(3,5) by (metis in_set_conv_nth)
  have same: "shared_data h' s' = shared_data h' s" "shared_length h' s' = shared_length h' s"
    by (simp_all add: s' shared_data_def shared_length_def split: option.splits)
  have "shared_get api h' k' s' = Inr (load_byte api (sh_world s') (shared_data h' s + k'))"
    using shared_run_byte(2) [OF assms(1) run' assms(4)] assms(6,7) by (simp add: same)
  moreover have "load_byte api (sh_world s') (shared_data h' s + k')
      = (if p = p' then b else load_byte api (sh_world s) (shared_data h' s + k'))"
    using memory_docsD(2) [OF assms(1)] v by (simp add: s' store_docs_def)
  ultimately show ?thesis
    using shared_run_byte(2) [OF assms(1,2,4,6,7)] by (auto simp: file_pos_def v)
qed

text \<open>
  C31: the strong guarantee that the comments of \<open>mio.hpp\<close> give for \<open>map\<close>, for both classes and
  both kinds of tokens: when it reports an error the handle and every mapping object are as if
  \<open>map\<close> had not been called, and so is every mapped byte.
\<close>

theorem shared_map_error_leaves_all:
  assumes "memory_docs api" and "shared_map api mode this token offset len s = (h, error, s')" and "error \<noteq> 0"
  shows "h = this \<and> sh_blocks s' = sh_blocks s \<and> keeps api (sh_world s) (sh_world s')"
proof (cases this)
  case None
  obtain m e w where mk: "make_mmap_token api token offset len mode (sh_world s) = (m, e, w)" by (metis prod_cases3)
  from assms(2,3) have "e \<noteq> 0" by (auto simp: None shared_map_None [OF mk] split: if_splits prod.splits)
  with assms(2) map_token_error_keeps [OF assms(1) mk [unfolded make_mmap_token_def]] show ?thesis
    by (auto simp: None shared_map_None [OF mk])
next
  case (Some i)
  obtain m e w where mk: "map_token api (pointee s i) token offset len mode (sh_world s) = (m, e, w)"
    by (metis prod_cases3)
  with assms(2,3) have r: "h = this" "s' = set_block i (pointee s i) (sh_count s i) w s" "e \<noteq> 0"
    using map_token_error [OF mk] by (auto simp: shared_map_def Some)
  with map_token_error_keeps [OF assms(1) mk] show ?thesis
    by (simp add: set_block_def pointee_def sh_count_def)
qed

theorem shared_map_error_leaves_all_witness:
  "case shared_map sample_api write_access None (Path ''f'') 0 16 \<lparr>sh_world = sample_world [] (\<lambda>_. 0), sh_blocks = []\<rparr>
   of (h, error, s) \<Rightarrow> error \<noteq> 0 \<and> h = None \<and> sh_blocks s = []"
proof -
  define s0 where "s0 = \<lparr>sh_world = sample_world [] (\<lambda>_. 0), sh_blocks = []\<rparr>"
  obtain h e s where m: "shared_map sample_api write_access None (Path ''f'') 0 16 s0 = (h, e, s)"
    by (metis prod_cases3)
  have "(case shared_map sample_api write_access None (Path ''f'') 0 16 s0 of (h, e, s) \<Rightarrow> e \<noteq> 0)"
    by (simp add: s0_def shared_map_def make_mmap_token_def map_path_def open_file_def open_file_helper_def
        map_handle_def query_file_size_def mmap_destroy_closed errc_invalid_argument_def
        sample_api_def sample_world_def invalid_handle_value_def Let_def)
  then have "e \<noteq> 0" by (simp add: m)
  from shared_map_error_leaves_all [OF sample_memory_docs m this] this m show ?thesis
    by (simp add: s0_def)
qed

end
