(* ===== verification/Mio_Strings.thy ===== *)
theory Mio_Strings
  imports Mio_Interface
begin

text \<open>
  The string types that the templates of \<open>mio.hpp\<close> accept as a path (\<open>detail/string_util.hpp\<close> in
  it): the type traits \<open>char_type\<close>, \<open>is_c_str\<close> and their relatives as functions on a datatype of
  C++ types, the choice between the overloads of \<open>c_str\<close>, \<open>empty\<close> and \<open>open_file_helper\<close>, and
  \<open>open_file\<close> and \<open>map\<close> for a path of any of these types. The Windows branches, as everywhere.

  What a call with a path of some type does is a value of type \<open>'a res option\<close>: \<open>None\<close> when the
  templates do not compile for the type, \<open>Some (Inl f)\<close> when a read goes through a null pointer or
  past the end of an array.
\<close>

subsection \<open>C++ types\<close>

text \<open>
  \<open>Class v d e s\<close> is a class with a \<open>value_type\<close> \<open>v\<close>; \<open>d\<close> and \<open>e\<close> say whether it has the members
  \<open>data()\<close> and \<open>empty()\<close>, and \<open>s\<close> whether it converts implicitly to \<open>const std::string&\<close>.
\<close>

datatype cpp_type =
    Char_type | Wchar_type | Other_type
  | Const cpp_type
  | Ptr cpp_type
  | Arr cpp_type nat
  | Class cpp_type bool bool bool

abbreviation std_string :: cpp_type where "std_string \<equiv> Class Char_type True True True"
abbreviation std_wstring :: cpp_type where "std_wstring \<equiv> Class Wchar_type True True False"
abbreviation std_string_view :: cpp_type where "std_string_view \<equiv> Class Char_type True True False"
abbreviation fs_path :: cpp_type where "fs_path \<equiv> Class Wchar_type False True False"

text \<open>The transformations of \<open><type_traits>\<close> that the traits use; a constant array is one of constants.\<close>

fun add_const :: "cpp_type \<Rightarrow> cpp_type" where
  "add_const (Const t) = Const t"
| "add_const (Arr t n) = Arr (add_const t) n"
| "add_const t = Const t"

fun decay :: "cpp_type \<Rightarrow> cpp_type" where
  "decay (Arr t n) = Ptr t"
| "decay (Const (Arr t n)) = Ptr (add_const t)"
| "decay (Const t) = t"
| "decay t = t"

fun remove_pointer :: "cpp_type \<Rightarrow> cpp_type" where
  "remove_pointer (Ptr t) = t"
| "remove_pointer (Const (Ptr t)) = t"
| "remove_pointer t = t"

fun remove_cv :: "cpp_type \<Rightarrow> cpp_type" where
  "remove_cv (Const t) = t"
| "remove_cv t = t"

definition add_pointer :: "cpp_type \<Rightarrow> cpp_type" where
  "add_pointer t = Ptr t"

fun has_data :: "cpp_type \<Rightarrow> bool" where
  "has_data (Class v d e s) = d"
| "has_data (Const t) = has_data t"
| "has_data t = False"

fun has_empty :: "cpp_type \<Rightarrow> bool" where
  "has_empty (Class v d e s) = e"
| "has_empty (Const t) = has_empty t"
| "has_empty t = False"

fun converts_to_string :: "cpp_type \<Rightarrow> bool" where
  "converts_to_string (Class v d e s) = s"
| "converts_to_string (Const t) = converts_to_string t"
| "converts_to_string t = (decay t \<in> {Ptr Char_type, Ptr (Const Char_type)})"

subsection \<open>The traits\<close>

text \<open>\<open>char_type_helper\<close> is for classes; its default arguments fail for every other type.\<close>

definition char_type_helper :: "cpp_type \<Rightarrow> cpp_type option" where
  "char_type_helper S =
     (case decay S of
        Class v d e s \<Rightarrow> if d \<and> (v = Char_type \<or> v = Wchar_type) then Some v else None
      | _ \<Rightarrow> None)"

text \<open>The primary template comes last: a specialisation is taken when one matches.\<close>

fun char_type :: "cpp_type \<Rightarrow> cpp_type option" where
  "char_type (Ptr Char_type) = Some Char_type"
| "char_type (Ptr (Const Char_type)) = Some Char_type"
| "char_type (Arr Char_type n) = Some Char_type"
| "char_type (Arr (Const Char_type) n) = Some Char_type"
| "char_type (Ptr Wchar_type) = Some Wchar_type"
| "char_type (Ptr (Const Wchar_type)) = Some Wchar_type"
| "char_type (Arr Wchar_type n) = Some Wchar_type"
| "char_type (Arr (Const Wchar_type) n) = Some Wchar_type"
| "char_type T = char_type_helper T"

definition is_c_str_helper :: "cpp_type \<Rightarrow> cpp_type \<Rightarrow> bool" where
  "is_c_str_helper C S \<longleftrightarrow> Ptr C = add_pointer (remove_cv (remove_pointer (decay S)))"

definition is_c_str :: "cpp_type \<Rightarrow> bool" where
  "is_c_str S \<longleftrightarrow> is_c_str_helper Char_type S"

definition is_c_wstr :: "cpp_type \<Rightarrow> bool" where
  "is_c_wstr S \<longleftrightarrow> is_c_str_helper Wchar_type S"

definition is_c_str_or_c_wstr :: "cpp_type \<Rightarrow> bool" where
  "is_c_str_or_c_wstr S \<longleftrightarrow> is_c_str S \<or> is_c_wstr S"

lemmas trait_defs = char_type_helper_def is_c_str_helper_def is_c_str_def is_c_wstr_def
  is_c_str_or_c_wstr_def add_pointer_def

subsection \<open>The overloads\<close>

text \<open>
  \<open>c_str\<close> and \<open>empty\<close> have an overload with a parameter \<open>const String&\<close> and one with a parameter
  \<open>String\<close>. For an argument that \<open>map\<close> took by \<open>const S&\<close>, the first deduces \<open>S\<close> and the second
  what \<open>const S\<close> decays to. A call compiles when exactly one of them is left.
\<close>

datatype overload = By_reference | By_value

fun c_str_viable :: "cpp_type \<Rightarrow> overload \<Rightarrow> bool" where
  "c_str_viable S By_reference \<longleftrightarrow> has_data S \<and> \<not> is_c_str_or_c_wstr S"
| "c_str_viable S By_value \<longleftrightarrow> is_c_str_or_c_wstr (decay (add_const S))"

fun empty_viable :: "cpp_type \<Rightarrow> overload \<Rightarrow> bool" where
  "empty_viable S By_reference \<longleftrightarrow> has_empty S \<and> \<not> is_c_str_or_c_wstr S"
| "empty_viable S By_value \<longleftrightarrow> is_c_str_or_c_wstr (decay (add_const S))"

definition resolve :: "(overload \<Rightarrow> bool) \<Rightarrow> overload option" where
  "resolve viable = (case filter viable [By_reference, By_value] of [f] \<Rightarrow> Some f | _ \<Rightarrow> None)"

lemma resolve_cases:
  "resolve viable = (if viable By_reference \<and> \<not> viable By_value then Some By_reference
     else if viable By_value \<and> \<not> viable By_reference then Some By_value else None)"
  by (simp add: resolve_def)

subsection \<open>Values of the string types\<close>

text \<open>
  A pointer to characters is null or shows the characters from where it points to the end of
  their array. A path is such a pointer, an array, or an object: its characters and what follows
  them in memory where \<open>data()\<close> points, for the strings of the library a null character and for a
  view whatever the underlying array holds.
\<close>

datatype 'c pointer = Null | At "'c list"

datatype 'c str_value = Pointer "'c pointer" | Buffer "'c list" | Object "'c list" "'c list"

datatype path_value = Narrow "char str_value" | Wide "16 word str_value"

fun str_value_of :: "cpp_type \<Rightarrow> cpp_type \<Rightarrow> 'c str_value \<Rightarrow> bool" where
  "str_value_of c (Ptr t) (Pointer p) \<longleftrightarrow> t = c \<or> t = Const c"
| "str_value_of c (Arr t n) (Buffer cs) \<longleftrightarrow> (t = c \<or> t = Const c) \<and> length cs = n"
| "str_value_of c (Class v d e s) (Object cs after) \<longleftrightarrow> v = c"
| "str_value_of c _ _ \<longleftrightarrow> False"

fun path_value_of :: "cpp_type \<Rightarrow> path_value \<Rightarrow> bool" where
  "path_value_of S (Narrow v) \<longleftrightarrow> str_value_of Char_type S v"
| "path_value_of S (Wide v) \<longleftrightarrow> str_value_of Wchar_type S v"

text \<open>The bodies of the overloads of \<open>c_str\<close> and \<open>empty\<close>, the latter with the null character of the width.\<close>

fun c_str_body :: "overload \<Rightarrow> 'c str_value \<Rightarrow> 'c pointer res option" where
  "c_str_body By_reference (Object cs after) = Some (Inr (At (cs @ after)))"
| "c_str_body By_value (Pointer p) = Some (Inr p)"
| "c_str_body By_value (Buffer cs) = Some (Inr (At cs))"
| "c_str_body _ _ = None"

fun first_char :: "'c pointer \<Rightarrow> 'c res" where
  "first_char Null = Inl Null_deref"
| "first_char (At []) = Inl Out_of_bounds"
| "first_char (At (c # cs)) = Inr c"

definition empty_pointer :: "'c \<Rightarrow> 'c pointer \<Rightarrow> bool res" where
  "empty_pointer nul p =
     (if p = Null then Inr True
      else case first_char p of Inl f \<Rightarrow> Inl f | Inr c \<Rightarrow> Inr (c = nul))"

fun empty_body :: "overload \<Rightarrow> 'c \<Rightarrow> 'c str_value \<Rightarrow> bool res option" where
  "empty_body By_reference nul (Object cs after) = Some (Inr (cs = []))"
| "empty_body By_value nul (Pointer p) = Some (empty_pointer nul p)"
| "empty_body By_value nul (Buffer cs) = Some (empty_pointer nul (At cs))"
| "empty_body _ _ _ = None"

definition c_str :: "cpp_type \<Rightarrow> 'c str_value \<Rightarrow> 'c pointer res option" where
  "c_str S v = Option.bind (resolve (c_str_viable S)) (\<lambda>f. c_str_body f v)"

definition str_empty :: "cpp_type \<Rightarrow> 'c \<Rightarrow> 'c str_value \<Rightarrow> bool res option" where
  "str_empty S nul v = Option.bind (resolve (empty_viable S)) (\<lambda>f. empty_body f nul v)"

fun path_empty :: "cpp_type \<Rightarrow> path_value \<Rightarrow> bool res option" where
  "path_empty S (Narrow v) = str_empty S (CHR 0x00) v"
| "path_empty S (Wide v) = str_empty S 0 v"

text \<open>What a callee reads through a pointer to a null-terminated string.\<close>

fun read_c_str :: "'c \<Rightarrow> 'c pointer \<Rightarrow> 'c list res" where
  "read_c_str nul Null = Inl Null_deref"
| "read_c_str nul (At cs) =
     (if nul \<in> set cs then Inr (takeWhile (\<lambda>c. c \<noteq> nul) cs) else Inl Out_of_bounds)"

text \<open>The implicit conversion to \<open>const std::string&\<close> in the call of \<open>s_2_ws\<close>.\<close>

fun string_of :: "char str_value \<Rightarrow> string res" where
  "string_of (Object cs after) = Inr cs"
| "string_of (Pointer p) = read_c_str (CHR 0x00) p"
| "string_of (Buffer cs) = read_c_str (CHR 0x00) (At cs)"

subsection \<open>Opening and mapping\<close>

text \<open>The narrow overload of \<open>open_file_helper\<close>, then the wide one; \<open>char_type\<close> leaves at most one.\<close>

definition open_narrow ::
  "'w win32 \<Rightarrow> cpp_type \<Rightarrow> char str_value \<Rightarrow> access_mode \<Rightarrow> 'w \<Rightarrow> (u64 \<times> 'w) res option" where
  "open_narrow api S v mode w =
     (if char_type S = Some Char_type \<and> converts_to_string S
      then Some (case string_of v of Inl f \<Rightarrow> Inl f | Inr s \<Rightarrow> Inr (open_file_helper api s mode w))
      else None)"

definition open_wide ::
  "'w win32 \<Rightarrow> cpp_type \<Rightarrow> 16 word str_value \<Rightarrow> access_mode \<Rightarrow> 'w \<Rightarrow> (u64 \<times> 'w) res option" where
  "open_wide api S v mode w =
     (if char_type S = Some Wchar_type
      then Option.bind (c_str S v) (\<lambda>p. Some (case p of Inl f \<Rightarrow> Inl f
        | Inr p \<Rightarrow> (case read_c_str 0 p of Inl f \<Rightarrow> Inl f
            | Inr name \<Rightarrow> Inr (create_file_w api name mode Open_existing w))))
      else None)"

fun open_file_helper_as ::
  "'w win32 \<Rightarrow> cpp_type \<Rightarrow> path_value \<Rightarrow> access_mode \<Rightarrow> 'w \<Rightarrow> (u64 \<times> 'w) res option" where
  "open_file_helper_as api S (Narrow v) mode w = open_narrow api S v mode w"
| "open_file_helper_as api S (Wide v) mode w = open_wide api S v mode w"

text \<open>A template compiles as a whole: every call in it has to, whether it is reached or not.\<close>

definition open_file_as ::
  "'w win32 \<Rightarrow> cpp_type \<Rightarrow> path_value \<Rightarrow> access_mode \<Rightarrow> 'w \<Rightarrow> (u64 \<times> error_code \<times> 'w) res option" where
  "open_file_as api S path mode w =
     Option.bind (path_empty S path) (\<lambda>e. Option.bind (open_file_helper_as api S path mode w) (\<lambda>opened.
       Some (case e of Inl f \<Rightarrow> Inl f
         | Inr True \<Rightarrow> Inr (invalid_handle_value, errc_invalid_argument, w)
         | Inr False \<Rightarrow> (case opened of Inl f \<Rightarrow> Inl f
             | Inr (handle, w1) \<Rightarrow>
                 Inr (handle, if handle = invalid_handle_value then get_last_error api w1 else 0, w1)))))"

definition map_as ::
  "'w win32 \<Rightarrow> basic_mmap \<Rightarrow> cpp_type \<Rightarrow> path_value \<Rightarrow> u64 \<Rightarrow> u64 \<Rightarrow> access_mode \<Rightarrow> 'w
     \<Rightarrow> (basic_mmap \<times> error_code \<times> 'w) res option" where
  "map_as api m S path offset len mode w =
     Option.bind (path_empty S path) (\<lambda>e. Option.bind (open_file_as api S path mode w) (\<lambda>opened.
       Some (case e of Inl f \<Rightarrow> Inl f
         | Inr True \<Rightarrow> Inr (m, errc_invalid_argument, w)
         | Inr False \<Rightarrow> (case opened of Inl f \<Rightarrow> Inl f
             | Inr (handle, error, w1) \<Rightarrow> Inr
                 (if error \<noteq> 0 then (m, error, w1)
                  else let (m1, error, w2) = map_handle api m handle offset len mode w1
                       in (if error = 0 then m1\<lparr>mm_internal := True\<rparr> else m1, error, w2))))))"

subsection \<open>Which types compile\<close>

text \<open>The accepted types, spelled out.\<close>

fun path_type :: "cpp_type \<Rightarrow> bool" where
  "path_type (Ptr t) \<longleftrightarrow> remove_cv t \<in> {Char_type, Wchar_type}"
| "path_type (Arr t n) \<longleftrightarrow> remove_cv t \<in> {Char_type, Wchar_type}"
| "path_type (Class v d e s) \<longleftrightarrow> d \<and> e \<and> (v = Char_type \<and> s \<or> v = Wchar_type)"
| "path_type _ \<longleftrightarrow> False"

lemma char_type_Ptr:
  "char_type (Ptr t) = (if remove_cv t \<in> {Char_type, Wchar_type} then Some (remove_cv t) else None)"
  by (induction "Ptr t" rule: char_type.induct) (auto simp: trait_defs)

lemma char_type_Arr:
  "char_type (Arr t n) = (if remove_cv t \<in> {Char_type, Wchar_type} then Some (remove_cv t) else None)"
  by (induction "Arr t n" rule: char_type.induct) (auto simp: trait_defs)

lemma is_c_str_or_c_wstr_Ptr [simp]:
  "is_c_str_or_c_wstr (Ptr t) \<longleftrightarrow> remove_cv t \<in> {Char_type, Wchar_type}"
  by (auto simp: trait_defs)

lemma is_c_str_or_c_wstr_Arr [simp]:
  "is_c_str_or_c_wstr (Arr t n) \<longleftrightarrow> remove_cv t \<in> {Char_type, Wchar_type}"
  by (auto simp: trait_defs)

lemma is_c_str_or_c_wstr_Class [simp]: "\<not> is_c_str_or_c_wstr (Class v d e s)"
  by (simp add: trait_defs)

lemma remove_cv_add_const [simp]:
  "remove_cv t \<in> {Char_type, Wchar_type} \<Longrightarrow> remove_cv (add_const t) = remove_cv t"
  by (cases t) auto

text \<open>Of each pair of overloads at most one is left, so no call with a path is ambiguous.\<close>

lemma c_str_overloads_exclusive:
  "path_type S \<Longrightarrow> c_str_viable S By_reference \<noteq> c_str_viable S By_value"
  by (cases S) auto

lemma empty_overloads_exclusive:
  "path_type S \<Longrightarrow> empty_viable S By_reference \<noteq> empty_viable S By_value"
  by (cases S) auto

lemma resolve_pointer:
  assumes "remove_cv t \<in> {Char_type, Wchar_type}"
  shows "resolve (c_str_viable (Ptr t)) = Some By_value" "resolve (empty_viable (Ptr t)) = Some By_value"
    "resolve (c_str_viable (Arr t n)) = Some By_value" "resolve (empty_viable (Arr t n)) = Some By_value"
  using assms by (auto simp: resolve_cases)

lemma resolve_class:
  "resolve (c_str_viable (Class v d e s)) = (if d then Some By_reference else None)"
  "resolve (empty_viable (Class v d e s)) = (if e then Some By_reference else None)"
  by (simp_all add: resolve_cases)

text \<open>Evaluation of the overloads for a value of its type: the three forms a path can have.\<close>

lemmas dispatch = str_empty_def c_str_def resolve_pointer resolve_class
  char_type_Ptr char_type_Arr char_type_helper_def

text \<open>
  C33: the templates of \<open>mio.hpp\<close> compile exactly for pointers to and arrays of (constant) characters
  of either width, for classes of wide characters with \<open>data()\<close> and \<open>empty()\<close>, and for classes of
  narrow characters that have both and convert implicitly to \<open>std::string\<close>.
\<close>

theorem map_compiles_iff:
  assumes "path_value_of S path"
  shows "map_as api m S path offset len mode w \<noteq> None \<longleftrightarrow> path_type S"
proof (cases path)
  case (Narrow v)
  with assms show ?thesis
    by (cases "(Char_type, S, v)" rule: str_value_of.cases)
      (auto simp: map_as_def open_file_as_def open_narrow_def dispatch)
next
  case (Wide v)
  with assms show ?thesis
    by (cases "(Wchar_type, S, v)" rule: str_value_of.cases)
      (auto simp: map_as_def open_file_as_def open_wide_def dispatch)
qed

theorem map_compiles_iff_witness:
  "map_as sample_api default_mmap std_string_view (Narrow (Object ''f'' ''.bin'')) 0 0 read_access
     (sample_world [] (\<lambda>_. 0)) = None"
  using map_compiles_iff [of std_string_view "Narrow (Object ''f'' ''.bin'')" sample_api default_mmap 0 0
      read_access "sample_world [] (\<lambda>_. 0)"]
  by simp

subsection \<open>What a path of any type maps\<close>

text \<open>
  The characters a path stands for: up to the null character through a pointer, all of them for
  an object. A path is readable when every pointer the code reads through is null or reaches a
  null character; a narrow object is copied by its length and needs none.
\<close>

fun path_chars :: "'c \<Rightarrow> 'c str_value \<Rightarrow> 'c list" where
  "path_chars nul (Pointer Null) = []"
| "path_chars nul (Pointer (At cs)) = takeWhile (\<lambda>c. c \<noteq> nul) cs"
| "path_chars nul (Buffer cs) = takeWhile (\<lambda>c. c \<noteq> nul) cs"
| "path_chars nul (Object cs after) = cs"

fun pointed_chars :: "'c str_value \<Rightarrow> 'c list option" where
  "pointed_chars (Pointer Null) = None"
| "pointed_chars (Pointer (At cs)) = Some cs"
| "pointed_chars (Buffer cs) = Some cs"
| "pointed_chars (Object cs after) = Some (cs @ after)"

fun readable :: "path_value \<Rightarrow> bool" where
  "readable (Narrow (Object cs after)) \<longleftrightarrow> True"
| "readable (Narrow v) \<longleftrightarrow> pred_option (\<lambda>cs. CHR 0x00 \<in> set cs) (pointed_chars v)"
| "readable (Wide v) \<longleftrightarrow> pred_option (\<lambda>cs. 0 \<in> set cs) (pointed_chars v)"

text \<open>\<open>map\<close> for a file with a wide name, as \<open>CreateFileW\<close> reads it.\<close>

definition map_wide ::
  "'w win32 \<Rightarrow> basic_mmap \<Rightarrow> 16 word str_value \<Rightarrow> u64 \<Rightarrow> u64 \<Rightarrow> access_mode \<Rightarrow> 'w \<Rightarrow> basic_mmap \<times> error_code \<times> 'w"
where
  "map_wide api m v offset len mode w =
     (if path_chars 0 v = [] then (m, errc_invalid_argument, w)
      else let (handle, w1) = create_file_w api (case pointed_chars v of None \<Rightarrow> [] | Some cs \<Rightarrow> wide_name cs)
                                mode Open_existing w;
               error = (if handle = invalid_handle_value then get_last_error api w1 else 0)
           in if error \<noteq> 0 then (m, error, w1)
              else let (m1, error, w2) = map_handle api m handle offset len mode w1
                   in (if error = 0 then m1\<lparr>mm_internal := True\<rparr> else m1, error, w2))"

lemma empty_pointer_At:
  "nul \<in> set cs \<Longrightarrow> empty_pointer nul (At cs) = Inr (takeWhile (\<lambda>c. c \<noteq> nul) cs = [])"
  by (cases cs) (auto simp: empty_pointer_def)

lemma empty_pointer_Null: "empty_pointer nul Null = Inr True"
  by (simp add: empty_pointer_def)

text \<open>The four forms of a path: no string, a string in an array, an array, an object.\<close>

lemma str_value_forms:
  assumes "str_value_of c S v"
  obtains (null) t where "S = Ptr t" "v = Pointer Null" "t = c \<or> t = Const c"
  | (pointer) t cs where "S = Ptr t" "v = Pointer (At cs)" "t = c \<or> t = Const c"
  | (array) t cs where "S = Arr t (length cs)" "v = Buffer cs" "t = c \<or> t = Const c"
  | (object) d e s cs after where "S = Class c d e s" "v = Object cs after"
proof (cases v)
  case (Pointer p)
  with assms null pointer show ?thesis by (cases p; cases S) auto
next
  case (Buffer cs)
  with assms array show ?thesis by (cases S) auto
next
  case (Object cs after)
  with assms object show ?thesis by (cases S) auto
qed

lemma str_empty_chars:
  assumes "path_type S" and "str_value_of c S v"
    and "pred_option (\<lambda>cs. nul \<in> set cs) (pointed_chars v) \<or> (\<exists>cs after. v = Object cs after)"
  shows "str_empty S nul v = Some (Inr (path_chars nul v = []))"
  using assms(2) assms(1,3)
  by (cases rule: str_value_forms) (auto simp: dispatch empty_pointer_At empty_pointer_Null)

lemma open_narrow_chars:
  assumes "path_type S" and "str_value_of Char_type S v" and "readable (Narrow v)"
  shows "\<exists>r. open_narrow api S v mode w = Some r
    \<and> (path_chars (CHR 0x00) v \<noteq> [] \<longrightarrow> r = Inr (open_file_helper api (path_chars (CHR 0x00) v) mode w))"
  using assms(2,1,3)
  by (cases rule: str_value_forms) (auto simp: open_narrow_def dispatch)

lemma open_wide_chars:
  assumes "path_type S" and "str_value_of Wchar_type S v" and "readable (Wide v)"
  shows "\<exists>r. open_wide api S v mode w = Some r
    \<and> (path_chars 0 v \<noteq> [] \<longrightarrow> (\<exists>cs. pointed_chars v = Some cs
         \<and> r = Inr (create_file_w api (wide_name cs) mode Open_existing w)))"
  using assms(2,1,3)
  by (cases rule: str_value_forms) (auto simp: open_wide_def wide_name_def dispatch)

lemma map_narrow:
  assumes "path_type S" and "str_value_of Char_type S v" and "readable (Narrow v)"
  shows "map_as api m S (Narrow v) offset len mode w =
    Some (Inr (map_path api m (path_chars (CHR 0x00) v) offset len mode w))"
proof -
  from assms have e: "path_empty S (Narrow v) = Some (Inr (path_chars (CHR 0x00) v = []))"
    by (cases v) (simp_all add: str_empty_chars)
  from open_narrow_chars [OF assms, of api mode w] obtain r where
    "open_narrow api S v mode w = Some r"
    "path_chars (CHR 0x00) v \<noteq> [] \<longrightarrow> r = Inr (open_file_helper api (path_chars (CHR 0x00) v) mode w)"
    by auto
  with e show ?thesis
    by (cases "path_chars (CHR 0x00) v = []")
      (auto simp: map_as_def open_file_as_def map_path_def open_file_def Let_def split: prod.splits)
qed

lemma map_wide_path:
  assumes "path_type S" and "str_value_of Wchar_type S v" and "readable (Wide v)"
  shows "map_as api m S (Wide v) offset len mode w = Some (Inr (map_wide api m v offset len mode w))"
proof -
  from assms have e: "path_empty S (Wide v) = Some (Inr (path_chars 0 v = []))"
    by (cases v) (simp_all add: str_empty_chars)
  from open_wide_chars [OF assms, of api mode w] obtain r where
    "open_wide api S v mode w = Some r"
    "path_chars 0 v \<noteq> [] \<longrightarrow> (\<exists>cs. pointed_chars v = Some cs
       \<and> r = Inr (create_file_w api (wide_name cs) mode Open_existing w))"
    by auto
  with e show ?thesis
    by (cases "path_chars 0 v = []")
      (auto simp: map_as_def open_file_as_def map_wide_def Let_def split: prod.splits)
qed

text \<open>
  C32: mapping by a path of any type that compiles and can be read: the code commits no fault and
  does what it does for the \<open>std::string\<close> of the same characters, for a narrow path, and for a wide
  one opens the name up to the first null character. A null pointer is an empty path and gives
  \<open>invalid_argument\<close>.
\<close>

theorem map_any_path:
  assumes "path_type S" and "path_value_of S path" and "readable path"
  shows "map_as api m S path offset len mode w = Some (Inr (case path of
      Narrow v \<Rightarrow> map_path api m (path_chars (CHR 0x00) v) offset len mode w
    | Wide v \<Rightarrow> map_wide api m v offset len mode w))"
  using assms by (cases path) (simp_all add: map_narrow map_wide_path)

theorem map_any_path_witness:
  "map_as sample_api default_mmap (Ptr (Const Char_type)) (Narrow (Pointer (At [CHR ''f'', CHR 0x00, CHR ''g'']))) 0 0
     read_access (sample_world [] (\<lambda>_. 0))
   = Some (Inr (map_path sample_api default_mmap ''f'' 0 0 read_access (sample_world [] (\<lambda>_. 0))))"
  using map_any_path [of "Ptr (Const Char_type)" "Narrow (Pointer (At [CHR ''f'', CHR 0x00, CHR ''g'']))"
      sample_api default_mmap 0 0 read_access "sample_world [] (\<lambda>_. 0)"]
  by simp

text \<open>
  A path token of \<open>Mio_Interface\<close> is a \<open>std::string\<close>: its object holds the characters and a null
  character after them.
\<close>

lemma map_std_string:
  "map_as api m std_string (Narrow (Object s [CHR 0x00])) offset len mode w
     = Some (Inr (map_token api m (Path s) offset len mode w))"
  using map_narrow [of std_string "Object s [CHR 0x00]"] by simp

lemma map_null_path:
  assumes "remove_cv t = Char_type"
  shows "map_as api m (Ptr t) (Narrow (Pointer Null)) offset len mode w
     = Some (Inr (m, errc_invalid_argument, w))"
  using assms by (cases t) (auto simp: map_narrow map_path_def)

text \<open>
  A view of wide characters compiles (in the model its type is that of \<open>std::wstring\<close>), but
  \<open>open_file_helper\<close> passes on its \<open>data()\<close>, which nothing terminates: the name read goes on behind
  the view to the next null character, and past the end of the array when there is none.
\<close>

lemma wide_view_reads_on:
  assumes "0 \<in> set after" "0 \<notin> set cs" "cs \<noteq> []"
  shows "open_file_as api std_wstring (Wide (Object cs after)) mode w =
     (let (handle, w1) = create_file_w api (cs @ wide_name after) mode Open_existing w
      in Some (Inr (handle, if handle = invalid_handle_value then get_last_error api w1 else 0, w1)))"
proof -
  have "takeWhile (\<lambda>c. c \<noteq> 0) (cs @ after) = cs @ takeWhile (\<lambda>c. c \<noteq> 0) after"
    using assms(2) by (subst takeWhile_append2) auto
  with assms show ?thesis
    by (auto simp: open_file_as_def open_wide_def dispatch wide_name_def Let_def split: prod.splits)
qed

lemma wide_view_reads_past_end:
  assumes "0 \<notin> set (cs @ after)" "cs \<noteq> []"
  shows "map_as api m std_wstring (Wide (Object cs after)) offset len mode w = Some (Inl Out_of_bounds)"
  using assms by (auto simp: map_as_def open_file_as_def open_wide_def dispatch)

text \<open>
  The comments of \<open>make_mmap_source\<close> and \<open>make_mmap_sink\<close> also name \<open>std::string_view\<close> and
  \<open>std::vector<char>\<close> (in the model of the same type) and \<open>std::filesystem::path\<close> as tokens. The
  first two have no conversion to \<open>std::string\<close>, which \<open>s_2_ws\<close> needs, although \<open>char_type_helper\<close>
  admits them; the last has no \<open>data()\<close>. With none of them the templates compile.
\<close>

lemma documented_tokens_rejected:
  "map_as api m std_string_view (Narrow v) offset len mode w = None"
  "map_as api m fs_path path offset len mode w = None"
  "char_type std_string_view = Some Char_type"
proof -
  show "map_as api m std_string_view (Narrow v) offset len mode w = None"
    by (simp add: map_as_def open_file_as_def open_narrow_def)
  show "map_as api m fs_path path offset len mode w = None"
    by (cases path) (simp_all add: map_as_def open_file_as_def open_narrow_def open_wide_def dispatch)
  show "char_type std_string_view = Some Char_type" by (simp add: char_type_helper_def)
qed

end
