(* ===== verification/Dump_Faults.thy ===== *)
theory Dump_Faults
  imports Dump_Write
begin

text \<open>
  What is left of the dump file when a mapping fails. \<open>write\<close> grows the file before it maps the
  rest of it, and returns \<open>nullptr\<close> when that mapping has no data; but the grown size stays, so a
  later and smaller write takes the file to have room, skips the mapping and copies behind the end
  of the map that is still the current one. This is why the theorems about scans ask that the
  reservations succeed.
\<close>

text \<open>A failed write leaves the current map, the position and the new size.\<close>

lemma failed_map_state:
  assumes grow: "fsize (dump_file s) < foffset (dump_file s) + n"
    and e: "expand_size api n s = (ok, s1)"
    and d: "do_map api (foffset (dump_file s)) s1 = (j, s2)" "mm_data (map_at s2 j) = 0"
    and i: "i < length (heap s)"
  shows "\<exists>s'. m_write api buffer n s = Inr (0, None, s') \<and> dump_file s' = dump_file s1
    \<and> i < length (heap s') \<and> map_at s' i = map_at s i"
proof -
  have s1: "heap s1 = heap s" using e by (auto simp: expand_size_def Let_def split: if_splits prod.splits)
  note dm = do_map_heap [OF d(1), unfolded s1]
  have "map_at s2 i = map_at s i" "j \<noteq> i"
    using d(1) i s1 by (auto simp: do_map_def map_at_def Let_def nth_append split: prod.splits)
  then show ?thesis
    using grow i by (intro exI [of _ "release api j s2"]) (simp add: m_write_def Let_def e d(1) d(2) [unfolded dm(1)] dm)
qed

text \<open>
  A later write that the grown size has room for, and the current map not, leaves the map.
\<close>

lemma failed_map_overruns:
  assumes "fsize (dump_file s) < foffset (dump_file s) + n"
    and "expand_size api n s = (ok, s1)"
    and "do_map api (foffset (dump_file s)) s1 = (j, s2)" "mm_data (map_at s2 j) = 0"
    and cur: "current_map (dump_file s) = Some i" "i < length (heap s)"
    and "mm_data (map_at s i) + map_offset (dump_file s) \<noteq> 0"
    and fits: "foffset (dump_file s) + k \<le> fsize (dump_file s1)"
    and over: "unat (mm_length (map_at s i)) < unat (map_offset (dump_file s)) + unat k"
  shows "\<exists>s'. m_write api buffer n s = Inr (0, None, s') \<and> m_write api buffer' k s' = Inl Out_of_bounds"
proof -
  have f: "dump_file s1 = (dump_file s)\<lparr>fsize := fsize (dump_file s1)\<rparr>"
    using assms(2) by (auto simp: expand_size_def Let_def split: if_splits prod.splits)
  from failed_map_state [OF assms(1-4) cur(2)] obtain s' where
    s': "m_write api buffer n s = Inr (0, None, s')" "dump_file s' = dump_file s1"
      "i < length (heap s')" "map_at s' i = map_at s i" by blast
  have fields: "current_map (dump_file s1) = Some i" "foffset (dump_file s1) = foffset (dump_file s)"
    "map_offset (dump_file s1) = map_offset (dump_file s)" by (subst f, simp add: cur)+
  have "m_write api buffer' k s' = write_current api buffer' k s'"
    by (rule m_write_current_branch) (use fits in \<open>simp add: s'(2) fields linorder_not_less\<close>)
  also have "\<dots> = Inl Out_of_bounds"
    using assms(7) over s' fields by (simp add: write_current_def Let_def)
  finally show ?thesis using s'(1) by blast
qed

text \<open>
  On the sample platform with room for one view: eight bytes are written, five thousand can no
  longer be mapped, and the next 4090 run over the first map of one page.
\<close>

lemma store_bytes_views:
  "store_byte api = sample_store \<Longrightarrow> views (store_bytes api a bs w) = views w"
  by (induction bs arbitrary: a w) (simp_all add: sample_store_def split: option.splits)

lemma failed_map_overruns_example:
  defines "api \<equiv> sample_api\<lparr>map_view_of_file := (\<lambda>h m hi lo n w. if views w = [] then sample_map h m hi lo n w else (0, w)),
     get_last_error := (\<lambda>w. 8)\<rparr>"
  shows "\<exists>p act s1 s2. m_write api None 8 (sample_sys [] (\<lambda>_. 0)) = Inr (p, act, s1) \<and> p \<noteq> 0
    \<and> m_write api None 5000 s1 = Inr (0, None, s2) \<and> m_write api None 4090 s2 = Inl Out_of_bounds"
proof -
  have first: "case m_write api None 8 (sample_sys [] (\<lambda>_. 0)) of Inl e \<Rightarrow> False
    | Inr (p, act, s) \<Rightarrow> p \<noteq> 0 \<and> length (heap s) = 1 \<and> mm_length (map_at s 0) = 4096 \<and> mm_data (map_at s 0) = 65536
      \<and> views (world s) \<noteq> [] \<and> dump_file s = \<lparr>file_handle = 5, filename = ''dump.bin'', fsize = 4096, foffset = 8,
          fvalid = True, current_map = Some 0, map_offset = 8\<rparr>"
    by (simp add: api_def sample_write_defs sample_api_def store_bytes_views del: sample_api_fields)
  then obtain p act s where w: "m_write api None 8 (sample_sys [] (\<lambda>_. 0)) = Inr (p, act, s)" "p \<noteq> 0"
    and s: "length (heap s) = 1" "mm_length (map_at s 0) = 4096" "mm_data (map_at s 0) = 65536" "views (world s) \<noteq> []"
      "dump_file s = \<lparr>file_handle = 5, filename = ''dump.bin'', fsize = 4096, foffset = 8,
          fvalid = True, current_map = Some 0, map_offset = 8\<rparr>"
    by (auto split: sum.splits prod.splits)
  define s1 where "s1 = s\<lparr>world := (world s)\<lparr>fptr := 20480, eof := 20480\<rparr>, dump_file := (dump_file s)\<lparr>fsize := 20480\<rparr>\<rparr>"
  have e: "expand_size api 5000 s = (True, s1)"
    by (simp add: expand_size_def set_file_size_def page_align_def PAGE_SIZE_def invalid_handle_value_def
        api_def sample_api_fields s(5) s1_def Let_def)
  obtain j s2 where d: "do_map api (foffset (dump_file s)) s1 = (j, s2)" by force
  have "case do_map api (foffset (dump_file s)) s1 of (j, s2) \<Rightarrow> mm_data (map_at s2 j) = 0"
    by (simp add: do_map_def active_map_new_eq map_at_def make_mmap_sink_def make_mmap_def map_path_def open_file_def
        open_file_helper_def map_handle_def query_file_size_def memory_map_def make_offset_page_aligned_def
        unmap_closed api_def sample_api_fields invalid_handle_value_def s s1_def Let_def nth_append)
  with failed_map_overruns [of s 5000 api True s1 j s2 0 4090 None None] e d w show ?thesis
    by (simp add: s) (simp add: s1_def s)
qed

end
