(* ===== verification/Spec2Isabelle.thy ===== *)
theory Spec2Isabelle
  imports Session_Views Pooled_Scan Mio_Shared Mio_Strings Dump_Faults
begin

text \<open>
  A verification development for SlowScanner, a library that searches the memory of a Windows
  process for values and narrows the hits down scan by scan.

  \<^bold>\<open>The program.\<close> \<open>slow_scanner\<close> (\<open>slow_scanner.h\<close>, \<open>src/slow_scanner.cpp\<close>) walks the address space of
  the target with \<open>VirtualQueryEx\<close> (\<open>get_regions\<close>), makes one \<open>scan\<close> per region and searches them on
  a thread pool (\<open>first_scan\<close>), and later compares regions found anew with the scans of the round
  before (\<open>next_scan\<close>). A \<open>scan\<close> (\<open>scanner/scan.hpp\<close>) has a \<open>memory_region\<close>
  (\<open>scanner/memory_region.hpp/.cpp\<close>), a mode, an element size and the entries found. A region
  holds a copy of the bytes of the target; its base class \<open>dumpable<uint8_t>\<close>
  (\<open>dumpable/dumpable.hpp\<close>) keeps that copy in a file on disk, \<open>m_file\<close>
  (\<open>dumpable/src/dumpable.cpp\<close>), which grows and is mapped anew as copies are added, each mapping
  being owned by a reference-counted \<open>active_map\<close>. The mappings are those of \<open>mio.hpp\<close>.
  \<open>thread_pool.hpp\<close> and \<open>singleton.hpp\<close> are the pool and the access to its one instance.

  \<^bold>\<open>The theories\<close>, in the order of their imports.

  \<^item> \<open>Prelude\<close>: machine words, the faults that end an execution (a null dereference, an access outside
    an object, an exception), the little-endian reading of a few bytes, lemmas shared by all.
    \<open>Shared_Count\<close>: the locale \<open>shared_count\<close>, the contract of reference counting, interpreted on the
    maps of the dump file and on the shared mappings.
  \<^item> \<open>Fp_Arith\<close>: binary32 and binary64 values, rounding to nearest even, the arithmetic and the
    comparisons of \<open>float\<close> and \<open>double\<close>. \<open>Comparator\<close>: \<open>make_comparator\<close> for every element kind and
    mode. The locale \<open>scan_modes\<close> states what a search relies on (which modes exclude or complement
    one another), \<open>exact_scan_modes\<close> what holds where no tolerance blurs them; interpreted on the
    comparators for all kinds, for \<open>double\<close> and for the integers.
  \<^item> \<open>Win32\<close>: the platform, a record of functions on a state of the world, with the documented
    behaviour that the proofs use as predicates (\<open>memory_docs\<close>, \<open>query_docs\<close>, \<open>rpm_docs\<close>; \<open>view_docs\<close>
    in \<open>Map_Views\<close>: only \<open>MapViewOfFile\<close> makes a view, and \<open>UnmapViewOfFile\<close> removes it).
    \<open>Sample_Windows\<close> and \<open>Still_Target\<close>: concrete platforms that satisfy them, for the witnesses.
  \<^item> \<open>Mio_Map\<close>: \<open>basic_mmap\<close> and \<open>detail::memory_map\<close>, the Windows branches. \<open>Mio_Interface\<close>: mappings
    named by handles, whole files, factories, throwing constructors, byte access, and what \<open>map\<close> does
    to an object that holds a mapping already. \<open>Mio_Shared\<close>: \<open>basic_shared_mmap\<close>, its handles and
    use counts, and a client of many handles as a step relation. \<open>Mio_Strings\<close>: the string types that
    are accepted as a path, the type traits and overloads that choose the code for each, and \<open>map\<close> for
    a path of any of them, reduced to \<open>map\<close> for a \<open>std::string\<close>. The program itself uses only \<open>Mio_Map\<close>.
  \<^item> \<open>Dump_File\<close>: \<open>active_map\<close> and \<open>m_file\<close>, with the heap of maps and their use counts explicit;
    \<open>Dump_Write\<close>: what \<open>m_file::write\<close> guarantees; \<open>Dump_Faults\<close>: what a failed mapping leaves; \<open>Dump_Store\<close>: the file as a store of ranges. The locale
    \<open>range_store\<close> states the laws of the store and proves once that any sequence of operations
    behaves like a finite map; \<open>shared_range_store\<close> adds steps of the environment and
    \<open>counted_range_store\<close> (in \<open>Dump_Buffer\<close>) the release of ranges. All three are interpreted on the
    operations of \<open>m_file\<close>.
  \<^item> \<open>Map_Views\<close>: the views of the process and the maps that own them. \<open>active_map\<close> unmaps the view of a map with
    its last pointer, and every operation of \<open>m_file\<close> accounts for the views it makes.
  \<^item> \<open>Dump_Buffer\<close>: the class \<open>dumpable\<close>. \<open>Memory_Region\<close>: the class \<open>memory_region\<close>.
    \<open>Scan_Object\<close>: the class \<open>scan\<close> with \<open>search_value\<close> and \<open>update\<close>.
  \<^item> \<open>Scan_Set\<close>: the scans a client holds as a whole, and the invariant \<open>scans_ok\<close>: the copies lie
    apart in the dump file and the pointers to the maps are exactly those of the scans.
  \<^item> \<open>Region_Walk\<close>: \<open>get_regions\<close>. \<open>First_Scan\<close>: \<open>first_scan\<close>, its tasks as state machines under a
    schedule. \<open>Next_Scan\<close>, \<open>Next_Walk\<close>, \<open>Next_Reference\<close>: \<open>next_scan\<close>, its loops with checked reads, the
    walk over regions and previous scans, and what is compared with what.
  \<^item> \<open>Rounds\<close>: both scans as operations on a set of candidates, pairs of an address and the value it
    is compared with, and the refinement of this specification by the code.
  \<^item> \<open>Session\<close>: all operations in any order, as a step relation, and its invariant. \<open>Session_Types\<close>: the
    element sizes and the widths of the values in what a session holds. \<open>Session_Views\<close>: the views that
    exist in a session, all of them foreign or owned by a map that a copy or the dump file refers to.
  \<^item> \<open>Thread_Pool\<close>: workers, queue, condition variable and destructor as a step relation, and
    \<open>singleton\<close>. \<open>Pooled_Scan\<close>: the tasks of \<open>first_scan\<close> on the pool.

  \<^bold>\<open>Correspondence.\<close> Definitions have the names of the functions and fields they model; a name that
  is taken gets a prefix (\<open>mm_length\<close>, \<open>m_write\<close>, \<open>mmap_swap\<close>). A member function takes its object as an
  argument and returns it changed. The state \<open>'w sys\<close> has the platform's world, the heap of maps and
  the dump file, which the program reaches through static members and \<open>shared_ptr\<close>s. A function that
  can fault returns \<open>fault + 'a\<close>; the absence of \<open>Out_of_bounds\<close> is memory safety. Loops whose end is not
  evident (\<open>region_walk\<close>, \<open>overlap_loop\<close>) are partial functions, None standing for not returning,
  and are proved to return. The tasks that \<open>first_scan\<close> enqueues go through three steps each
  (reserve, read, search), interleaved by a list of task numbers; waiting for the futures is
  doing the steps left over, three per task being enough (\<open>run_jobs_all_done\<close>).

  \<^bold>\<open>What is shown.\<close> For the scanner: the regions found are those wanted (\<open>get_regions_covers\<close>); a first
  scan finds every match, whatever the interleaving, and a next scan keeps exactly the candidates
  the comparison accepts (\<open>first_scan_exact\<close>, \<open>next_scan_first_overlap\<close>, \<open>next_scan_addresses\<close>, the
  refinements in \<open>Rounds\<close>); the runs of the thread pool are covered by the schedules
  (\<open>pooled_first_scan\<close>); and in every state that a client can reach the copies are intact, no operation
  faults (\<open>Session\<close>), no view is left without an owner (\<open>Session_Views\<close>) and every value fits its type (\<open>Session_Types\<close>). For the layers below: a write to the dump file reads back and
  disturbs nothing, the file implements a finite map, destroying a buffer leaves the others alone and
  with the last one and the dump file every view of a map is gone, the
  mappings show the file, whatever type of string named it (\<open>map_any_path\<close>), the pool runs each task once, never gets stuck and ends. Some theorems
  state where the code does something else than one would expect: a range that starts inside a
  page, a previous entry that is not aligned with its new region or has another element size, a dump file that cannot grow or is
  not empty, the exact tolerance and the overlapping modes of \<open>float\<close>, the string types that the comments of \<open>mio.hpp\<close> name and its
  templates reject (\<open>documented_tokens_rejected\<close>).

  \<^bold>\<open>Bounds and assumptions.\<close> Addresses of the target lie below \<open>2^47\<close>, as Windows documents, and regions
  end below \<open>2^48\<close>; the dump file stays below \<open>2^60\<close> bytes, so that no offset wraps. That a reservation in
  the dump file succeeds depends on the platform and is a hypothesis where a theorem needs it
  (\<open>allocs_succeed\<close>, \<open>next_reserves\<close>); what happens otherwise is in \<open>Dump_Write\<close>
  and \<open>Dump_Faults\<close>. Clients of shared mappings request ranges that do not wrap around and establish no
  mapping of no bytes, and the predicates on the platform speak of the views of one file. Views that
  existed before the scanner, or that appear while the target runs, are foreign: the theorems about leaks leave
  them out. Where the source copies \<open>size\<close> bytes into a map, the model faults as soon as they pass the length
  requested for the map, although the view itself ends at a page. The order of the entries
  in an \<open>unordered_set\<close> of map pointers has no effect and is that of insertion. \<open>std::sort\<close> on keys that
  are distinct is \<open>sort_key\<close>.

  \<^bold>\<open>Not modelled.\<close> The POSIX branches of \<open>mio.hpp\<close>, which the Windows program does not compile, and its
  second copy of \<open>page.hpp\<close>, which the include guard of the first removes. Volatile types among the
  string types.
  Allocation failure of \<open>new\<close> and of the containers. What a task on the thread pool other than that of
  \<open>first_scan\<close> does. Data races within one task's access to its own copy cannot arise, since every
  copy is a range of its own; the mutex of \<open>m_file\<close> makes its operations atomic.
\<close>

end
